(* ===== verification/Prelude.thy ===== *)
theory Prelude imports Main "HOL-Library.Word" begin

text \<open>
  Shared vocabulary of the development: C integers of fixed width, undefined behaviour as a
  value, linked lists whose last pointer may be NULL or indeterminate, and the generic lemmas
  the component theories rely on.

  \<^item> A computation that may run into undefined behaviour or a crash returns \<open>'a res\<close>: \<open>Inl\<close>
    names what went wrong, \<open>Inr\<close> carries the value and the new state.  Error codes the C code
    itself returns (\<open>-1\<close>, \<open>-3000\<close>) are ordinary values inside \<open>Inr\<close>.
  \<^item> \<open>int\<close> and \<open>unsigned long\<close> variables are HOL integers; the conversions the compiler inserts
    are \<open>to_i32\<close>, \<open>to_u32\<close> and \<open>to_u64\<close> (LP64, two's complement).  Page table entries, on which
    the code works bitwise, are \<open>32 word\<close>; bytes (\<open>typedef char BYTE\<close>, signed) are \<open>8 word\<close>.
\<close>

section \<open>Collections of simplification rules\<close>

named_theorems res_simps "evaluation of computations that may fault"
named_theorems cint_simps "conversions between C integer types"
named_theorems chain_simps "linked lists"

section \<open>Undefined behaviour as a value\<close>

datatype fault =
    NullDeref
  | WildPointer
  | OutOfBounds
  | UninitRead
  | UseAfterFree
  | SignedOverflow
  | DivByZero

type_synonym 'a res = "fault + 'a"

definition bindR :: "'a res \<Rightarrow> ('a \<Rightarrow> 'b res) \<Rightarrow> 'b res" where
  "bindR m f = (case m of Inl e \<Rightarrow> Inl e | Inr x \<Rightarrow> f x)"

lemma bindR_Inl [simp, res_simps]: "bindR (Inl e) f = Inl e"
  by (simp add: bindR_def)

lemma bindR_Inr [simp, res_simps]: "bindR (Inr x) f = f x"
  by (simp add: bindR_def)

lemma bindR_eq_Inr: "bindR m f = Inr y \<longleftrightarrow> (\<exists>x. m = Inr x \<and> f x = Inr y)"
  by (cases m) auto

lemma bindR_eq_Inl: "bindR m f = Inl e \<longleftrightarrow> m = Inl e \<or> (\<exists>x. m = Inr x \<and> f x = Inl e)"
  by (cases m) auto

lemma bindR_InrE:
  assumes "bindR m f = Inr y"
  obtains x where "m = Inr x" and "f x = Inr y"
  using assms by (auto simp: bindR_eq_Inr)

lemma bindR_assoc: "bindR (bindR m f) g = bindR m (\<lambda>x. bindR (f x) g)"
  by (cases m) simp_all

lemma bindR_cong [fundef_cong]:
  "m = m' \<Longrightarrow> (\<And>x. m' = Inr x \<Longrightarrow> f x = f' x) \<Longrightarrow> bindR m f = bindR m' f'"
  by (cases m') simp_all

section \<open>C integers\<close>

definition to_u32 :: "int \<Rightarrow> int" where
  "to_u32 x = x mod 4294967296"

definition to_u64 :: "int \<Rightarrow> int" where
  "to_u64 x = x mod 18446744073709551616"

definition to_i32 :: "int \<Rightarrow> int" where
  "to_i32 x = (x + 2147483648) mod 4294967296 - 2147483648"

text \<open>A result of signed \<open>int\<close> arithmetic outside the type is undefined behaviour.\<close>

definition ck_int :: "int \<Rightarrow> int res" where
  "ck_int x = (if -2147483648 \<le> x \<and> x \<le> 2147483647 then Inr x else Inl SignedOverflow)"

text \<open>Division of C rounds towards zero.\<close>

definition c_div :: "int \<Rightarrow> int \<Rightarrow> int" where
  "c_div a b = sgn a * sgn b * (\<bar>a\<bar> div \<bar>b\<bar>)"

lemma c_div_nonneg [cint_simps]: "0 \<le> a \<Longrightarrow> 0 < b \<Longrightarrow> c_div a b = a div b"
  by (cases "a = 0") (simp_all add: c_div_def sgn_if)

lemma le_div_iff_int: "0 < c \<Longrightarrow> a \<le> x div c \<longleftrightarrow> a * c \<le> x" for a c x :: int
proof
  assume c: "0 < c" and "a \<le> x div c"
  then have "a * c \<le> x div c * c" by (simp add: mult_right_mono)
  also have "\<dots> \<le> x" using c by (simp add: minus_mod_eq_div_mult [symmetric])
  finally show "a * c \<le> x" .
next
  assume c: "0 < c" and "a * c \<le> x"
  then have "a * c div c \<le> x div c" by (intro zdiv_mono1)
  with c show "a \<le> x div c" by simp
qed

lemma div_less_iff_int: "0 < c \<Longrightarrow> x div c < a \<longleftrightarrow> x < a * c" for a c x :: int
  using le_div_iff_int [of c a x] by linarith

lemma to_u32_id [cint_simps]: "0 \<le> x \<Longrightarrow> x < 4294967296 \<Longrightarrow> to_u32 x = x"
  by (simp add: to_u32_def)

lemma to_u64_id [cint_simps]: "0 \<le> x \<Longrightarrow> x < 18446744073709551616 \<Longrightarrow> to_u64 x = x"
  by (simp add: to_u64_def)

lemma to_i32_id [cint_simps]: "-2147483648 \<le> x \<Longrightarrow> x < 2147483648 \<Longrightarrow> to_i32 x = x"
  by (simp add: to_i32_def)

lemma to_u32_range [simp]: "0 \<le> to_u32 x" "to_u32 x < 4294967296"
  by (simp_all add: to_u32_def)

lemma to_u64_range [simp]: "0 \<le> to_u64 x" "to_u64 x < 18446744073709551616"
  by (simp_all add: to_u64_def)

lemma to_i32_range: "-2147483648 \<le> to_i32 x \<and> to_i32 x < 2147483648"
proof -
  have "0 \<le> (x + 2147483648) mod 4294967296 \<and> (x + 2147483648) mod 4294967296 < 4294967296"
    by simp
  then show ?thesis unfolding to_i32_def by linarith
qed

lemma ck_int_id [cint_simps]: "-2147483648 \<le> x \<Longrightarrow> x \<le> 2147483647 \<Longrightarrow> ck_int x = Inr x"
  by (simp add: ck_int_def)

lemma ck_int_Inr_iff: "ck_int x = Inr y \<longleftrightarrow> y = x \<and> -2147483648 \<le> x \<and> x \<le> 2147483647"
  by (auto simp: ck_int_def)

section \<open>Linked lists\<close>

text \<open>
  A singly linked list read through a pointer.  \<open>Null\<close> is the NULL pointer, \<open>Wild\<close> a pointer
  that was never initialised (a field of memory fresh from \<open>malloc\<close>, or of the stack), \<open>Node\<close> a
  live node.  The code never changes a node that another list shares, except where a theory
  says so, so sharing is not visible and the list is a value.
\<close>

datatype 'a chain = Null | Wild | Node 'a "'a chain"

fun nodes :: "'a chain \<Rightarrow> 'a list" where
  "nodes Null = []"
| "nodes Wild = []"
| "nodes (Node x c) = x # nodes c"

fun terminated :: "'a chain \<Rightarrow> bool" where
  "terminated Null = True"
| "terminated Wild = False"
| "terminated (Node x c) = terminated c"

fun chain_onto :: "'a list \<Rightarrow> 'a chain \<Rightarrow> 'a chain" where
  "chain_onto [] c = c"
| "chain_onto (x # xs) c = Node x (chain_onto xs c)"

abbreviation chain_of :: "'a list \<Rightarrow> 'a chain" where
  "chain_of xs \<equiv> chain_onto xs Null"

text \<open>
  The value of a pointer field that nothing has written yet: NULL when the fresh memory
  happens to be zero, indeterminate otherwise.
\<close>

definition fresh_ptr :: "bool \<Rightarrow> 'a chain" where
  "fresh_ptr zeroed = (if zeroed then Null else Wild)"

lemma fresh_ptr_simps [simp, chain_simps]: "fresh_ptr True = Null" "fresh_ptr False = Wild"
  by (simp_all add: fresh_ptr_def)

lemma nodes_chain_onto [simp, chain_simps]: "nodes (chain_onto xs c) = xs @ nodes c"
  by (induction xs) auto

lemma terminated_chain_onto [simp, chain_simps]: "terminated (chain_onto xs c) = terminated c"
  by (induction xs) auto

lemma chain_onto_append [chain_simps]: "chain_onto (xs @ ys) c = chain_onto xs (chain_onto ys c)"
  by (induction xs) auto

lemma terminated_iff: "terminated c \<longleftrightarrow> c = chain_of (nodes c)"
  by (induction c) auto

lemma terminatedE:
  assumes "terminated c"
  obtains xs where "c = chain_of xs"
  using assms terminated_iff by blast

lemma chain_of_eq_Null_iff [simp]: "chain_onto xs c = Null \<longleftrightarrow> xs = [] \<and> c = Null"
  by (cases xs) auto

lemma chain_of_neq_Wild [simp]: "chain_of xs \<noteq> Wild"
  by (cases xs) auto

lemma chain_of_inject [simp]: "chain_of xs = chain_of ys \<longleftrightarrow> xs = ys"
proof
  assume "chain_of xs = chain_of ys"
  then have "nodes (chain_of xs) = nodes (chain_of ys)" by simp
  then show "xs = ys" by simp
qed simp

section \<open>Lists\<close>

lemma take_Suc_snoc: "n < length xs \<Longrightarrow> take (Suc n) xs = take n xs @ [xs ! n]"
  by (rule take_Suc_conv_app_nth)

lemma map_the_Some: "map the (map Some xs) = xs"
  by (induction xs) auto

lemma distinct_nth_neq: "distinct xs \<Longrightarrow> i < length xs \<Longrightarrow> j < length xs \<Longrightarrow> i \<noteq> j \<Longrightarrow> xs ! i \<noteq> xs ! j"
  by (simp add: nth_eq_iff_index_eq)

lemma upt_hd_tl: "0 < n \<Longrightarrow> [0..<n] = 0 # [1..<n]"
  by (simp add: upt_conv_Cons)

end
