(* ===== verification/Bits.thy ===== *)
theory Bits imports Prelude begin

unbundle bit_operations_syntax

text \<open>
  The bit layer: the macros of \<^verbatim>\<open>include/bitops.h\<close> and \<^verbatim>\<open>include/mm.h\<close> and the page table entry
  functions at the head of \<^verbatim>\<open>src/mm.c\<close>.  The macros work on \<open>unsigned int\<close> (\<open>32 word\<close>).
  The lemmas show that a mask \<open>GENMASK h l\<close> selects exactly the bits \<open>l..h\<close>, that reading a field
  back after writing it gives the written bits, and that the virtual address and the physical
  address are the expected quotient and remainder by the page size.
\<close>

type_synonym u32 = "32 word"

section \<open>bitops.h\<close>

abbreviation (input) BITS_PER_LONG :: nat where "BITS_PER_LONG \<equiv> 32"

definition DIV_ROUND_UP :: "int \<Rightarrow> int \<Rightarrow> int" where
  "DIV_ROUND_UP n d = c_div (n + d - 1) d"

definition BIT :: "nat \<Rightarrow> u32" where
  "BIT nr = push_bit nr 1"

text \<open>\<open>unsigned long\<close> and \<open>unsigned long long\<close> have 64 bits.\<close>

definition BITS_PER_BYTE :: nat where
  "BITS_PER_BYTE = 8"

definition BIT_ULL :: "nat \<Rightarrow> 64 word" where
  "BIT_ULL nr = push_bit nr 1"

definition BIT_MASK :: "nat \<Rightarrow> 64 word" where
  "BIT_MASK nr = push_bit (nr mod BITS_PER_LONG) 1"

definition BIT_WORD :: "nat \<Rightarrow> nat" where
  "BIT_WORD nr = nr div BITS_PER_LONG"

definition BITS_TO_LONGS :: "int \<Rightarrow> int" where
  "BITS_TO_LONGS nr = DIV_ROUND_UP nr (int BITS_PER_BYTE * 8)"

definition GENMASK :: "nat \<Rightarrow> nat \<Rightarrow> u32" where
  "GENMASK h l = push_bit l (NOT 0) AND drop_bit (BITS_PER_LONG - h - 1) (NOT 0)"

definition NBITS2 :: "u32 \<Rightarrow> nat" where
  "NBITS2 n = (if n AND 2 \<noteq> 0 then 1 else 0)"

definition NBITS4 :: "u32 \<Rightarrow> nat" where
  "NBITS4 n = (if n AND 0xC \<noteq> 0 then 2 + NBITS2 (drop_bit 2 n) else NBITS2 n)"

definition NBITS8 :: "u32 \<Rightarrow> nat" where
  "NBITS8 n = (if n AND 0xF0 \<noteq> 0 then 4 + NBITS4 (drop_bit 4 n) else NBITS4 n)"

definition NBITS16 :: "u32 \<Rightarrow> nat" where
  "NBITS16 n = (if n AND 0xFF00 \<noteq> 0 then 8 + NBITS8 (drop_bit 8 n) else NBITS8 n)"

definition NBITS32 :: "u32 \<Rightarrow> nat" where
  "NBITS32 n = (if n AND 0xFFFF0000 \<noteq> 0 then 16 + NBITS16 (drop_bit 16 n) else NBITS16 n)"

definition NBITS :: "u32 \<Rightarrow> nat" where
  "NBITS n = (if n = 0 then 0 else NBITS32 n)"

definition EXTRACT_NBITS :: "u32 \<Rightarrow> nat \<Rightarrow> nat \<Rightarrow> u32" where
  "EXTRACT_NBITS nr h l = drop_bit l (nr AND GENMASK h l)"

section \<open>mm.h\<close>

definition SETBIT :: "u32 \<Rightarrow> u32 \<Rightarrow> u32" where
  "SETBIT v msk = v OR msk"

definition CLRBIT :: "u32 \<Rightarrow> u32 \<Rightarrow> u32" where
  "CLRBIT v msk = v AND NOT msk"

definition SETVAL :: "u32 \<Rightarrow> u32 \<Rightarrow> u32 \<Rightarrow> nat \<Rightarrow> u32" where
  "SETVAL v x msk offst = (v AND NOT msk) OR (push_bit offst x AND msk)"

definition GETVAL :: "u32 \<Rightarrow> u32 \<Rightarrow> nat \<Rightarrow> u32" where
  "GETVAL v msk offst = drop_bit offst (v AND msk)"

definition PAGING_CPU_BUS_WIDTH :: nat where
  "PAGING_CPU_BUS_WIDTH = 22"

definition PAGING_PAGESZ :: int where
  "PAGING_PAGESZ = 256"

definition PAGING_MEMRAMSZ :: u32 where
  "PAGING_MEMRAMSZ = BIT 21"

definition PAGING_PAGE_ALIGNSZ :: "int \<Rightarrow> int" where
  "PAGING_PAGE_ALIGNSZ sz = DIV_ROUND_UP sz PAGING_PAGESZ * PAGING_PAGESZ"

definition PAGING_MEMSWPSZ :: u32 where
  "PAGING_MEMSWPSZ = BIT 29"

definition PAGING_SWPFPN_OFFSET :: nat where
  "PAGING_SWPFPN_OFFSET = 5"

definition PAGING_MAX_PGN :: int where
  "PAGING_MAX_PGN = DIV_ROUND_UP (uint (BIT PAGING_CPU_BUS_WIDTH)) PAGING_PAGESZ"

definition PAGING_SBRK_INIT_SZ :: int where
  "PAGING_SBRK_INIT_SZ = PAGING_PAGESZ"

definition PAGING_PTE_PRESENT_MASK :: u32 where
  "PAGING_PTE_PRESENT_MASK = BIT 31"

definition PAGING_PTE_SWAPPED_MASK :: u32 where
  "PAGING_PTE_SWAPPED_MASK = BIT 30"

definition PAGING_PTE_RESERVE_MASK :: u32 where
  "PAGING_PTE_RESERVE_MASK = BIT 29"

definition PAGING_PTE_DIRTY_MASK :: u32 where
  "PAGING_PTE_DIRTY_MASK = BIT 28"

definition PAGING_PTE_EMPTY01_MASK :: u32 where
  "PAGING_PTE_EMPTY01_MASK = BIT 14"

definition PAGING_PTE_EMPTY02_MASK :: u32 where
  "PAGING_PTE_EMPTY02_MASK = BIT 13"

definition PAGING_PTE_SET_PRESENT :: "u32 \<Rightarrow> u32" where
  "PAGING_PTE_SET_PRESENT pte = pte OR PAGING_PTE_PRESENT_MASK"

definition PAGING_PAGE_PRESENT :: "u32 \<Rightarrow> bool" where
  "PAGING_PAGE_PRESENT pte \<longleftrightarrow> pte AND PAGING_PTE_PRESENT_MASK \<noteq> 0"

text \<open>The swapped bit has a mask and no accessor in the code; the lemmas read it as follows.\<close>

definition pte_swapped :: "u32 \<Rightarrow> bool" where
  "pte_swapped pte \<longleftrightarrow> pte AND PAGING_PTE_SWAPPED_MASK \<noteq> 0"

text \<open>The fields of an entry.\<close>

definition PAGING_PTE_USRNUM_LOBIT :: nat where "PAGING_PTE_USRNUM_LOBIT = 15"
definition PAGING_PTE_USRNUM_HIBIT :: nat where "PAGING_PTE_USRNUM_HIBIT = 27"
definition PAGING_PTE_FPN_LOBIT :: nat where "PAGING_PTE_FPN_LOBIT = 0"
definition PAGING_PTE_FPN_HIBIT :: nat where "PAGING_PTE_FPN_HIBIT = 12"
definition PAGING_PTE_SWPTYP_LOBIT :: nat where "PAGING_PTE_SWPTYP_LOBIT = 0"
definition PAGING_PTE_SWPTYP_HIBIT :: nat where "PAGING_PTE_SWPTYP_HIBIT = 4"
definition PAGING_PTE_SWPOFF_LOBIT :: nat where "PAGING_PTE_SWPOFF_LOBIT = 5"
definition PAGING_PTE_SWPOFF_HIBIT :: nat where "PAGING_PTE_SWPOFF_HIBIT = 25"

lemmas paging_fields [simp] =
  PAGING_PTE_USRNUM_LOBIT_def PAGING_PTE_USRNUM_HIBIT_def
  PAGING_PTE_FPN_LOBIT_def PAGING_PTE_FPN_HIBIT_def
  PAGING_PTE_SWPTYP_LOBIT_def PAGING_PTE_SWPTYP_HIBIT_def
  PAGING_PTE_SWPOFF_LOBIT_def PAGING_PTE_SWPOFF_HIBIT_def

definition PAGING_PTE_USRNUM_MASK :: u32 where
  "PAGING_PTE_USRNUM_MASK = GENMASK PAGING_PTE_USRNUM_HIBIT PAGING_PTE_USRNUM_LOBIT"

definition PAGING_PTE_FPN_MASK :: u32 where
  "PAGING_PTE_FPN_MASK = GENMASK PAGING_PTE_FPN_HIBIT PAGING_PTE_FPN_LOBIT"

definition PAGING_PTE_SWPTYP_MASK :: u32 where
  "PAGING_PTE_SWPTYP_MASK = GENMASK PAGING_PTE_SWPTYP_HIBIT PAGING_PTE_SWPTYP_LOBIT"

definition PAGING_PTE_SWPOFF_MASK :: u32 where
  "PAGING_PTE_SWPOFF_MASK = GENMASK PAGING_PTE_SWPOFF_HIBIT PAGING_PTE_SWPOFF_LOBIT"

definition PAGING_PTE_FPN :: "u32 \<Rightarrow> u32" where
  "PAGING_PTE_FPN pte = GETVAL pte PAGING_PTE_FPN_MASK PAGING_PTE_FPN_LOBIT"

definition PAGING_PTE_SWP :: "u32 \<Rightarrow> u32" where
  "PAGING_PTE_SWP pte = GETVAL pte PAGING_PTE_SWPOFF_MASK PAGING_SWPFPN_OFFSET"

definition PAGING_SWP :: "u32 \<Rightarrow> u32" where
  "PAGING_SWP pte = drop_bit PAGING_SWPFPN_OFFSET (pte AND PAGING_PTE_SWPOFF_MASK)"

definition PAGING_ADDR_OFFST_LOBIT :: nat where
  "PAGING_ADDR_OFFST_LOBIT = 0"

definition PAGING_ADDR_OFFST_HIBIT :: nat where
  "PAGING_ADDR_OFFST_HIBIT = NBITS (word_of_int PAGING_PAGESZ) - 1"

definition PAGING_ADDR_PGN_LOBIT :: nat where
  "PAGING_ADDR_PGN_LOBIT = NBITS (word_of_int PAGING_PAGESZ)"

definition PAGING_ADDR_PGN_HIBIT :: nat where
  "PAGING_ADDR_PGN_HIBIT = PAGING_CPU_BUS_WIDTH - 1"

definition PAGING_ADDR_FPN_LOBIT :: nat where
  "PAGING_ADDR_FPN_LOBIT = NBITS (word_of_int PAGING_PAGESZ)"

definition PAGING_ADDR_FPN_HIBIT :: nat where
  "PAGING_ADDR_FPN_HIBIT = NBITS PAGING_MEMRAMSZ - 1"

definition PAGING_SWP_LOBIT :: nat where
  "PAGING_SWP_LOBIT = NBITS (word_of_int PAGING_PAGESZ)"

definition PAGING_SWP_HIBIT :: nat where
  "PAGING_SWP_HIBIT = NBITS PAGING_MEMSWPSZ - 1"

definition PAGING_OFFST_MASK :: u32 where
  "PAGING_OFFST_MASK = GENMASK PAGING_ADDR_OFFST_HIBIT PAGING_ADDR_OFFST_LOBIT"

definition PAGING_PGN_MASK :: u32 where
  "PAGING_PGN_MASK = GENMASK PAGING_ADDR_PGN_HIBIT PAGING_ADDR_PGN_LOBIT"

definition PAGING_FPN_MASK :: u32 where
  "PAGING_FPN_MASK = GENMASK PAGING_ADDR_FPN_HIBIT PAGING_ADDR_FPN_LOBIT"

definition PAGING_SWP_MASK :: u32 where
  "PAGING_SWP_MASK = GENMASK PAGING_SWP_HIBIT PAGING_SWP_LOBIT"

definition PAGING_PTE_OFFST :: "u32 \<Rightarrow> u32" where
  "PAGING_PTE_OFFST pte = GETVAL pte PAGING_OFFST_MASK PAGING_ADDR_OFFST_LOBIT"

definition PAGING_PTE_PGN :: "u32 \<Rightarrow> u32" where
  "PAGING_PTE_PGN pte = GETVAL pte PAGING_PGN_MASK PAGING_ADDR_PGN_LOBIT"

definition PAGING_SWPFPN :: "u32 \<Rightarrow> u32" where
  "PAGING_SWPFPN x = GETVAL x PAGING_PTE_SWPOFF_MASK PAGING_SWPFPN_OFFSET"

text \<open>An \<open>int\<close> argument of these macros is converted to \<open>unsigned int\<close> by the bitwise \<open>&\<close>.\<close>

definition PAGING_OFFST :: "int \<Rightarrow> int" where
  "PAGING_OFFST x = uint (GETVAL (word_of_int x) PAGING_OFFST_MASK PAGING_ADDR_OFFST_LOBIT)"

definition PAGING_PGN :: "int \<Rightarrow> int" where
  "PAGING_PGN x = uint (GETVAL (word_of_int x) PAGING_PGN_MASK PAGING_ADDR_PGN_LOBIT)"

definition PAGING_FPN :: "u32 \<Rightarrow> int" where
  "PAGING_FPN x = uint (GETVAL x PAGING_PTE_FPN_MASK PAGING_PTE_FPN_LOBIT)"

definition PAGING_SWPTYP :: "u32 \<Rightarrow> int" where
  "PAGING_SWPTYP x = uint (GETVAL x PAGING_PTE_SWPTYP_MASK PAGING_PTE_SWPTYP_LOBIT)"

text \<open>Two stubs: the macros answer 0 whatever they are given.\<close>

definition INCLUDE :: "int \<Rightarrow> int \<Rightarrow> int \<Rightarrow> int \<Rightarrow> int" where
  "INCLUDE x1 x2 y1 y2 = 0"

definition OVERLAP :: "int \<Rightarrow> int \<Rightarrow> int \<Rightarrow> int \<Rightarrow> int" where
  "OVERLAP x1 x2 y1 y2 = 0"

definition PAGING_PHYADDR :: "int \<Rightarrow> int \<Rightarrow> int" where
  "PAGING_PHYADDR fpn offst = push_bit PAGING_ADDR_FPN_LOBIT fpn + offst"

section \<open>Page table entries (mm.c)\<close>

text \<open>
  \<open>init_pte\<close> returns the code's status and the new entry; the two setters always return 0, so
  only the entry is kept.
\<close>

definition init_pte :: "u32 \<Rightarrow> int \<Rightarrow> int \<Rightarrow> int \<Rightarrow> int \<Rightarrow> int \<Rightarrow> int \<Rightarrow> int \<times> u32" where
  "init_pte pte pre fpn drt swp swptyp swpoff =
    (if pre \<noteq> 0 then
       if swp = 0 then
         if fpn = 0 then (-1, pte)
         else
           let p1 = SETBIT pte PAGING_PTE_PRESENT_MASK;
               p2 = CLRBIT p1 PAGING_PTE_SWAPPED_MASK;
               p3 = CLRBIT p2 PAGING_PTE_DIRTY_MASK
           in (0, SETVAL p3 (word_of_int fpn) PAGING_PTE_FPN_MASK PAGING_PTE_FPN_LOBIT)
       else
         let p1 = SETBIT pte PAGING_PTE_PRESENT_MASK;
             p2 = SETBIT p1 PAGING_PTE_SWAPPED_MASK;
             p3 = CLRBIT p2 PAGING_PTE_DIRTY_MASK;
             p4 = SETVAL p3 (word_of_int swptyp) PAGING_PTE_SWPTYP_MASK PAGING_PTE_SWPTYP_LOBIT
         in (0, SETVAL p4 (word_of_int swpoff) PAGING_PTE_SWPOFF_MASK PAGING_PTE_SWPOFF_LOBIT)
     else (0, pte))"

definition pte_set_swap :: "u32 \<Rightarrow> int \<Rightarrow> int \<Rightarrow> u32" where
  "pte_set_swap pte swptyp swpoff =
    (let p1 = SETBIT pte PAGING_PTE_PRESENT_MASK;
         p2 = SETBIT p1 PAGING_PTE_SWAPPED_MASK;
         p3 = SETVAL p2 (word_of_int swptyp) PAGING_PTE_SWPTYP_MASK PAGING_PTE_SWPTYP_LOBIT
     in SETVAL p3 (word_of_int swpoff) PAGING_PTE_SWPOFF_MASK PAGING_PTE_SWPOFF_LOBIT)"

definition pte_set_fpn :: "u32 \<Rightarrow> int \<Rightarrow> u32" where
  "pte_set_fpn pte fpn =
    (let p1 = SETBIT pte PAGING_PTE_PRESENT_MASK;
         p2 = CLRBIT p1 PAGING_PTE_SWAPPED_MASK
     in SETVAL p2 (word_of_int fpn) PAGING_PTE_FPN_MASK PAGING_PTE_FPN_LOBIT)"

section \<open>Masks, bit by bit\<close>

lemma bit_GENMASK: "h < 32 \<Longrightarrow> bit (GENMASK h l) n \<longleftrightarrow> l \<le> n \<and> n \<le> h"
  by (auto simp: GENMASK_def bit_simps)

lemma bit_BIT [simp]: "bit (BIT k) n \<longleftrightarrow> k = n \<and> n < 32"
  by (auto simp: BIT_def bit_simps)

lemma and_BIT_iff: "k < 32 \<Longrightarrow> (w AND BIT k \<noteq> 0) \<longleftrightarrow> bit w k"
proof
  assume "k < 32" and "w AND BIT k \<noteq> 0"
  then obtain n where "bit (w AND BIT k) n" by (auto simp: bit_eq_iff)
  then show "bit w k" by (auto simp: bit_simps)
next
  assume "k < 32" and "bit w k"
  then have "bit (w AND BIT k) k" by (simp add: bit_simps)
  then show "w AND BIT k \<noteq> 0" by (metis bit_0_eq bot_apply bot_bool_def)
qed

lemma present_bit: "PAGING_PAGE_PRESENT pte \<longleftrightarrow> bit pte 31"
  by (simp add: PAGING_PAGE_PRESENT_def PAGING_PTE_PRESENT_MASK_def and_BIT_iff)

lemma swapped_bit: "pte_swapped pte \<longleftrightarrow> bit pte 30"
  by (simp add: pte_swapped_def PAGING_PTE_SWAPPED_MASK_def and_BIT_iff)

lemma bit_SETBIT: "bit (SETBIT v (BIT k)) n \<longleftrightarrow> bit v n \<or> k = n \<and> n < 32"
  by (auto simp: SETBIT_def bit_simps)

lemma bit_CLRBIT: "bit (CLRBIT v (BIT k)) n \<longleftrightarrow> bit v n \<and> k \<noteq> n"
  by (auto simp: CLRBIT_def bit_simps dest: bit_imp_le_length)

lemma bit_SETVAL:
  "h < 32 \<Longrightarrow> bit (SETVAL v x (GENMASK h l) l) n \<longleftrightarrow>
     (if l \<le> n \<and> n \<le> h then bit x (n - l) else bit v n)"
  by (auto simp: SETVAL_def bit_simps bit_GENMASK dest: bit_imp_le_length)

lemma bit_GETVAL:
  "h < 32 \<Longrightarrow> bit (GETVAL v (GENMASK h l) l) n \<longleftrightarrow> n + l \<le> h \<and> bit v (n + l)"
  by (auto simp: GETVAL_def bit_simps bit_GENMASK add.commute)

lemmas pte_masks =
  PAGING_PTE_PRESENT_MASK_def PAGING_PTE_SWAPPED_MASK_def PAGING_PTE_DIRTY_MASK_def
  PAGING_PTE_FPN_MASK_def PAGING_PTE_SWPTYP_MASK_def PAGING_PTE_SWPOFF_MASK_def

lemmas pte_bits = bit_SETBIT bit_CLRBIT bit_SETVAL bit_GETVAL

text \<open>A field that is written and read back gives the low bits of the written value.\<close>

lemma GETVAL_SETVAL:
  assumes "h < 32" and "l \<le> h"
  shows "GETVAL (SETVAL v x (GENMASK h l) l) (GENMASK h l) l = take_bit (Suc h - l) x"
  using assms by (intro bit_eqI) (auto simp: pte_bits bit_simps)


section \<open>Constants\<close>

lemma NBITS_PAGESZ: "NBITS 256 = 8"
  by (simp add: NBITS_def NBITS32_def NBITS16_def NBITS8_def NBITS4_def NBITS2_def)

lemma paging_bounds [simp]:
  "PAGING_ADDR_OFFST_LOBIT = 0" "PAGING_ADDR_OFFST_HIBIT = 7" "PAGING_ADDR_PGN_LOBIT = 8" "PAGING_ADDR_PGN_HIBIT = 21"
  "PAGING_ADDR_FPN_LOBIT = 8"
  by (simp_all add: PAGING_ADDR_OFFST_LOBIT_def PAGING_ADDR_OFFST_HIBIT_def PAGING_ADDR_PGN_LOBIT_def
      PAGING_ADDR_PGN_HIBIT_def PAGING_ADDR_FPN_LOBIT_def PAGING_PAGESZ_def
      PAGING_CPU_BUS_WIDTH_def NBITS_PAGESZ)

text \<open>
  The fields fit together: the eight fields of an entry that is present cover every bit once, the two of a swapped
  entry lie below the flags, page number and offset cover the bus, and the frame number and the swap offset have a
  value for every frame of the largest RAM and of the largest swap device.
\<close>

lemma entry_layout:
  "PAGING_PTE_PRESENT_MASK OR PAGING_PTE_SWAPPED_MASK OR PAGING_PTE_RESERVE_MASK OR PAGING_PTE_DIRTY_MASK OR
     PAGING_PTE_USRNUM_MASK OR PAGING_PTE_EMPTY01_MASK OR PAGING_PTE_EMPTY02_MASK OR PAGING_PTE_FPN_MASK = - 1"
  "uint PAGING_PTE_PRESENT_MASK + uint PAGING_PTE_SWAPPED_MASK + uint PAGING_PTE_RESERVE_MASK + uint PAGING_PTE_DIRTY_MASK +
     uint PAGING_PTE_USRNUM_MASK + uint PAGING_PTE_EMPTY01_MASK + uint PAGING_PTE_EMPTY02_MASK + uint PAGING_PTE_FPN_MASK = 2 ^ 32 - 1"
  "PAGING_PTE_SWPTYP_MASK AND PAGING_PTE_SWPOFF_MASK = 0"
  "(PAGING_PTE_SWPTYP_MASK OR PAGING_PTE_SWPOFF_MASK) AND
     (PAGING_PTE_PRESENT_MASK OR PAGING_PTE_SWAPPED_MASK OR PAGING_PTE_RESERVE_MASK OR PAGING_PTE_DIRTY_MASK) = 0"
  "uint PAGING_PGN_MASK + uint PAGING_OFFST_MASK = 2 ^ PAGING_CPU_BUS_WIDTH - 1"
  "2 ^ (Suc PAGING_PTE_FPN_HIBIT - PAGING_PTE_FPN_LOBIT) * PAGING_PAGESZ = uint PAGING_MEMRAMSZ"
  "2 ^ (Suc PAGING_PTE_SWPOFF_HIBIT - PAGING_PTE_SWPOFF_LOBIT) * PAGING_PAGESZ = uint PAGING_MEMSWPSZ"
  "2 ^ (Suc PAGING_ADDR_FPN_HIBIT - PAGING_ADDR_FPN_LOBIT) * PAGING_PAGESZ = uint PAGING_MEMRAMSZ"
  "2 ^ (Suc PAGING_SWP_HIBIT - PAGING_SWP_LOBIT) * PAGING_PAGESZ = uint PAGING_MEMSWPSZ"
  by code_simp+

lemma swap_macros: "PAGING_SWP pte = PAGING_PTE_SWP pte" "PAGING_SWPFPN pte = PAGING_PTE_SWP pte"
  by (simp_all add: PAGING_SWP_def PAGING_SWPFPN_def PAGING_PTE_SWP_def GETVAL_def)

lemma PAGING_MAX_PGN_eq: "PAGING_MAX_PGN = 16384"
  by (simp add: PAGING_MAX_PGN_def DIV_ROUND_UP_def BIT_def PAGING_CPU_BUS_WIDTH_def
      PAGING_PAGESZ_def c_div_def)

text \<open>The literals of the \<open>NBITS\<close> macros, bit by bit.\<close>

lemma nbits_masks:
  "(2 :: u32) = GENMASK 1 1" "(0xC :: u32) = GENMASK 3 2" "(0xF0 :: u32) = GENMASK 7 4"
  "(0xFF00 :: u32) = GENMASK 15 8" "(0xFFFF0000 :: u32) = GENMASK 31 16"
  by code_simp+

section \<open>Address arithmetic\<close>

lemma GETVAL_eq_take_drop:
  assumes "h < 32" and "l \<le> h"
  shows "GETVAL v (GENMASK h l) l = take_bit (Suc h - l) (drop_bit l v)"
  using assms by (intro bit_eqI) (auto simp: bit_GETVAL bit_simps add.commute)

lemma uint_drop_bit: "uint (drop_bit l v) = drop_bit l (uint v)" for v :: u32
  by (rule bit_eqI) (auto simp: bit_simps dest: bit_imp_le_length)

lemma uint_drop_div: "uint (drop_bit l v) = uint v div 2 ^ l" for v :: u32
  by (rule trans [OF uint_drop_bit drop_bit_eq_div])

lemma uint_GETVAL:
  assumes "h < 32" and "l \<le> h"
  shows "uint (GETVAL v (GENMASK h l) l) = (uint v div 2 ^ l) mod 2 ^ (Suc h - l)"
proof -
  have "uint (GETVAL v (GENMASK h l) l) = take_bit (Suc h - l) (drop_bit l (uint v))"
    using assms by (simp add: GETVAL_eq_take_drop unsigned_take_bit_eq uint_drop_bit)
  then show ?thesis by (simp only: take_bit_eq_mod drop_bit_eq_div)
qed

lemma PAGING_OFFST_eq: "PAGING_OFFST x = x mod 256"
proof -
  have "PAGING_OFFST x = (x mod 4294967296) mod 256"
    by (simp add: PAGING_OFFST_def PAGING_OFFST_MASK_def uint_GETVAL unsigned_of_int
        take_bit_eq_mod)
  also have "\<dots> = x mod 256" by (simp add: mod_mod_cancel)
  finally show ?thesis .
qed

lemma PAGING_PGN_eq: "PAGING_PGN x = (x div 256) mod 16384"
proof -
  have "PAGING_PGN x = ((x mod 4294967296) div 256) mod 16384"
    by (simp add: PAGING_PGN_def PAGING_PGN_MASK_def uint_GETVAL unsigned_of_int
        take_bit_eq_mod)
  also have "(x mod 4294967296) div 256 = (x div 256) mod 16777216"
    by (simp add: zmod_zmult2_eq [of 16777216 x 256, simplified])
  also have "\<dots> mod 16384 = (x div 256) mod 16384" by (simp add: mod_mod_cancel)
  finally show ?thesis .
qed

lemma PAGING_PHYADDR_eq: "PAGING_PHYADDR fpn offst = fpn * 256 + offst"
  by (simp add: PAGING_PHYADDR_def push_bit_eq_mult)

lemma PAGING_FPN_range: "0 \<le> PAGING_FPN pte" "PAGING_FPN pte < 8192"
  by (simp_all add: PAGING_FPN_def PAGING_PTE_FPN_MASK_def uint_GETVAL)

lemma uint_PAGING_PTE_FPN: "uint (PAGING_PTE_FPN pte) = PAGING_FPN pte"
  by (simp add: PAGING_FPN_def PAGING_PTE_FPN_def)

lemma PAGING_PAGE_ALIGNSZ_eq:
  "0 \<le> sz \<Longrightarrow> PAGING_PAGE_ALIGNSZ sz = (sz + 255) div 256 * 256"
  by (simp add: PAGING_PAGE_ALIGNSZ_def DIV_ROUND_UP_def PAGING_PAGESZ_def c_div_nonneg)

lemma and_field_eq_0_iff:
  fixes n :: u32
  assumes m: "\<And>k. bit m k \<longleftrightarrow> l \<le> k \<and> k < h" and n: "\<And>k. bit n k \<Longrightarrow> k < h"
  shows "n AND m = 0 \<longleftrightarrow> uint n < 2 ^ l"
proof -
  have "n AND m = 0 \<longleftrightarrow> drop_bit l n = 0"
  proof
    assume z: "n AND m = 0"
    have "\<not> bit (drop_bit l n) k" for k
    proof
      assume "bit (drop_bit l n) k"
      then have "bit n (l + k)" by (simp add: bit_drop_bit_eq)
      with n m have "bit (n AND m) (l + k)" by (simp add: bit_and_iff)
      with z show False by simp
    qed
    then show "drop_bit l n = 0" by (intro bit_eqI) simp
  next
    assume z: "drop_bit l n = 0"
    have "\<not> bit (n AND m) k" for k
    proof
      assume "bit (n AND m) k"
      then have "bit n k" and "l \<le> k" using m by (auto simp: bit_and_iff)
      then have "bit (drop_bit l n) (k - l)" by (simp add: bit_drop_bit_eq)
      with z show False by simp
    qed
    then show "n AND m = 0" by (intro bit_eqI) simp
  qed
  also have "\<dots> \<longleftrightarrow> uint (drop_bit l n) = 0" by (simp only: uint_0_iff)
  also have "\<dots> \<longleftrightarrow> uint n div 2 ^ l = 0" by (simp only: uint_drop_div)
  also have "\<dots> \<longleftrightarrow> uint n < 2 ^ l"
    by (auto simp: zdiv_eq_0_iff)
  finally show ?thesis .
qed

lemma bit_lt_iff_uint:
  fixes n :: u32
  assumes "uint n < 2 ^ h"
  shows "bit n k \<Longrightarrow> k < h"
proof (rule ccontr)
  assume "bit n k" and "\<not> k < h"
  then have "bit (uint n) k" using bit_imp_le_length [of n k] by (simp add: bit_uint_iff)
  moreover have "take_bit h (uint n) = uint n"
    using assms by (simp add: take_bit_int_eq_self)
  ultimately have "bit (take_bit h (uint n)) k" by simp
  with \<open>\<not> k < h\<close> show False by (simp add: bit_take_bit_iff)
qed

text \<open>\<open>is_log2 b n\<close>: \<open>b\<close> is the position of the highest set bit of \<open>n\<close>.\<close>

definition is_log2 :: "nat \<Rightarrow> u32 \<Rightarrow> bool" where
  "is_log2 b n \<longleftrightarrow> 2 ^ b \<le> uint n \<and> uint n < 2 ^ Suc b"

lemma GENMASK_eq_0_iff:
  assumes "uint n < 2 ^ Suc h" "h < 32"
  shows "n AND GENMASK h l = 0 \<longleftrightarrow> uint n < 2 ^ l"
  by (rule and_field_eq_0_iff [where h = "Suc h"])
     (use assms bit_lt_iff_uint [OF assms(1)] in \<open>auto simp: bit_GENMASK\<close>)

lemma is_log2_shift:
  assumes "is_log2 b (drop_bit k n)"
  shows "is_log2 (k + b) n"
proof -
  have "(2::int) ^ b * 2 ^ k \<le> uint n"
    using assms by (simp add: is_log2_def uint_drop_div le_div_iff_int)
  moreover have "uint n < 2 ^ Suc b * 2 ^ k"
    using assms by (simp add: is_log2_def uint_drop_div div_less_iff_int)
  ultimately show ?thesis by (simp add: is_log2_def power_add ac_simps)
qed

text \<open>One halving step of the \<open>NBITS\<close> cascade.\<close>

lemma nbits_step:
  assumes n: "0 < uint n" "uint n < 2 ^ (2 * k)" and k: "0 < k" "2 * k \<le> 32"
    and half: "\<And>m. 0 < uint m \<Longrightarrow> uint m < 2 ^ k \<Longrightarrow> is_log2 (f m) m"
  shows "is_log2 (if n AND GENMASK (2 * k - 1) k \<noteq> 0 then k + f (drop_bit k n) else f n) n"
proof -
  have z: "n AND GENMASK (2 * k - 1) k = 0 \<longleftrightarrow> uint n < 2 ^ k"
    using n k by (intro GENMASK_eq_0_iff) auto
  show ?thesis
  proof (cases "uint n < 2 ^ k")
    case True
    with z n half show ?thesis by simp
  next
    case False
    then have "0 < uint (drop_bit k n)"
      by (simp add: uint_drop_div pos_imp_zdiv_pos_iff)
    moreover have "uint (drop_bit k n) < 2 ^ k"
      using n(2) by (simp add: uint_drop_div div_less_iff_int mult_2 power_add)
    ultimately have "is_log2 (k + f (drop_bit k n)) n"
      by (intro is_log2_shift half)
    with z False show ?thesis by simp
  qed
qed

lemma NBITS2_log2: "0 < uint n \<Longrightarrow> uint n < 4 \<Longrightarrow> is_log2 (NBITS2 n) n"
  using GENMASK_eq_0_iff [of n 1 1] by (simp add: NBITS2_def is_log2_def nbits_masks)

lemma NBITS4_log2: "0 < uint n \<Longrightarrow> uint n < 16 \<Longrightarrow> is_log2 (NBITS4 n) n"
  using nbits_step [of n 2 NBITS2] NBITS2_log2 by (simp add: NBITS4_def nbits_masks)

lemma NBITS8_log2: "0 < uint n \<Longrightarrow> uint n < 256 \<Longrightarrow> is_log2 (NBITS8 n) n"
  using nbits_step [of n 4 NBITS4] NBITS4_log2 by (simp add: NBITS8_def nbits_masks)

lemma NBITS16_log2: "0 < uint n \<Longrightarrow> uint n < 65536 \<Longrightarrow> is_log2 (NBITS16 n) n"
  using nbits_step [of n 8 NBITS8] NBITS8_log2 by (simp add: NBITS16_def nbits_masks)

lemma NBITS32_log2: "0 < uint n \<Longrightarrow> is_log2 (NBITS32 n) n"
  using nbits_step [of n 16 NBITS16] NBITS16_log2 uint_lt2p [of n]
  by (simp add: NBITS32_def nbits_masks)

section \<open>What the entry setters leave behind\<close>

lemma pte_set_fpn_bit:
  "bit (pte_set_fpn pte fpn) n \<longleftrightarrow>
     (if n \<le> 12 then bit fpn n else if n = 31 then True else if n = 30 then False else bit pte n)"
  by (auto simp: pte_set_fpn_def Let_def pte_masks pte_bits bit_simps dest: bit_imp_le_length)

lemma pte_set_swap_bit:
  "bit (pte_set_swap pte swptyp swpoff) n \<longleftrightarrow>
     (if n \<le> 4 then bit swptyp n else if n \<le> 25 then bit swpoff (n - 5)
      else if n = 31 \<or> n = 30 then True else bit pte n)"
  by (auto simp: pte_set_swap_def Let_def pte_masks pte_bits bit_simps dest: bit_imp_le_length)

lemma uint_take_bit_word_of_int:
  "k \<le> 32 \<Longrightarrow> uint (take_bit k (word_of_int x :: u32)) = x mod 2 ^ k"
  by (simp add: unsigned_take_bit_eq uint_word_of_int_eq min_def flip: take_bit_eq_mod)

lemma PAGING_FPN_pte_set_fpn_mod: "PAGING_FPN (pte_set_fpn pte fpn) = fpn mod 8192"
  using uint_take_bit_word_of_int [of 13 fpn]
  by (simp add: PAGING_FPN_def pte_set_fpn_def Let_def PAGING_PTE_FPN_MASK_def GETVAL_SETVAL)

lemma PAGING_FPN_pte_set_fpn [simp]:
  "0 \<le> fpn \<Longrightarrow> fpn < 8192 \<Longrightarrow> PAGING_FPN (pte_set_fpn pte fpn) = fpn"
  by (simp add: PAGING_FPN_pte_set_fpn_mod)

lemma present_pte_set_fpn [simp]: "PAGING_PAGE_PRESENT (pte_set_fpn pte fpn)"
  by (simp add: present_bit pte_set_fpn_bit)

lemma swapped_pte_set_fpn [simp]: "\<not> pte_swapped (pte_set_fpn pte fpn)"
  by (simp add: swapped_bit pte_set_fpn_bit)

lemma present_pte_set_swap [simp]: "PAGING_PAGE_PRESENT (pte_set_swap pte swptyp swpoff)"
  by (simp add: present_bit pte_set_swap_bit)

lemma swapped_pte_set_swap [simp]: "pte_swapped (pte_set_swap pte swptyp swpoff)"
  by (simp add: swapped_bit pte_set_swap_bit)

text \<open>What the frame number field of a swap entry reads as.\<close>

lemma PAGING_FPN_pte_set_swap:
  assumes "0 \<le> swptyp" and "swptyp < 32" and "0 \<le> swpoff"
  shows "PAGING_FPN (pte_set_swap pte swptyp swpoff) = 32 * (swpoff mod 256) + swptyp"
proof -
  define x where "x = push_bit 5 swpoff OR take_bit 5 swptyp"
  have bx: "bit x n \<longleftrightarrow> (if n \<le> 4 then bit swptyp n else bit swpoff (n - 5))" for n
    by (auto simp: x_def bit_simps)
  have "x = push_bit 5 swpoff + take_bit 5 swptyp"
    unfolding x_def by (rule disjunctive_add [symmetric]) (auto simp: bit_simps)
  then have x: "x = 32 * swpoff + swptyp"
    using assms by (simp add: push_bit_eq_mult take_bit_eq_mod)
  have "GETVAL (pte_set_swap pte swptyp swpoff) (GENMASK 12 0) 0 = take_bit 13 (word_of_int x)"
    by (rule bit_eqI) (auto simp: bit_GETVAL pte_set_swap_bit bit_simps bx)
  then have "PAGING_FPN (pte_set_swap pte swptyp swpoff) = x mod 8192"
    using uint_take_bit_word_of_int [of 13 x]
    by (simp add: PAGING_FPN_def PAGING_PTE_FPN_MASK_def)
  also have "\<dots> = 32 * (swpoff mod 256) + swptyp"
  proof -
    have s: "swpoff = 256 * (swpoff div 256) + swpoff mod 256" by simp
    have "0 \<le> swpoff mod 256 \<and> swpoff mod 256 < 256" by simp
    then have r: "0 \<le> 32 * (swpoff mod 256) + swptyp \<and> 32 * (swpoff mod 256) + swptyp < 8192"
      using assms by linarith
    have "x = 32 * (swpoff mod 256) + swptyp + 8192 * (swpoff div 256)" using s x by linarith
    then have "x mod 8192 = (32 * (swpoff mod 256) + swptyp) mod 8192" by simp
    with r show ?thesis by simp
  qed
  finally show ?thesis .
qed

lemma SET_PRESENT_idem [simp]: "PAGING_PAGE_PRESENT pte \<Longrightarrow> PAGING_PTE_SET_PRESENT pte = pte"
  by (rule bit_eqI)
     (auto simp: PAGING_PTE_SET_PRESENT_def PAGING_PTE_PRESENT_MASK_def bit_or_iff present_bit)

section \<open>Properties\<close>

text \<open>C38: a present entry holds its frame number: for every entry \<open>pte\<close> and every frame below 8192
  (13 bits), \<open>pte_set_fpn\<close> gives an entry that is present, not swapped, whose \<open>PAGING_FPN\<close> is that
  frame, and whose reserved, dirty and user bits (13..29) are those of the old entry.\<close>

theorem pte_fpn_roundtrip:
  assumes "0 \<le> fpn" and "fpn < 8192"
  shows "PAGING_PAGE_PRESENT (pte_set_fpn pte fpn) \<and> \<not> pte_swapped (pte_set_fpn pte fpn) \<and>
    PAGING_FPN (pte_set_fpn pte fpn) = fpn \<and>
    (\<forall>n. 13 \<le> n \<and> n \<le> 29 \<longrightarrow> bit (pte_set_fpn pte fpn) n = bit pte n)"
  using assms by (simp add: pte_set_fpn_bit)

theorem pte_fpn_roundtrip_witness:
  "PAGING_FPN (pte_set_fpn 0xC0000061 4095) = 4095"
  using pte_fpn_roundtrip [of 4095 "0xC0000061"] by simp

text \<open>A swapped entry holds its swap device and its swap frame: \<open>pte_set_swap\<close> followed by
  \<open>PAGING_SWPTYP\<close> and \<open>PAGING_PTE_SWP\<close> gives back a device below 32 and a frame below \<open>2 ^ 21\<close>.\<close>

theorem pte_swap_roundtrip:
  assumes "0 \<le> swptyp" and "swptyp < 32" and "0 \<le> swpoff" and "swpoff < 2097152"
  shows "PAGING_SWPTYP (pte_set_swap pte swptyp swpoff) = swptyp \<and>
    uint (PAGING_PTE_SWP (pte_set_swap pte swptyp swpoff)) = swpoff \<and>
    pte_swapped (pte_set_swap pte swptyp swpoff)"
proof -
  let ?p = "pte_set_swap pte swptyp swpoff"
  have "GETVAL ?p (GENMASK 4 0) 0 = take_bit 5 (word_of_int swptyp)"
    by (rule bit_eqI) (auto simp: bit_GETVAL pte_set_swap_bit bit_simps)
  moreover have "GETVAL ?p (GENMASK 25 5) 5 = take_bit 21 (word_of_int swpoff)"
    by (rule bit_eqI) (auto simp: bit_GETVAL pte_set_swap_bit bit_simps)
  ultimately show ?thesis
    using assms uint_take_bit_word_of_int [of 5 swptyp] uint_take_bit_word_of_int [of 21 swpoff]
    by (simp add: PAGING_SWPTYP_def PAGING_PTE_SWP_def PAGING_PTE_SWPTYP_MASK_def
        PAGING_PTE_SWPOFF_MASK_def PAGING_SWPFPN_OFFSET_def)
qed

theorem pte_swap_roundtrip_witness:
  "PAGING_SWPTYP (pte_set_swap 0x80000003 2 65535) = 2 \<and>
   uint (PAGING_PTE_SWP (pte_set_swap 0x80000003 2 65535)) = 65535"
  using pte_swap_roundtrip [of 2 65535 "0x80000003"] by simp

text \<open>Translation keeps the byte: for an address below the 22-bit bus limit, the page number
  indexes the page table, the offset is inside a page, and \<open>PAGING_PHYADDR\<close> of the two rebuilds
  the address.\<close>

theorem address_split_roundtrip:
  assumes "0 \<le> addr" and "addr < 4194304"
  shows "PAGING_PHYADDR (PAGING_PGN addr) (PAGING_OFFST addr) = addr \<and>
    0 \<le> PAGING_PGN addr \<and> PAGING_PGN addr < PAGING_MAX_PGN \<and>
    0 \<le> PAGING_OFFST addr \<and> PAGING_OFFST addr < PAGING_PAGESZ"
proof -
  have "addr div 256 < 16384" using assms by (simp add: div_less_iff_int)
  then show ?thesis
    using assms by (simp add: PAGING_PHYADDR_eq PAGING_PGN_eq PAGING_OFFST_eq PAGING_MAX_PGN_eq
        PAGING_PAGESZ_def pos_imp_zdiv_nonneg_iff)
qed

theorem address_split_roundtrip_witness:
  "PAGING_PHYADDR (PAGING_PGN 1000) (PAGING_OFFST 1000) = 1000"
  using address_split_roundtrip [of 1000] by simp

text \<open>\<open>NBITS\<close>, a cascade of masks and shifts, computes the position of the highest set bit of
  every non-zero 32-bit value.\<close>

theorem NBITS_is_floor_log2:
  assumes "n \<noteq> 0"
  shows "2 ^ NBITS n \<le> uint n \<and> uint n < 2 ^ Suc (NBITS n)"
proof -
  have "uint n \<noteq> 0" using assms by (simp only: uint_0_iff not_False_eq_True)
  then have "0 < uint n" using uint_ge_0 [of n] by linarith
  then show ?thesis using NBITS32_log2 [of n] assms by (simp add: NBITS_def is_log2_def)
qed

theorem NBITS_is_floor_log2_witness: "2 ^ NBITS (1000 :: u32) \<le> (1000 :: int)"
  using NBITS_is_floor_log2 [of 1000] by simp

end
