(* ===== verification/Ready_Queue.thy ===== *)
theory Ready_Queue imports Prelude begin

text \<open>
  The bounded process queue of \<^verbatim>\<open>src/queue.c\<close>: an array of \<open>MAX_QUEUE_SIZE\<close> process pointers and
  a count.  Pointers to \<open>struct pcb_t\<close> are the addresses \<open>pcb_ref\<close>; \<open>None\<close> is the NULL pointer.  The
  loops of \<open>enqueue\<close> (duplicate scan) and \<open>dequeue\<close> (shift left) are kept as loops on indices.
  The abstract view \<open>q_list\<close> is the list of queued processes, front first; the locale
  \<open>bounded_fifo\<close> states what the scheduler and the kill system call rely on.
\<close>

section \<open>State\<close>

type_synonym pcb_ref = nat

record queue_t =
  q_proc :: "pcb_ref option list"
  q_size :: nat

definition MAX_QUEUE_SIZE :: nat where
  "MAX_QUEUE_SIZE = 10"

section \<open>Operations\<close>

text \<open>\<open>empty\<close>: a NULL queue counts as empty.\<close>

definition empty :: "queue_t option \<Rightarrow> bool" where
  "empty qp = (case qp of None \<Rightarrow> True | Some q \<Rightarrow> q_size q = 0)"

text \<open>The duplicate scan: does one of the cells \<open>i .. n - 1\<close> hold \<open>p\<close>?\<close>

function queued_from :: "pcb_ref option list \<Rightarrow> pcb_ref \<Rightarrow> nat \<Rightarrow> nat \<Rightarrow> bool" where
  "queued_from a p i n =
     (if i < n then (if a ! i = Some p then True else queued_from a p (Suc i) n) else False)"
  by pat_completeness auto
termination by (relation "measure (\<lambda>(a, p, i, n). n - i)") auto

declare queued_from.simps [simp del]

text \<open>\<open>enqueue\<close> on a live queue and a non-NULL process, then with the two NULL guards.\<close>

definition enqueue_at :: "queue_t \<Rightarrow> pcb_ref \<Rightarrow> queue_t" where
  "enqueue_at q p =
    (if q_size q \<ge> MAX_QUEUE_SIZE then q
     else if queued_from (q_proc q) p 0 (q_size q) then q
     else q\<lparr>q_proc := (q_proc q)[q_size q := Some p], q_size := q_size q + 1\<rparr>)"

fun enqueue :: "queue_t option \<Rightarrow> pcb_ref option \<Rightarrow> queue_t option" where
  "enqueue None proc = None"
| "enqueue (Some q) None = Some q"
| "enqueue (Some q) (Some p) = Some (enqueue_at q p)"

text \<open>\<open>for (i = 0; i < size - 1; i++) proc[i] = proc[i + 1]\<close>\<close>

function shift_left :: "pcb_ref option list \<Rightarrow> nat \<Rightarrow> nat \<Rightarrow> pcb_ref option list" where
  "shift_left a i n = (if i < n then shift_left (a[i := a ! Suc i]) (Suc i) n else a)"
  by pat_completeness auto
termination by (relation "measure (\<lambda>(a, i, n). n - i)") auto

declare shift_left.simps [simp del]

definition dequeue_at :: "queue_t \<Rightarrow> pcb_ref option \<times> queue_t" where
  "dequeue_at q =
    (if q_size q = 0 then (None, q)
     else
       let pop_proc = q_proc q ! 0;
           a = shift_left (q_proc q) 0 (q_size q - 1)
       in (pop_proc, q\<lparr>q_proc := a[q_size q - 1 := None], q_size := q_size q - 1\<rparr>))"

fun dequeue :: "queue_t option \<Rightarrow> pcb_ref option \<times> queue_t option" where
  "dequeue None = (None, None)"
| "dequeue (Some q) = (case dequeue_at q of (p, q') \<Rightarrow> (p, Some q'))"

lemma q_size_dequeue_at: "q_size (snd (dequeue_at q)) = q_size q - 1"
  by (simp add: dequeue_at_def Let_def)

text \<open>\<open>clear_queue\<close> writes \<open>q->size\<close> after the loop, whatever \<open>q\<close> is.\<close>

function clear_loop :: "queue_t \<Rightarrow> queue_t" where
  "clear_loop q = (if empty (Some q) then q else clear_loop (snd (dequeue_at q)))"
  by pat_completeness auto
termination by (relation "measure q_size") (auto simp: empty_def q_size_dequeue_at)

declare clear_loop.simps [simp del]

definition clear_queue :: "queue_t option \<Rightarrow> queue_t option res" where
  "clear_queue qp =
    (case qp of
       None \<Rightarrow> Inl NullDeref
     | Some q \<Rightarrow> Inr (Some ((clear_loop q)\<lparr>q_size := 0\<rparr>)))"

section \<open>Invariant and abstract view\<close>

definition q_list :: "queue_t \<Rightarrow> pcb_ref list" where
  "q_list q = map the (take (q_size q) (q_proc q))"

definition q_wf :: "queue_t \<Rightarrow> bool" where
  "q_wf q \<longleftrightarrow> length (q_proc q) = MAX_QUEUE_SIZE \<and> q_size q \<le> MAX_QUEUE_SIZE \<and>
     None \<notin> set (take (q_size q) (q_proc q)) \<and> distinct (q_list q)"

definition zero_queue :: queue_t where
  "zero_queue = \<lparr>q_proc = replicate MAX_QUEUE_SIZE None, q_size = 0\<rparr>"

lemma length_q_list: "q_wf q \<Longrightarrow> length (q_list q) = q_size q"
  by (simp add: q_wf_def q_list_def)

lemma q_wf_prefix: "q_wf q \<Longrightarrow> take (q_size q) (q_proc q) = map Some (q_list q)"
  unfolding q_wf_def q_list_def map_map
  by (intro map_idI [symmetric]) (metis comp_apply option.collapse)

lemma q_wf_nth: "q_wf q \<Longrightarrow> i < q_size q \<Longrightarrow> q_proc q ! i = Some (q_list q ! i)"
  using q_wf_prefix [of q] length_q_list [of q] by (metis nth_map nth_take)

lemma q_list_size_0 [simp]: "q_size q = 0 \<Longrightarrow> q_list q = []"
  by (simp add: q_list_def)

lemma q_wf_empty_iff: "q_wf q \<Longrightarrow> q_size q = 0 \<longleftrightarrow> q_list q = []"
  using length_q_list [of q] by fastforce

lemma zero_queue_wf [simp]: "q_wf zero_queue" "q_list zero_queue = []" "q_size zero_queue = 0"
  by (simp_all add: zero_queue_def q_wf_def q_list_def)

lemma queued_from_iff: "queued_from a p i n \<longleftrightarrow> (\<exists>k. i \<le> k \<and> k < n \<and> a ! k = Some p)"
proof (induction a p i n rule: queued_from.induct)
  case (1 a p i n)
  show ?case
  proof (cases "i < n \<and> a ! i \<noteq> Some p")
    case True
    with 1 have "queued_from a p (Suc i) n \<longleftrightarrow> (\<exists>k. Suc i \<le> k \<and> k < n \<and> a ! k = Some p)"
      by simp
    with True show ?thesis
      by (subst queued_from.simps) (metis Suc_le_eq le_eq_less_or_eq)
  next
    case False
    then show ?thesis by (subst queued_from.simps) auto
  qed
qed

lemma queued_iff_list: "q_wf q \<Longrightarrow> queued_from (q_proc q) p 0 (q_size q) \<longleftrightarrow> p \<in> set (q_list q)"
  by (auto simp: queued_from_iff in_set_conv_nth length_q_list q_wf_nth)

lemma length_shift_left [simp]: "length (shift_left a i n) = length a"
  by (induction a i n rule: shift_left.induct) (subst shift_left.simps, simp)

lemma nth_shift_left:
  "n < length a \<Longrightarrow> shift_left a i n ! k = (if i \<le> k \<and> k < n then a ! Suc k else a ! k)"
proof (induction a i n rule: shift_left.induct)
  case (1 a i n)
  show ?case
  proof (cases "i < n")
    case True
    with 1 show ?thesis by (subst shift_left.simps) (auto simp: nth_list_update)
  next
    case False
    then show ?thesis by (subst shift_left.simps) auto
  qed
qed

lemma enqueue_at_full: "MAX_QUEUE_SIZE \<le> q_size q \<Longrightarrow> enqueue_at q p = q"
  by (simp add: enqueue_at_def)

lemma enqueue_at_spec:
  assumes "q_wf q"
  shows "q_list (enqueue_at q p) =
      (if length (q_list q) < MAX_QUEUE_SIZE \<and> p \<notin> set (q_list q) then q_list q @ [p]
       else q_list q) \<and> q_wf (enqueue_at q p)"
proof (cases "q_size q < MAX_QUEUE_SIZE \<and> p \<notin> set (q_list q)")
  case True
  let ?a = "(q_proc q)[q_size q := Some p]"
  have "take (Suc (q_size q)) ?a = take (q_size q) (q_proc q) @ [Some p]"
    using True assms by (simp add: take_Suc_conv_app_nth q_wf_def)
  with True assms show ?thesis
    by (auto simp: enqueue_at_def queued_iff_list length_q_list q_list_def q_wf_def)
next
  case False
  with assms show ?thesis by (auto simp: enqueue_at_def queued_iff_list length_q_list)
qed

lemma dequeue_at_spec:
  assumes wf: "q_wf q" and ne: "q_list q \<noteq> []"
  shows "fst (dequeue_at q) = Some (hd (q_list q))" and "q_wf (snd (dequeue_at q))"
    and "q_list (snd (dequeue_at q)) = tl (q_list q)"
proof -
  let ?n = "q_size q"
  have n: "0 < ?n" "?n \<le> length (q_proc q)" "length (q_proc q) = MAX_QUEUE_SIZE"
    using wf ne q_wf_empty_iff [OF wf] by (auto simp: q_wf_def)
  then show "fst (dequeue_at q) = Some (hd (q_list q))"
    using wf q_wf_nth [OF wf, of 0] ne by (simp add: dequeue_at_def Let_def hd_conv_nth)
  define b where "b = (shift_left (q_proc q) 0 (?n - 1))[?n - 1 := None]"
  have q': "snd (dequeue_at q) = q\<lparr>q_proc := b, q_size := ?n - 1\<rparr>"
    using n by (simp add: dequeue_at_def Let_def b_def)
  have "take (?n - 1) b = tl (take ?n (q_proc q))"
    using n by (intro nth_equalityI) (auto simp: b_def nth_shift_left nth_tl)
  then have pre: "take (?n - 1) b = map Some (tl (q_list q))"
    by (simp add: q_wf_prefix [OF wf] map_tl)
  then show l: "q_list (snd (dequeue_at q)) = tl (q_list q)"
    unfolding q' q_list_def by (simp add: map_the_Some)
  show "q_wf (snd (dequeue_at q))"
    using wf n pre l unfolding q' by (auto simp: q_wf_def b_def distinct_tl)
qed

lemma clear_loop_size: "q_size (clear_loop q) = 0"
  by (induction q rule: clear_loop.induct) (subst clear_loop.simps, auto simp: empty_def)

section \<open>The queue interface\<close>

text \<open>
  What a client may assume of a bounded queue without duplicates: \<open>items\<close> is its abstract
  content, \<open>good\<close> its invariant, \<open>cap\<close> its capacity.
\<close>

locale bounded_fifo =
  fixes enq :: "'q \<Rightarrow> 'a \<Rightarrow> 'q" and deq :: "'q \<Rightarrow> 'a option \<times> 'q"
    and isempty :: "'q \<Rightarrow> bool" and items :: "'q \<Rightarrow> 'a list" and good :: "'q \<Rightarrow> bool"
    and cap :: nat
  assumes good_enq: "good q \<Longrightarrow> good (enq q x)"
    and good_deq: "good q \<Longrightarrow> good (snd (deq q))"
    and items_enq: "good q \<Longrightarrow> items (enq q x) =
      (if length (items q) < cap \<and> x \<notin> set (items q) then items q @ [x] else items q)"
    and items_deq: "good q \<Longrightarrow> items (snd (deq q)) = tl (items q)"
    and front: "good q \<Longrightarrow> items q \<noteq> [] \<Longrightarrow> fst (deq q) = Some (hd (items q))"
    and no_front: "good q \<Longrightarrow> items q = [] \<Longrightarrow> deq q = (None, q)"
    and isempty_iff: "good q \<Longrightarrow> isempty q \<longleftrightarrow> items q = []"
    and items_distinct: "good q \<Longrightarrow> distinct (items q)"
begin

lemma deq_cases:
  assumes "good q"
  obtains (none) "items q = []" "deq q = (None, q)"
  | (some) x xs q' where "items q = x # xs" "deq q = (Some x, q')" "items q' = xs" "good q'"
proof (cases "items q")
  case Nil
  with assms none no_front show thesis by blast
next
  case (Cons x xs)
  with assms show thesis
    using some [of x xs "snd (deq q)"] front [of q] items_deq [of q] good_deq [of q]
    by (cases "deq q") simp
qed

lemma set_enq: "good q \<Longrightarrow> set (items (enq q x)) \<subseteq> insert x (set (items q))"
  by (auto simp: items_enq)

lemma enq_present: "good q \<Longrightarrow> length (items q) < cap \<Longrightarrow> x \<in> set (items (enq q x))"
  by (auto simp: items_enq)

lemma enq_idem: "good q \<Longrightarrow> x \<in> set (items q) \<Longrightarrow> items (enq q x) = items q"
  by (simp add: items_enq)

abbreviation enq_all :: "'a list \<Rightarrow> 'q \<Rightarrow> 'q" where
  "enq_all xs q \<equiv> fold (\<lambda>x q. enq q x) xs q"

abbreviation drop_front :: "nat \<Rightarrow> 'q \<Rightarrow> 'q" where
  "drop_front k q \<equiv> ((\<lambda>q. snd (deq q)) ^^ k) q"

lemma items_enq_all:
  "good q \<Longrightarrow> distinct (items q @ xs) \<Longrightarrow> length (items q @ xs) \<le> cap \<Longrightarrow>
     items (enq_all xs q) = items q @ xs \<and> good (enq_all xs q)"
proof (induction xs arbitrary: q)
  case (Cons x xs)
  then have "items (enq q x) = items q @ [x]" by (auto simp: items_enq)
  with Cons show ?case by (simp add: good_enq)
qed simp

lemma items_drop_front: "good q \<Longrightarrow> items (drop_front k q) = drop k (items q) \<and> good (drop_front k q)"
  by (induction k) (simp_all add: items_deq good_deq drop_Suc flip: drop_tl)

lemma fifo_order:
  assumes "good q" and "items q = []" and "distinct xs" and "length xs \<le> cap" and "k < length xs"
  shows "fst (deq (drop_front k (enq_all xs q))) = Some (xs ! k)"
proof -
  have "items (enq_all xs q) = xs" "good (enq_all xs q)"
    using assms items_enq_all [of q xs] by simp_all
  then have "items (drop_front k (enq_all xs q)) = drop k xs" "good (drop_front k (enq_all xs q))"
    using items_drop_front [of "enq_all xs q" k] by simp_all
  with assms(5) show ?thesis by (simp add: front hd_drop_conv_nth)
qed

end

lemma dequeue_at_empty: "q_wf q \<Longrightarrow> q_list q = [] \<Longrightarrow> dequeue_at q = (None, q)"
  by (simp add: dequeue_at_def flip: q_wf_empty_iff)

interpretation pq: bounded_fifo enqueue_at dequeue_at "\<lambda>q. empty (Some q)" q_list q_wf MAX_QUEUE_SIZE
proof unfold_locales
  fix q p
  assume wf: "q_wf q"
  show "q_wf (enqueue_at q p)" using enqueue_at_spec [OF wf] by simp
  show "q_list (enqueue_at q p) =
      (if length (q_list q) < MAX_QUEUE_SIZE \<and> p \<notin> set (q_list q) then q_list q @ [p]
       else q_list q)" using enqueue_at_spec [OF wf] by simp
  show "distinct (q_list q)" using wf by (simp add: q_wf_def)
  show "empty (Some q) \<longleftrightarrow> q_list q = []" using wf by (simp add: empty_def q_wf_empty_iff)
  show "q_wf (snd (dequeue_at q))"
    using dequeue_at_spec(2) [OF wf] dequeue_at_empty [OF wf] wf by (cases "q_list q = []") auto
  show "q_list (snd (dequeue_at q)) = tl (q_list q)"
    using dequeue_at_spec(3) [OF wf] dequeue_at_empty [OF wf] by (cases "q_list q = []") auto
  show "q_list q \<noteq> [] \<Longrightarrow> fst (dequeue_at q) = Some (hd (q_list q))"
    using dequeue_at_spec(1) [OF wf] by simp
  show "q_list q = [] \<Longrightarrow> dequeue_at q = (None, q)" using dequeue_at_empty [OF wf] by simp
qed


section \<open>Properties\<close>

text \<open>C32: on a well-formed queue the array code refines the list of processes: \<open>enqueue\<close> ignores a
  NULL process, a full queue and a process already queued, and otherwise appends; \<open>dequeue\<close> returns
  NULL on an empty queue and otherwise removes and returns the front.  Both keep the queue
  well-formed: ten cells, no NULL among the first \<open>size\<close>, no process twice.\<close>

theorem queue_refines_list:
  assumes "q_wf q"
  shows "enqueue (Some q) None = Some q \<and>
    (\<exists>q'. enqueue (Some q) (Some p) = Some q' \<and> q_wf q' \<and>
      q_list q' = (if length (q_list q) < 10 \<and> p \<notin> set (q_list q) then q_list q @ [p]
                   else q_list q)) \<and>
    (\<exists>q'. dequeue (Some q) =
        ((if q_list q = [] then None else Some (hd (q_list q))), Some q') \<and> q_wf q' \<and>
      q_list q' = tl (q_list q))"
proof (intro conjI)
  show "\<exists>q'. enqueue (Some q) (Some p) = Some q' \<and> q_wf q' \<and>
      q_list q' = (if length (q_list q) < 10 \<and> p \<notin> set (q_list q) then q_list q @ [p] else q_list q)"
    using assms pq.good_enq pq.items_enq [OF assms, of p] by (simp add: MAX_QUEUE_SIZE_def)
  show "\<exists>q'. dequeue (Some q) =
        ((if q_list q = [] then None else Some (hd (q_list q))), Some q') \<and> q_wf q' \<and>
      q_list q' = tl (q_list q)"
    using assms by (cases rule: pq.deq_cases) (auto simp: assms)
qed simp

theorem queue_refines_list_witness:
  "fst (dequeue (enqueue (enqueue (Some zero_queue) (Some 7)) (Some 9))) = Some 7"
proof -
  obtain q1 where q1: "enqueue (Some zero_queue) (Some 7) = Some q1" "q_wf q1" "q_list q1 = [7]"
    using queue_refines_list [of zero_queue 7] by auto
  obtain q2 where q2: "enqueue (Some q1) (Some 9) = Some q2" "q_wf q2" "q_list q2 = [7, 9]"
    using queue_refines_list [OF q1(2), of 9] q1(3) by auto
  obtain q3 where "dequeue (Some q2) = (Some 7, Some q3)"
    using queue_refines_list [OF q2(2)] q2(3) by (simp del: dequeue.simps) blast
  then show ?thesis using q1(1) q2(1) by (simp del: dequeue.simps enqueue.simps)
qed

text \<open>First come, first served: at most ten different processes enqueued into an empty queue come
  out in the order they went in.\<close>

theorem queue_fifo_order:
  assumes "distinct xs" and "length xs \<le> 10" and "k < length xs"
  shows "fst (dequeue_at (((\<lambda>q. snd (dequeue_at q)) ^^ k)
    (fold (\<lambda>x q. enqueue_at q x) xs zero_queue))) = Some (xs ! k)"
  using pq.fifo_order [of zero_queue xs k] assms by (simp add: MAX_QUEUE_SIZE_def)

theorem queue_fifo_order_witness:
  "fst (dequeue_at (((\<lambda>q. snd (dequeue_at q)) ^^ 2)
    (fold (\<lambda>x q. enqueue_at q x) [5, 3, 8] zero_queue))) = Some 8"
  using queue_fifo_order [of "[5, 3, 8]" 2] by simp

end
