(* ===== verification/Kernel_Types.thy ===== *)
theory Kernel_Types imports Bits Ready_Queue begin

text \<open>
  The data of \<^verbatim>\<open>include/common.h\<close> and \<^verbatim>\<open>include/os-mm.h\<close>: instructions, memory regions and areas,
  the memory descriptor of a process and the process control block.  Pointers to structures that
  only one owner reaches are replaced by the structure; process control blocks are shared (run
  queues, the running list, the CPUs) and live in a store \<open>pcb_ref \<rightharpoonup> pcb_t\<close>, so that a freed block is
  an address outside its domain.
\<close>

section \<open>Instructions\<close>

datatype ins_opcode_t = CALC | ALLOC | FREE | READ | WRITE | SYSCALL

text \<open>The numbering of the C enumeration, and the order it gives.\<close>

fun opcode_num :: "ins_opcode_t \<Rightarrow> nat" where
  "opcode_num CALC = 0"
| "opcode_num ALLOC = 1"
| "opcode_num FREE = 2"
| "opcode_num READ = 3"
| "opcode_num WRITE = 4"
| "opcode_num SYSCALL = 5"

lemma opcode_num_inject [simp]: "opcode_num a = opcode_num b \<longleftrightarrow> a = b"
  by (cases a; cases b) simp_all

instantiation ins_opcode_t :: linorder
begin
definition less_eq_ins_opcode_t :: "ins_opcode_t \<Rightarrow> ins_opcode_t \<Rightarrow> bool" where
  "less_eq_ins_opcode_t a b \<longleftrightarrow> opcode_num a \<le> opcode_num b"
definition less_ins_opcode_t :: "ins_opcode_t \<Rightarrow> ins_opcode_t \<Rightarrow> bool" where
  "less_ins_opcode_t a b \<longleftrightarrow> opcode_num a < opcode_num b"
instance
  by standard (auto simp: less_eq_ins_opcode_t_def less_ins_opcode_t_def)
end

text \<open>Arguments are \<open>uint32_t\<close> values.\<close>

record inst_t =
  opcode :: ins_opcode_t
  arg_0 :: int
  arg_1 :: int
  arg_2 :: int
  arg_3 :: int

record code_seg_t =
  c_text :: "inst_t list"
  c_size :: nat

section \<open>Virtual memory descriptors\<close>

text \<open>Bounds are \<open>unsigned long\<close> values.\<close>

record vm_rg_struct =
  rg_start :: int
  rg_end :: int

record vm_area_struct =
  vm_id :: int
  vm_start :: int
  vm_end :: int
  sbrk :: int
  vm_freerg_list :: "vm_rg_struct chain"

definition PAGING_MAX_MMSWP :: nat where
  "PAGING_MAX_MMSWP = 4"

definition PAGING_MAX_SYMTBL_SZ :: int where
  "PAGING_MAX_SYMTBL_SZ = 30"

text \<open>
  \<open>pgd\<close> is indexed by page number; \<open>mmap\<close> is the list of areas linked by \<open>vm_next\<close>;
  \<open>symrgtbl\<close> has \<open>PAGING_MAX_SYMTBL_SZ\<close> cells; \<open>fifo_pgn\<close> lists page numbers.
\<close>

record mm_struct =
  pgd :: "int \<Rightarrow> u32"
  mmap :: "vm_area_struct chain"
  symrgtbl :: "vm_rg_struct list"
  fifo_pgn :: "int chain"

section \<open>Process control block\<close>

text \<open>
  \<open>queues_set\<close>: have the pointers \<open>ready_queue\<close>, \<open>mlq_ready_queue\<close> and \<open>running_list\<close> been set (by
  \<open>add_proc\<close> or \<open>put_proc\<close>, always to the scheduler's own queues)?  \<open>mm\<close> is \<open>None\<close> until the loader
  has called \<open>init_mm\<close>.  \<open>active_mswp\<close> is the index of the active swap device; \<open>active_mswp_id\<close> is a
  field that no code ever writes.
\<close>

record pcb_t =
  pid :: int
  priority :: int
  path :: string
  code :: code_seg_t
  regs :: "int list"
  pc :: nat
  queues_set :: bool
  prio :: nat
  mm :: "mm_struct option"
  active_mswp :: nat
  active_mswp_id :: int
  bp :: int

type_synonym pcbs = "pcb_ref \<rightharpoonup> pcb_t"

text \<open>Following a pointer to a process: the block must not have been freed.\<close>

definition deref :: "pcbs \<Rightarrow> pcb_ref \<Rightarrow> pcb_t res" where
  "deref h p = (case h p of None \<Rightarrow> Inl UseAfterFree | Some x \<Rightarrow> Inr x)"

lemma deref_Inr_iff [simp]: "deref h p = Inr x \<longleftrightarrow> h p = Some x"
  by (simp add: deref_def split: option.splits)

lemma deref_Some: "h p = Some x \<Longrightarrow> deref h p = Inr x"
  by simp

lemma deref_None: "h p = None \<Longrightarrow> deref h p = Inl UseAfterFree"
  by (simp add: deref_def)

end
