(* ===== verification/MemPhy.thy ===== *)
theory MemPhy imports Kernel_Types begin

text \<open>
  Physical memory devices (\<^verbatim>\<open>src/mm-memphy.c\<close>): the byte array, the sequential cursor and the list
  of free frames.  \<open>storage\<close> holds bytes at the addresses \<open>0 .. maxsz - 1\<close>; any other address is
  \<open>OutOfBounds\<close>.  Functions that return a status return it first, then the value written through
  the output pointer (\<open>None\<close> when nothing was written), then the device.

  Two locales state what the paging code relies on: \<open>frame_pool\<close> for the list of free frames and
  \<open>byte_store\<close> for a randomly accessible device.
\<close>

section \<open>State\<close>

type_synonym byte = "8 word"

record memphy_struct =
  storage :: "int \<Rightarrow> byte"
  maxsz :: int
  rdmflg :: int
  cursor :: int
  free_fp_list :: "int chain"
  used_fp_list :: "int chain"

section \<open>Access\<close>

text \<open>\<open>while (numstep < offset && numstep < mp->maxsz)\<close>\<close>

function mv_csr_loop :: "memphy_struct \<Rightarrow> int \<Rightarrow> int \<Rightarrow> memphy_struct" where
  "mv_csr_loop mp numstep offset =
    (if numstep < offset \<and> numstep < maxsz mp
     then mv_csr_loop (mp\<lparr>cursor := (cursor mp + 1) mod maxsz mp\<rparr>) (numstep + 1) offset
     else mp)"
  by pat_completeness auto
termination by (relation "measure (\<lambda>(mp, i, n). nat (n - i))") auto

declare mv_csr_loop.simps [simp del]

definition MEMPHY_mv_csr :: "memphy_struct \<Rightarrow> int \<Rightarrow> memphy_struct" where
  "MEMPHY_mv_csr mp offset = mv_csr_loop (mp\<lparr>cursor := 0\<rparr>) 0 offset"

definition load_byte :: "memphy_struct \<Rightarrow> int \<Rightarrow> byte res" where
  "load_byte mp addr = (if 0 \<le> addr \<and> addr < maxsz mp then Inr (storage mp addr) else Inl OutOfBounds)"

definition store_byte :: "memphy_struct \<Rightarrow> int \<Rightarrow> byte \<Rightarrow> memphy_struct res" where
  "store_byte mp addr v =
    (if 0 \<le> addr \<and> addr < maxsz mp then Inr (mp\<lparr>storage := (storage mp)(addr := v)\<rparr>)
     else Inl OutOfBounds)"

definition MEMPHY_seq_read ::
  "memphy_struct option \<Rightarrow> int \<Rightarrow> (int \<times> byte option \<times> memphy_struct option) res" where
  "MEMPHY_seq_read mpp addr =
    (case mpp of
       None \<Rightarrow> Inr (-1, None, None)
     | Some mp \<Rightarrow>
         if rdmflg mp = 0 then Inr (-1, None, Some mp)
         else
           let mp' = MEMPHY_mv_csr mp addr
           in bindR (load_byte mp' addr) (\<lambda>v. Inr (0, Some v, Some mp')))"

definition MEMPHY_read ::
  "memphy_struct option \<Rightarrow> int \<Rightarrow> (int \<times> byte option \<times> memphy_struct option) res" where
  "MEMPHY_read mpp addr =
    (case mpp of
       None \<Rightarrow> Inr (-1, None, None)
     | Some mp \<Rightarrow>
         if rdmflg mp \<noteq> 0 then bindR (load_byte mp addr) (\<lambda>v. Inr (0, Some v, Some mp))
         else MEMPHY_seq_read mpp addr)"

definition MEMPHY_seq_write ::
  "memphy_struct option \<Rightarrow> int \<Rightarrow> byte \<Rightarrow> (int \<times> memphy_struct option) res" where
  "MEMPHY_seq_write mpp addr v =
    (case mpp of
       None \<Rightarrow> Inr (-1, None)
     | Some mp \<Rightarrow>
         if rdmflg mp = 0 then Inr (-1, Some mp)
         else bindR (store_byte (MEMPHY_mv_csr mp addr) addr v) (\<lambda>mp'. Inr (0, Some mp')))"

definition MEMPHY_write ::
  "memphy_struct option \<Rightarrow> int \<Rightarrow> byte \<Rightarrow> (int \<times> memphy_struct option) res" where
  "MEMPHY_write mpp addr v =
    (case mpp of
       None \<Rightarrow> Inr (-1, None)
     | Some mp \<Rightarrow>
         if rdmflg mp \<noteq> 0 then bindR (store_byte mp addr v) (\<lambda>mp'. Inr (0, Some mp'))
         else MEMPHY_seq_write mpp addr v)"

text \<open>
  The lines \<open>MEMPHY_dump\<close> prints: address and value of every non-zero byte.  Its second test, whether the storage is NULL,
  has no counterpart: \<open>malloc\<close> is taken to succeed for every size a device can have, 0 included, so that the
  storage of an initialised device is a block of \<open>maxsz\<close> bytes and never NULL.
\<close>

definition MEMPHY_dump :: "memphy_struct option \<Rightarrow> int \<times> (int \<times> byte) list" where
  "MEMPHY_dump mpp =
    (case mpp of
       None \<Rightarrow> (-1, [])
     | Some mp \<Rightarrow>
         (0, filter (\<lambda>(i, v). v \<noteq> 0) (map (\<lambda>i. (i, storage mp i)) [0..maxsz mp - 1])))"

section \<open>Free frames\<close>

text \<open>The nodes \<open>iter .. numfp - 1\<close> of the formatting loop; each gets \<open>fp_next = NULL\<close> first.\<close>

function format_nodes :: "int \<Rightarrow> int \<Rightarrow> int chain" where
  "format_nodes iter numfp =
    (if iter < numfp then Node iter (format_nodes (iter + 1) numfp) else Null)"
  by pat_completeness auto
termination by (relation "measure (\<lambda>(i, n). nat (n - i))") auto

declare format_nodes.simps [simp del]

text \<open>
  The first node comes from \<open>malloc\<close> and its \<open>fp_next\<close> is only written by the loop's first turn:
  with a single frame it keeps whatever the fresh memory held (\<open>zeroed\<close>: it held zeros).
\<close>

definition MEMPHY_format :: "bool \<Rightarrow> memphy_struct \<Rightarrow> int \<Rightarrow> (int \<times> memphy_struct) res" where
  "MEMPHY_format zeroed mp pagesz =
    (if pagesz = 0 then Inl DivByZero
     else
       let numfp = c_div (maxsz mp) pagesz in
       if numfp \<le> 0 then Inr (-1, mp)
       else
         Inr (0, mp\<lparr>free_fp_list :=
           Node 0 (if 1 < numfp then format_nodes 1 numfp else fresh_ptr zeroed)\<rparr>))"

definition MEMPHY_get_freefp :: "memphy_struct \<Rightarrow> (int \<times> int option \<times> memphy_struct) res" where
  "MEMPHY_get_freefp mp =
    (case free_fp_list mp of
       Null \<Rightarrow> Inr (-1, None, mp)
     | Wild \<Rightarrow> Inl WildPointer
     | Node fpn rest \<Rightarrow> Inr (0, Some fpn, mp\<lparr>free_fp_list := rest\<rparr>))"

definition MEMPHY_put_freefp :: "memphy_struct \<Rightarrow> int \<Rightarrow> memphy_struct" where
  "MEMPHY_put_freefp mp fpn = mp\<lparr>free_fp_list := Node fpn (free_fp_list mp)\<rparr>"

text \<open>
  \<open>init_memphy\<close> on the uninitialised struct \<open>mp\<close>.  A negative size becomes a huge \<open>size_t\<close>: \<open>malloc\<close>
  gives NULL and \<open>memset\<close> writes through it.  The status of \<open>MEMPHY_format\<close> is ignored, so a device
  without frames keeps the \<open>free_fp_list\<close> it had.
\<close>

definition init_memphy :: "bool \<Rightarrow> memphy_struct \<Rightarrow> int \<Rightarrow> int \<Rightarrow> memphy_struct res" where
  "init_memphy zeroed mp max_size randomflg =
    (if max_size < 0 then Inl NullDeref
     else
       let mp1 = mp\<lparr>storage := (\<lambda>_. 0), maxsz := max_size\<rparr> in
       bindR (MEMPHY_format zeroed mp1 PAGING_PAGESZ) (\<lambda>(_, mp2).
         let mp3 = mp2\<lparr>rdmflg := (if randomflg \<noteq> 0 then 1 else 0)\<rparr> in
         Inr (if rdmflg mp3 = 0 then mp3\<lparr>cursor := 0\<rparr> else mp3)))"

section \<open>The interface of the free frames\<close>

definition free_frames :: "memphy_struct \<Rightarrow> int list" where
  "free_frames mp = nodes (free_fp_list mp)"

definition pool_ok :: "memphy_struct \<Rightarrow> bool" where
  "pool_ok mp \<longleftrightarrow> terminated (free_fp_list mp)"

locale frame_pool =
  fixes get :: "'m \<Rightarrow> (int \<times> 'f option \<times> 'm) res" and put :: "'m \<Rightarrow> 'f \<Rightarrow> 'm"
    and avail :: "'m \<Rightarrow> 'f list" and ok :: "'m \<Rightarrow> bool"
  assumes get_none: "ok m \<Longrightarrow> avail m = [] \<Longrightarrow> get m = Inr (-1, None, m)"
    and get_some: "ok m \<Longrightarrow> avail m = f # fs \<Longrightarrow>
      \<exists>m'. get m = Inr (0, Some f, m') \<and> avail m' = fs \<and> ok m'"
    and avail_put: "avail (put m f) = f # avail m"
    and ok_put: "ok (put m f) = ok m"
begin

lemma get_total: "ok m \<Longrightarrow> \<exists>r. get m = Inr r"
  using get_none get_some by (cases "avail m") blast+

lemma get_put: "ok m \<Longrightarrow> \<exists>m'. get (put m f) = Inr (0, Some f, m') \<and> avail m' = avail m \<and> ok m'"
  using get_some [of "put m f" f "avail m"] by (simp add: avail_put ok_put)

lemma get_cases:
  assumes "ok m"
  obtains (none) "avail m = []" "get m = Inr (-1, None, m)"
  | (some) f fs m' where "avail m = f # fs" "get m = Inr (0, Some f, m')" "avail m' = fs" "ok m'"
proof (cases "avail m")
  case Nil
  with assms get_none none show thesis by blast
next
  case (Cons f fs)
  with assms get_some [of m f fs] some show thesis by blast
qed

text \<open>Handing out \<open>n\<close> frames one after the other.\<close>

inductive taken :: "'m \<Rightarrow> 'f list \<Rightarrow> 'm \<Rightarrow> bool" where
  none: "taken m [] m"
| one: "get m = Inr (0, Some f, m') \<Longrightarrow> taken m' fs m'' \<Longrightarrow> taken m (f # fs) m''"

lemma taken_prefix: "taken m fs m' \<Longrightarrow> ok m \<Longrightarrow> avail m = fs @ avail m' \<and> ok m'"
proof (induction rule: taken.induct)
  case (one m f m' fs m'')
  from one.prems show ?case
  proof (cases rule: get_cases)
    case none
    with one show ?thesis by simp
  next
    case (some g gs m2)
    with one show ?thesis by simp
  qed
qed simp

text \<open>No frame is handed out twice as long as none is given back.\<close>

lemma taken_distinct:
  "taken m fs m' \<Longrightarrow> ok m \<Longrightarrow> distinct (avail m) \<Longrightarrow> distinct fs \<and> set fs \<inter> set (avail m') = {}"
  using taken_prefix [of m fs m'] by auto

lemma take_n: "ok m \<Longrightarrow> n \<le> length (avail m) \<Longrightarrow> \<exists>m'. taken m (take n (avail m)) m' \<and>
    avail m' = drop n (avail m) \<and> ok m'"
proof (induction n arbitrary: m)
  case 0
  then show ?case by (auto intro: taken.none)
next
  case (Suc n)
  then obtain f fs m1 where m1: "avail m = f # fs" "get m = Inr (0, Some f, m1)" "avail m1 = fs" "ok m1"
    by (cases "avail m") (use get_some in force)+
  with Suc.prems Suc.IH [of m1] obtain m' where "taken m1 (take n fs) m'"
    "avail m' = drop n fs" "ok m'" by auto
  with m1 show ?case by (auto intro: taken.one)
qed

end

interpretation fp: frame_pool MEMPHY_get_freefp MEMPHY_put_freefp free_frames pool_ok
proof unfold_locales
  fix m :: memphy_struct and f fs
  show "pool_ok m \<Longrightarrow> free_frames m = [] \<Longrightarrow> MEMPHY_get_freefp m = Inr (-1, None, m)"
    by (cases "free_fp_list m") (simp_all add: MEMPHY_get_freefp_def pool_ok_def free_frames_def)
  show "pool_ok m \<Longrightarrow> free_frames m = f # fs \<Longrightarrow>
      \<exists>m'. MEMPHY_get_freefp m = Inr (0, Some f, m') \<and> free_frames m' = fs \<and> pool_ok m'"
    by (cases "free_fp_list m") (simp_all add: MEMPHY_get_freefp_def pool_ok_def free_frames_def)
qed (simp_all add: MEMPHY_put_freefp_def pool_ok_def free_frames_def)

section \<open>The interface of a random access device\<close>

definition ram_ok :: "memphy_struct \<Rightarrow> bool" where
  "ram_ok mp \<longleftrightarrow> rdmflg mp \<noteq> 0"

definition ram_load :: "memphy_struct \<Rightarrow> int \<Rightarrow> byte res" where
  "ram_load mp a =
    bindR (MEMPHY_read (Some mp) a) (\<lambda>(_, v, _). case v of None \<Rightarrow> Inl UninitRead | Some b \<Rightarrow> Inr b)"

definition ram_store :: "memphy_struct \<Rightarrow> int \<Rightarrow> byte \<Rightarrow> memphy_struct res" where
  "ram_store mp a v =
    bindR (MEMPHY_write (Some mp) a v)
      (\<lambda>(_, mp'). case mp' of None \<Rightarrow> Inl NullDeref | Some m \<Rightarrow> Inr m)"

locale byte_store =
  fixes load :: "'m \<Rightarrow> int \<Rightarrow> 'b res" and store :: "'m \<Rightarrow> int \<Rightarrow> 'b \<Rightarrow> 'm res"
    and cell :: "'m \<Rightarrow> int \<Rightarrow> 'b" and size_of :: "'m \<Rightarrow> int" and ok :: "'m \<Rightarrow> bool"
  assumes load_in: "ok m \<Longrightarrow> 0 \<le> a \<Longrightarrow> a < size_of m \<Longrightarrow> load m a = Inr (cell m a)"
    and load_out: "ok m \<Longrightarrow> \<not> (0 \<le> a \<and> a < size_of m) \<Longrightarrow> load m a = Inl OutOfBounds"
    and store_in: "ok m \<Longrightarrow> 0 \<le> a \<Longrightarrow> a < size_of m \<Longrightarrow>
      \<exists>m'. store m a v = Inr m' \<and> cell m' = (cell m)(a := v) \<and> size_of m' = size_of m \<and> ok m'"
    and store_out: "ok m \<Longrightarrow> \<not> (0 \<le> a \<and> a < size_of m) \<Longrightarrow> store m a v = Inl OutOfBounds"
begin

lemma store_cases:
  assumes "ok m" and "store m a v = Inr m'"
  shows "0 \<le> a \<and> a < size_of m \<and> cell m' = (cell m)(a := v) \<and> size_of m' = size_of m \<and> ok m'"
  using assms store_in [of m a v] store_out [of m a v] by (cases "0 \<le> a \<and> a < size_of m") auto

lemma load_after_store:
  "ok m \<Longrightarrow> store m a v = Inr m' \<Longrightarrow> 0 \<le> b \<Longrightarrow> b < size_of m \<Longrightarrow>
     load m' b = (if b = a then Inr v else load m b)"
  using store_cases [of m a v m'] by (auto simp: load_in)

end

interpretation ram: byte_store ram_load ram_store storage maxsz ram_ok
  by unfold_locales
    (auto simp: ram_load_def ram_store_def ram_ok_def MEMPHY_read_def MEMPHY_write_def
      load_byte_def store_byte_def)

section \<open>Facts about the operations\<close>

lemma format_nodes_eq: "0 \<le> i \<Longrightarrow> format_nodes i n = chain_of [i..n - 1]"
proof (induction i n rule: format_nodes.induct)
  case (1 i n)
  show ?case
  proof (cases "i < n")
    case True
    with 1 have "format_nodes (i + 1) n = chain_of [i + 1..n - 1]" by simp
    with True show ?thesis by (subst format_nodes.simps) (simp add: upto_rec1)
  next
    case False
    then show ?thesis by (subst format_nodes.simps) simp
  qed
qed

lemma mv_csr_loop_cursor:
  assumes "0 \<le> i" "cursor mp = i mod maxsz mp" "0 < maxsz mp"
  shows "mv_csr_loop mp i n = mp\<lparr>cursor := max i (min n (maxsz mp)) mod maxsz mp\<rparr>"
  using assms
proof (induction mp i n rule: mv_csr_loop.induct)
  case (1 mp i n)
  show ?case
  proof (cases "i < n \<and> i < maxsz mp")
    case True
    have "(cursor mp + 1) mod maxsz mp = (i + 1) mod maxsz mp"
      using 1(3) by (simp add: mod_add_left_eq)
    with 1 True show ?thesis by (subst mv_csr_loop.simps) (simp add: max_def min_def)
  next
    case False
    then have "max i (min n (maxsz mp)) = i" by auto
    with False "1.prems"(2) show ?thesis
      by (subst mv_csr_loop.simps) (auto simp del: max.absorb_iff1 max.absorb_iff2)
  qed
qed

lemma mv_csr_loop_shape: "\<exists>c. mv_csr_loop mp i n = mp\<lparr>cursor := c\<rparr>"
proof (induction mp i n rule: mv_csr_loop.induct)
  case (1 mp i n)
  show ?case
  proof (cases "i < n \<and> i < maxsz mp")
    case True
    with 1 obtain c where "mv_csr_loop (mp\<lparr>cursor := (cursor mp + 1) mod maxsz mp\<rparr>) (i + 1) n =
        (mp\<lparr>cursor := (cursor mp + 1) mod maxsz mp\<rparr>)\<lparr>cursor := c\<rparr>" by blast
    with True show ?thesis by (subst mv_csr_loop.simps) auto
  next
    case False
    then show ?thesis by (subst mv_csr_loop.simps) (auto intro: exI [of _ "cursor mp"])
  qed
qed

lemma mv_csr_shape: "\<exists>c. MEMPHY_mv_csr mp a = mp\<lparr>cursor := c\<rparr>"
  using mv_csr_loop_shape [of "mp\<lparr>cursor := 0\<rparr>" 0 a] by (auto simp: MEMPHY_mv_csr_def)

lemma mv_csr_frame [simp]:
  "storage (MEMPHY_mv_csr mp a) = storage mp" "maxsz (MEMPHY_mv_csr mp a) = maxsz mp"
  "rdmflg (MEMPHY_mv_csr mp a) = rdmflg mp" "free_fp_list (MEMPHY_mv_csr mp a) = free_fp_list mp"
  using mv_csr_shape [of mp a] by auto

lemma init_memphy_free_list:
  assumes "0 \<le> sz"
  shows "\<exists>mp'. init_memphy z mp sz r = Inr mp' \<and> maxsz mp' = sz \<and> storage mp' = (\<lambda>_. 0) \<and>
    (rdmflg mp' \<noteq> 0 \<longleftrightarrow> r \<noteq> 0) \<and>
    free_fp_list mp' = (if sz < 256 then free_fp_list mp
      else if sz < 512 then Node 0 (fresh_ptr z) else chain_of [0..sz div 256 - 1])"
proof -
  have d: "c_div sz 256 = sz div 256" using assms by (simp add: c_div_nonneg)
  have z: "sz div 256 \<le> 0 \<longleftrightarrow> sz < 256" "sz div 256 \<le> 1 \<longleftrightarrow> sz < 512"
    using div_less_iff_int [of 256 sz 1] div_less_iff_int [of 256 sz 2] by auto
  have "chain_of [0..sz div 256 - 1] = Node 0 (chain_of [1..sz div 256 - 1])"
    if "\<not> sz < 512" using that z by (simp add: upto_rec1)
  with assms z show ?thesis
    by (auto simp: init_memphy_def MEMPHY_format_def d Let_def PAGING_PAGESZ_def not_less
        format_nodes_eq)
qed

section \<open>Properties\<close>

text \<open>A device of at least two pages starts as zeroed memory whose free list is exactly the
  frames \<open>0 .. sz / 256 - 1\<close> in ascending order, properly terminated, whatever memory the struct
  and \<open>malloc\<close> provided.\<close>

theorem init_memphy_ready:
  assumes "512 \<le> sz"
  shows "\<exists>mp'. init_memphy z mp sz 1 = Inr mp' \<and> pool_ok mp' \<and> ram_ok mp' \<and> maxsz mp' = sz \<and>
    free_frames mp' = [0..sz div 256 - 1] \<and> (\<forall>a. storage mp' a = 0)"
proof -
  obtain mp' where "init_memphy z mp sz 1 = Inr mp'" "maxsz mp' = sz" "storage mp' = (\<lambda>_. 0)"
    "rdmflg mp' \<noteq> 0" "free_fp_list mp' = chain_of [0..sz div 256 - 1]"
    using init_memphy_free_list [of sz z mp 1] assms by auto
  then show ?thesis by (simp add: pool_ok_def ram_ok_def free_frames_def)
qed

definition stack_memphy :: memphy_struct where
  "stack_memphy = \<lparr>storage = (\<lambda>_. 0), maxsz = 0, rdmflg = 0, cursor = 0,
     free_fp_list = Wild, used_fp_list = Wild\<rparr>"

theorem init_memphy_ready_witness:
  "\<exists>mp'. init_memphy False stack_memphy 1024 1 = Inr mp' \<and> free_frames mp' = [0, 1, 2, 3]"
proof -
  have "[0..3::int] = [0, 1, 2, 3]" by (simp add: upto_rec1)
  then show ?thesis using init_memphy_ready [of 1024 False stack_memphy] by auto
qed

text \<open>A device with fewer than two pages is left with an indeterminate pointer in its free list:
  without any page (size 0 is how the configuration switches a swap device off) the uninitialised
  list head is used as it is, and with one page the second request for a frame follows the
  uninitialised link.  Asking for a frame then runs into undefined behaviour instead of
  answering -1.\<close>

theorem small_device_wild_free_list:
  assumes "0 \<le> sz" and "sz < 512" and "free_fp_list mp = Wild"
  shows "\<exists>mp'. init_memphy False mp sz 1 = Inr mp' \<and>
    (if sz < 256 then MEMPHY_get_freefp mp' = Inl WildPointer
     else \<exists>mp''. MEMPHY_get_freefp mp' = Inr (0, Some 0, mp'') \<and>
       MEMPHY_get_freefp mp'' = Inl WildPointer)"
  using init_memphy_free_list [of sz False mp 1] assms
  by (auto simp: MEMPHY_get_freefp_def)

theorem small_device_wild_free_list_witness:
  "\<exists>mp'. init_memphy False stack_memphy 0 1 = Inr mp' \<and> MEMPHY_get_freefp mp' = Inl WildPointer"
  using small_device_wild_free_list [of 0 stack_memphy] by (simp add: stack_memphy_def)

text \<open>On a random access device a byte written at a valid address is read back, every other
  address keeps its value, and an address outside the device is out of bounds for both.\<close>

theorem memphy_read_after_write:
  assumes "ram_ok mp"
  shows "if 0 \<le> a \<and> a < maxsz mp
    then \<exists>mp'. MEMPHY_write (Some mp) a v = Inr (0, Some mp') \<and>
      MEMPHY_read (Some mp') a = Inr (0, Some v, Some mp') \<and>
      (\<forall>b. b \<noteq> a \<longrightarrow> storage mp' b = storage mp b) \<and> free_fp_list mp' = free_fp_list mp
    else MEMPHY_write (Some mp) a v = Inl OutOfBounds \<and> MEMPHY_read (Some mp) a = Inl OutOfBounds"
  using assms
  by (auto simp: ram_ok_def MEMPHY_read_def MEMPHY_write_def load_byte_def store_byte_def)

theorem memphy_read_after_write_witness:
  "\<exists>mp'. MEMPHY_write (Some (stack_memphy\<lparr>maxsz := 512, rdmflg := 1\<rparr>)) 276 100 = Inr (0, Some mp') \<and>
     MEMPHY_read (Some mp') 276 = Inr (0, Some 100, Some mp')"
  using memphy_read_after_write [of "stack_memphy\<lparr>maxsz := 512, rdmflg := 1\<rparr>" 276 100]
  by (auto simp: ram_ok_def)

text \<open>A sequential device (\<open>rdmflg = 0\<close>) never transfers a byte: the guard of the sequential
  routines tests the flag the wrong way round, so every read and write answers -1 and changes
  nothing.\<close>

theorem sequential_device_unusable:
  assumes "rdmflg mp = 0"
  shows "MEMPHY_read (Some mp) a = Inr (-1, None, Some mp) \<and>
    MEMPHY_write (Some mp) a v = Inr (-1, Some mp)"
  using assms
  by (simp add: MEMPHY_read_def MEMPHY_write_def MEMPHY_seq_read_def MEMPHY_seq_write_def)

theorem sequential_device_unusable_witness:
  "MEMPHY_read (Some (stack_memphy\<lparr>maxsz := 512\<rparr>)) 3 =
     Inr (-1, None, Some (stack_memphy\<lparr>maxsz := 512\<rparr>))"
  using sequential_device_unusable [of "stack_memphy\<lparr>maxsz := 512\<rparr>" 3]
  by (simp add: stack_memphy_def)

end
