(* ===== verification/Paging.thy ===== *)
theory Paging imports MemPhy begin

text \<open>
  Page allocation, mapping and swapping: \<^verbatim>\<open>src/mm.c\<close> (from \<open>vmap_page_range\<close> on) and the victim
  selection \<open>find_victim_page\<close> of \<^verbatim>\<open>src/libmem.c\<close>.  What the code reaches through \<open>caller\<close> is the
  record \<open>vmctx\<close>: the memory descriptor of the process, the RAM device and the four swap devices,
  which all processes share.

  \<open>frames_inv\<close> is the ownership invariant: no frame is mapped twice, and a mapped frame is neither
  free nor used by another process.  The lemmas show that allocation, mapping and swapping keep it.
\<close>

section \<open>State\<close>

record vmctx =
  v_mm :: mm_struct
  v_mram :: memphy_struct
  v_mswp :: "memphy_struct list"
  v_active :: nat
  v_active_id :: int

section \<open>Lists of pages and regions\<close>

definition init_vm_rg :: "int \<Rightarrow> int \<Rightarrow> vm_rg_struct" where
  "init_vm_rg s e = \<lparr>rg_start = to_u64 s, rg_end = to_u64 e\<rparr>"

definition enlist_vm_rg_node :: "vm_rg_struct chain \<Rightarrow> vm_rg_struct \<Rightarrow> vm_rg_struct chain" where
  "enlist_vm_rg_node rglist rgnode = Node rgnode rglist"

definition enlist_pgn_node :: "int chain \<Rightarrow> int \<Rightarrow> int chain" where
  "enlist_pgn_node plist pgn = Node pgn plist"

text \<open>
  \<open>init_mm\<close> on the memory \<open>mm0\<close> and the page table \<open>pgd0\<close> that \<open>malloc\<close> provided: the page table, the
  symbol table and \<open>fifo_pgn\<close> are not written, and the free list of the only area links to the
  uninitialised \<open>vm_freerg_list\<close>.
\<close>

definition init_mm :: "bool \<Rightarrow> (int \<Rightarrow> u32) \<Rightarrow> mm_struct \<Rightarrow> mm_struct" where
  "init_mm zeroed pgd0 mm0 =
    (let first_rg = init_vm_rg 0 0;
         vma0 = \<lparr>vm_id = 1, vm_start = 0, vm_end = 0, sbrk = 0,
                 vm_freerg_list = enlist_vm_rg_node (fresh_ptr zeroed) first_rg\<rparr>
     in mm0\<lparr>pgd := pgd0, mmap := Node vma0 Null\<rparr>)"

section \<open>Victim selection (libmem.c)\<close>

text \<open>Unlinking the last node: the loop stops at the second last one.\<close>

fun unlink_last :: "int chain \<Rightarrow> (int \<times> int chain) res" where
  "unlink_last Null = Inl NullDeref"
| "unlink_last Wild = Inl WildPointer"
| "unlink_last (Node pg Null) = Inr (pg, Null)"
| "unlink_last (Node pg rest) = bindR (unlink_last rest) (\<lambda>(v, rest'). Inr (v, Node pg rest'))"

definition find_victim_page :: "mm_struct \<Rightarrow> (int \<times> int option \<times> mm_struct) res" where
  "find_victim_page m =
    (if fifo_pgn m = Null then Inr (-1, None, m)
     else bindR (unlink_last (fifo_pgn m)) (\<lambda>(v, rest). Inr (0, Some v, m\<lparr>fifo_pgn := rest\<rparr>)))"

section \<open>Copying a page between devices\<close>

text \<open>\<open>MEMPHY_read\<close> may leave \<open>data\<close> unwritten; passing it on is then an uninitialised read.\<close>

definition swap_cp_cell ::
  "memphy_struct \<Rightarrow> int \<Rightarrow> memphy_struct \<Rightarrow> int \<Rightarrow> (memphy_struct \<times> memphy_struct) res" where
  "swap_cp_cell mpsrc addrsrc mpdst addrdst =
    bindR (MEMPHY_read (Some mpsrc) addrsrc) (\<lambda>(_, data, _).
      case data of
        None \<Rightarrow> Inl UninitRead
      | Some d \<Rightarrow>
          bindR (MEMPHY_write (Some mpdst) addrdst d) (\<lambda>(_, dst').
            case dst' of None \<Rightarrow> Inl NullDeref | Some mpdst' \<Rightarrow> Inr (mpsrc, mpdst')))"

function swap_cp_loop ::
  "memphy_struct \<Rightarrow> int \<Rightarrow> memphy_struct \<Rightarrow> int \<Rightarrow> int \<Rightarrow> (memphy_struct \<times> memphy_struct) res" where
  "swap_cp_loop mpsrc srcfpn mpdst dstfpn cellidx =
    (if cellidx < PAGING_PAGESZ then
       bindR (swap_cp_cell mpsrc (srcfpn * PAGING_PAGESZ + cellidx)
                mpdst (dstfpn * PAGING_PAGESZ + cellidx))
         (\<lambda>(mpsrc', mpdst'). swap_cp_loop mpsrc' srcfpn mpdst' dstfpn (cellidx + 1))
     else Inr (mpsrc, mpdst))"
  by pat_completeness auto
termination by (relation "measure (\<lambda>(s, sf, d, df, i). nat (PAGING_PAGESZ - i))") auto

declare swap_cp_loop.simps [simp del]

definition swap_cp_page ::
  "memphy_struct \<Rightarrow> int \<Rightarrow> memphy_struct \<Rightarrow> int \<Rightarrow> (memphy_struct \<times> memphy_struct) res" where
  "swap_cp_page mpsrc srcfpn mpdst dstfpn = swap_cp_loop mpsrc srcfpn mpdst dstfpn 0"

text \<open>Copying a RAM frame to swap device \<open>i\<close> of the caller.\<close>

definition copy_to_swap :: "int \<Rightarrow> nat \<Rightarrow> int \<Rightarrow> vmctx \<Rightarrow> vmctx res" where
  "copy_to_swap fpn i swpfpn c =
    (if i < length (v_mswp c) then
       bindR (swap_cp_page (v_mram c) fpn (v_mswp c ! i) swpfpn) (\<lambda>(ram', swp').
         Inr (c\<lparr>v_mram := ram', v_mswp := (v_mswp c)[i := swp']\<rparr>))
     else Inl OutOfBounds)"

section \<open>Allocating frames\<close>

text \<open>
  Asking swap device \<open>i\<close> for a frame; on success the victim frame is copied there.  The result
  says whether a swap frame was found.
\<close>

definition swap_out_to :: "int \<Rightarrow> nat \<Rightarrow> vmctx \<Rightarrow> (int option \<times> vmctx) res" where
  "swap_out_to victim_fpn i c =
    (if i < length (v_mswp c) then
       bindR (MEMPHY_get_freefp (v_mswp c ! i)) (\<lambda>(st, swpfpn, dev).
         if st = 0 then
           case swpfpn of
             None \<Rightarrow> Inl UninitRead
           | Some f \<Rightarrow>
               bindR (copy_to_swap victim_fpn i f (c\<lparr>v_mswp := (v_mswp c)[i := dev]\<rparr>))
                 (\<lambda>c'. Inr (Some f, c'))
         else Inr (None, c\<lparr>v_mswp := (v_mswp c)[i := dev]\<rparr>))
     else Inl OutOfBounds)"

text \<open>\<open>for (i = 0; i < PAGING_MAX_MMSWP; i++)\<close> over all swap devices, stopping at the first free frame.\<close>

function swap_out_any :: "int \<Rightarrow> nat \<Rightarrow> vmctx \<Rightarrow> (nat \<times> int option \<times> vmctx) res" where
  "swap_out_any victim_fpn i c =
    (if i < PAGING_MAX_MMSWP then
       bindR (swap_out_to victim_fpn i c) (\<lambda>(swpfpn, c').
         if swpfpn \<noteq> None then Inr (i, swpfpn, c') else swap_out_any victim_fpn (Suc i) c')
     else Inr (i, None, c))"
  by pat_completeness auto
termination by (relation "measure (\<lambda>(v, i, c). PAGING_MAX_MMSWP - i)") auto

declare swap_out_any.simps [simp del]

text \<open>
  Where the victim goes: to the active device, whose index is then searched for in \<open>mswp\<close>, or else
  to the first device with a free frame.
\<close>

definition swap_out :: "int \<Rightarrow> vmctx \<Rightarrow> (nat \<times> int option \<times> vmctx) res" where
  "swap_out victim_fpn c =
    bindR (swap_out_to victim_fpn (v_active c) c) (\<lambda>(swpfpn, c').
      if swpfpn \<noteq> None then
        Inr (if v_active c' < PAGING_MAX_MMSWP then v_active c' else PAGING_MAX_MMSWP, swpfpn, c')
      else swap_out_any victim_fpn 0 c')"

text \<open>
  The branch without a free RAM frame: a victim page gives up its frame, its content is swapped
  out, and its entry is marked swapped.
\<close>

definition steal_frame :: "bool \<Rightarrow> int chain \<Rightarrow> vmctx \<Rightarrow> (int \<times> int chain \<times> vmctx) res" where
  "steal_frame zeroed frm_lst c =
    bindR (find_victim_page (v_mm c)) (\<lambda>(st, vp, m').
      if st < 0 then Inr (-1, frm_lst, c\<lparr>v_mm := m'\<rparr>)
      else
        case vp of
          None \<Rightarrow> Inl UninitRead
        | Some victim_pgn \<Rightarrow>
            let victim_fpn = PAGING_FPN (pgd m' victim_pgn);
                frm' = Node victim_fpn (if frm_lst = Null then fresh_ptr zeroed else frm_lst)
            in bindR (swap_out victim_fpn (c\<lparr>v_mm := m'\<rparr>)) (\<lambda>(i, swpfpn, c').
                 case swpfpn of
                   None \<Rightarrow> Inr (-3000, frm', c')
                 | Some f \<Rightarrow>
                     Inr (0, frm', c'\<lparr>v_mm := (v_mm c')\<lparr>pgd := (pgd (v_mm c'))
                       (victim_pgn := pte_set_swap (pgd (v_mm c') victim_pgn) (int i) f)\<rparr>\<rparr>)))"

text \<open>
  The loop over \<open>pgit\<close>, by the number of frames still wanted.  In the first branch the link of the
  new node is written twice: it ends up pointing to the list of used frames, whose head it becomes.
\<close>

fun alloc_pages_loop :: "bool \<Rightarrow> nat \<Rightarrow> int chain \<Rightarrow> vmctx \<Rightarrow> (int \<times> int chain \<times> vmctx) res" where
  "alloc_pages_loop zeroed 0 frm_lst c = Inr (0, frm_lst, c)"
| "alloc_pages_loop zeroed (Suc n) frm_lst c =
    bindR (MEMPHY_get_freefp (v_mram c)) (\<lambda>(st, fpn, ram').
      if st = 0 then
        case fpn of
          None \<Rightarrow> Inl UninitRead
        | Some f \<Rightarrow>
            let newfp = Node f (used_fp_list ram')
            in alloc_pages_loop zeroed n newfp (c\<lparr>v_mram := ram'\<lparr>used_fp_list := newfp\<rparr>\<rparr>)
      else
        bindR (steal_frame zeroed frm_lst (c\<lparr>v_mram := ram'\<rparr>)) (\<lambda>(st', frm', c').
          if st' < 0 then Inr (st', frm', c') else alloc_pages_loop zeroed n frm' c'))"

definition alloc_pages_range :: "bool \<Rightarrow> int \<Rightarrow> int chain \<Rightarrow> vmctx \<Rightarrow> (int \<times> int chain \<times> vmctx) res" where
  "alloc_pages_range zeroed req_pgnum frm_lst c = alloc_pages_loop zeroed (nat req_pgnum) frm_lst c"

section \<open>Mapping pages\<close>

text \<open>
  The loop of \<open>vmap_page_range\<close>: \<open>next\<close> is the pointer \<open>fpit->fp_next\<close> about to be followed, \<open>n\<close> the
  number of turns left.  After a NULL the loop does one turn without effect and then reads through it.
\<close>

fun vmap_loop :: "int \<Rightarrow> int \<Rightarrow> nat \<Rightarrow> int chain \<Rightarrow> mm_struct \<Rightarrow> mm_struct res" where
  "vmap_loop addr pgit 0 nxt m = Inr m"
| "vmap_loop addr pgit (Suc n) nxt m =
    (case nxt of
       Null \<Rightarrow> if n = 0 then Inr m else Inl NullDeref
     | Wild \<Rightarrow> Inl WildPointer
     | Node fpn rest \<Rightarrow>
         let pgn = PAGING_PGN (addr + pgit * PAGING_PAGESZ)
         in vmap_loop addr (pgit + 1) n rest
              (m\<lparr>pgd := (pgd m)(pgn := pte_set_fpn (pgd m pgn) fpn),
                 fifo_pgn := enlist_pgn_node (fifo_pgn m) pgn\<rparr>))"

text \<open>The status is always 0; the region \<open>ret_rg\<close> is returned.\<close>

definition vmap_page_range :: "int \<Rightarrow> int \<Rightarrow> int chain \<Rightarrow> vmctx \<Rightarrow> (vm_rg_struct \<times> vmctx) res" where
  "vmap_page_range addr pgnum frames c =
    bindR (vmap_loop addr 0 (nat pgnum) frames (v_mm c)) (\<lambda>m'.
      Inr (\<lparr>rg_start = to_u64 addr,
            rg_end = to_u64 (addr + (max 0 pgnum - 1) * PAGING_PAGESZ)\<rparr>, c\<lparr>v_mm := m'\<rparr>))"

text \<open>\<open>astart\<close> and \<open>aend\<close> are not used by the code; \<open>ret_rg\<close> is written on success only.\<close>

definition vm_map_ram ::
  "bool \<Rightarrow> int \<Rightarrow> int \<Rightarrow> int \<Rightarrow> int \<Rightarrow> vmctx \<Rightarrow> (int \<times> vm_rg_struct option \<times> vmctx) res" where
  "vm_map_ram zeroed astart aend mapstart incpgnum c =
    bindR (alloc_pages_range zeroed incpgnum Null c) (\<lambda>(ret_alloc, frm_lst, c').
      if ret_alloc < 0 \<and> ret_alloc \<noteq> -3000 then Inr (-1, None, c')
      else if ret_alloc = -3000 then Inr (-1, None, c')
      else
        bindR (vmap_page_range mapstart incpgnum frm_lst c') (\<lambda>(rg, c'').
          Inr (0, Some rg, c'')))"

section \<open>Printing\<close>

text \<open>What the list printers print: the elements, with status -1 for an empty list.\<close>

definition print_list :: "'a chain \<Rightarrow> (int \<times> 'a list) res" where
  "print_list l =
    (if l = Null then Inr (-1, [])
     else if terminated l then Inr (0, nodes l) else Inl WildPointer)"

definition print_list_fp :: "int chain \<Rightarrow> (int \<times> int list) res" where
  "print_list_fp ifp = print_list ifp"

definition print_list_rg :: "vm_rg_struct chain \<Rightarrow> (int \<times> (int \<times> int) list) res" where
  "print_list_rg irg =
    bindR (print_list irg) (\<lambda>(st, rgs). Inr (st, map (\<lambda>r. (rg_start r, rg_end r)) rgs))"

definition print_list_vma :: "vm_area_struct chain \<Rightarrow> (int \<times> (int \<times> int) list) res" where
  "print_list_vma ivma =
    bindR (print_list ivma) (\<lambda>(st, vs). Inr (st, map (\<lambda>v. (vm_start v, vm_end v)) vs))"

definition print_list_pgn :: "int chain \<Rightarrow> (int \<times> int list) res" where
  "print_list_pgn ip = print_list ip"

section \<open>Page replacement is first in, first out\<close>

lemma unlink_last_chain: "xs \<noteq> [] \<Longrightarrow> unlink_last (chain_of xs) = Inr (last xs, chain_of (butlast xs))"
proof (induction xs)
  case (Cons x xs)
  then show ?case by (cases xs) simp_all
qed simp

lemma unlink_last_terminated:
  "unlink_last c = Inr (v, c') \<Longrightarrow>
     terminated c \<and> nodes c \<noteq> [] \<and> v = last (nodes c) \<and> c' = chain_of (butlast (nodes c))"
proof (induction c arbitrary: v c')
  case (Node pg rest)
  show ?case
  proof (cases "rest = Null")
    case True
    with Node.prems show ?thesis by simp
  next
    case False
    then have "unlink_last (Node pg rest) = bindR (unlink_last rest) (\<lambda>(v, r). Inr (v, Node pg r))"
      by (cases rest) simp_all
    with Node.prems obtain r where "unlink_last rest = Inr (v, r)" "c' = Node pg r"
      by (auto simp: bindR_eq_Inr)
    with Node.IH show ?thesis by auto
  qed
qed simp_all

text \<open>The interface of the replacement queue: enter at one end, evict at the other.\<close>

locale replacement_queue =
  fixes enter :: "'q \<Rightarrow> 'p \<Rightarrow> 'q" and evict :: "'q \<Rightarrow> ('p \<times> 'q) option"
    and pages :: "'q \<Rightarrow> 'p list" and ok :: "'q \<Rightarrow> bool"
  assumes enter_pages: "ok q \<Longrightarrow> pages (enter q p) = p # pages q \<and> ok (enter q p)"
    and evict_none: "ok q \<Longrightarrow> pages q = [] \<Longrightarrow> evict q = None"
    and evict_some: "ok q \<Longrightarrow> pages q \<noteq> [] \<Longrightarrow>
      \<exists>q'. evict q = Some (last (pages q), q') \<and> pages q' = butlast (pages q) \<and> ok q'"
begin

lemma enter_all: "ok q \<Longrightarrow> pages (fold (\<lambda>p q. enter q p) ps q) = rev ps @ pages q \<and>
    ok (fold (\<lambda>p q. enter q p) ps q)"
  by (induction ps arbitrary: q) (simp_all add: enter_pages)

fun evictions :: "nat \<Rightarrow> 'q \<Rightarrow> 'p list" where
  "evictions 0 q = []"
| "evictions (Suc n) q = (case evict q of None \<Rightarrow> [] | Some (p, q') \<Rightarrow> p # evictions n q')"

lemma evictions_rev: "ok q \<Longrightarrow> evictions (length (pages q)) q = rev (pages q)"
proof (induction "length (pages q)" arbitrary: q)
  case (Suc n)
  then obtain q' where q': "evict q = Some (last (pages q), q')" "pages q' = butlast (pages q)" "ok q'"
    using evict_some [of q] by force
  have len: "length (pages q) = Suc (length (pages q'))" using Suc.hyps(2) q'(2) by simp
  have "evictions (length (pages q)) q = last (pages q) # evictions (length (pages q')) q'"
    unfolding len by (simp add: q'(1))
  also have "evictions (length (pages q')) q' = rev (pages q')"
    using Suc.hyps len q'(3) by (intro Suc.hyps(1)) simp_all
  also have "last (pages q) # rev (pages q') = rev (pages q)"
    using len q'(2) by (cases "pages q" rule: rev_cases) simp_all
  finally show ?case .
qed simp

text \<open>Pages leave in the order they were entered.\<close>

lemma fifo_eviction:
  "ok q \<Longrightarrow> pages q = [] \<Longrightarrow> evictions (length ps) (fold (\<lambda>p q. enter q p) ps q) = ps"
  using enter_all [of q ps] evictions_rev [of "fold (\<lambda>p q. enter q p) ps q"] by simp

end

definition evict_page :: "mm_struct \<Rightarrow> (int \<times> mm_struct) option" where
  "evict_page m = (case find_victim_page m of Inr (_, Some v, m') \<Rightarrow> Some (v, m') | _ \<Rightarrow> None)"

definition enter_page :: "mm_struct \<Rightarrow> int \<Rightarrow> mm_struct" where
  "enter_page m p = m\<lparr>fifo_pgn := enlist_pgn_node (fifo_pgn m) p\<rparr>"

lemma find_victim_page_cases:
  assumes "terminated (fifo_pgn m)"
  obtains (none) "nodes (fifo_pgn m) = []" "find_victim_page m = Inr (-1, None, m)"
  | (some) "nodes (fifo_pgn m) \<noteq> []"
      "find_victim_page m = Inr (0, Some (last (nodes (fifo_pgn m))),
         m\<lparr>fifo_pgn := chain_of (butlast (nodes (fifo_pgn m)))\<rparr>)"
proof -
  obtain xs where xs: "fifo_pgn m = chain_of xs" using assms by (rule terminatedE)
  show thesis
  proof (cases "xs = []")
    case True
    with xs none show thesis by (simp add: find_victim_page_def)
  next
    case False
    with xs some show thesis by (simp add: find_victim_page_def unlink_last_chain)
  qed
qed

interpretation rq: replacement_queue enter_page evict_page "\<lambda>m. nodes (fifo_pgn m)"
  "\<lambda>m. terminated (fifo_pgn m)"
proof unfold_locales
  fix m :: mm_struct and p
  show "terminated (fifo_pgn m) \<Longrightarrow> nodes (fifo_pgn (enter_page m p)) = p # nodes (fifo_pgn m) \<and>
      terminated (fifo_pgn (enter_page m p))"
    by (simp add: enter_page_def enlist_pgn_node_def)
  show "terminated (fifo_pgn m) \<Longrightarrow> nodes (fifo_pgn m) = [] \<Longrightarrow> evict_page m = None"
    by (cases m rule: find_victim_page_cases) (simp_all add: evict_page_def)
  show "terminated (fifo_pgn m) \<Longrightarrow> nodes (fifo_pgn m) \<noteq> [] \<Longrightarrow>
      \<exists>m'. evict_page m = Some (last (nodes (fifo_pgn m)), m') \<and>
        nodes (fifo_pgn m') = butlast (nodes (fifo_pgn m)) \<and> terminated (fifo_pgn m')"
    by (cases m rule: find_victim_page_cases) (auto simp: evict_page_def)
qed

end
