(* ===== verification/Frames.thy ===== *)
theory Frames imports Paging begin

text \<open>
  Ownership of physical frames.  \<open>frames_inv others held m ram\<close> says of a process with descriptor
  \<open>m\<close> that its online pages occupy different frames of the RAM device, that none of them is on the
  free list, held by an allocation in progress (\<open>held\<close>) or owned by another process (\<open>others\<close>), and
  that the replacement queue lists online pages without repetition.  The lemmas follow the code:
  taking a free frame, stealing the frame of a victim, the allocation loop, the mapping loop.
\<close>

section \<open>Copying a page\<close>

lemma ram_store_Inr_iff:
  "ram_ok m \<Longrightarrow> ram_store m a v = Inr m' \<longleftrightarrow>
     0 \<le> a \<and> a < maxsz m \<and> m' = m\<lparr>storage := (storage m)(a := v)\<rparr>"
  by (auto simp: ram_store_def MEMPHY_write_def ram_ok_def store_byte_def)

lemma swap_cp_cell_eq:
  "swap_cp_cell src a dst b =
     bindR (ram_load src a) (\<lambda>d. bindR (ram_store dst b d) (\<lambda>dst'. Inr (src, dst')))"
  by (auto simp: swap_cp_cell_def ram_load_def ram_store_def bindR_def split: sum.splits option.splits prod.splits)

text \<open>What is not copied: nothing but bytes and the cursor of the destination changes.\<close>

definition same_lists :: "memphy_struct \<Rightarrow> memphy_struct \<Rightarrow> bool" where
  "same_lists d d' \<longleftrightarrow> free_fp_list d' = free_fp_list d \<and> used_fp_list d' = used_fp_list d \<and>
     maxsz d' = maxsz d \<and> rdmflg d' = rdmflg d"

lemma same_lists_trans: "same_lists a b \<Longrightarrow> same_lists b c \<Longrightarrow> same_lists a c"
  by (simp add: same_lists_def)

lemma ram_store_frame: "ram_store d a v = Inr d' \<Longrightarrow> same_lists d d'"
  using mv_csr_shape [of d a]
  by (auto simp: ram_store_def MEMPHY_write_def MEMPHY_seq_write_def store_byte_def bindR_eq_Inr
      same_lists_def split: if_splits)

lemma swap_cp_loop_turn:
  "swap_cp_loop src sf dst df i =
    (if i < 256 then
       bindR (ram_load src (sf * 256 + i)) (\<lambda>d. bindR (ram_store dst (df * 256 + i) d)
         (\<lambda>dst'. swap_cp_loop src sf dst' df (i + 1)))
     else Inr (src, dst))"
  by (subst swap_cp_loop.simps) (simp add: PAGING_PAGESZ_def swap_cp_cell_eq bindR_assoc)

lemma swap_cp_loop_frame:
  "swap_cp_loop src sf dst df i = Inr (src', dst') \<Longrightarrow> src' = src \<and> same_lists dst dst'"
proof (induction "nat (256 - i)" arbitrary: i dst)
  case 0
  then show ?case by (subst (asm) swap_cp_loop_turn) (simp add: same_lists_def)
next
  case (Suc n)
  then have i: "i < 256" by simp
  with Suc.prems obtain v d where d: "ram_store dst (df * 256 + i) v = Inr d"
    and l: "swap_cp_loop src sf d df (i + 1) = Inr (src', dst')"
    by (subst (asm) swap_cp_loop_turn) (auto simp: bindR_eq_Inr)
  have "src' = src \<and> same_lists d dst'" using Suc.hyps i l by (intro Suc.hyps(1)) simp_all
  then show ?case using ram_store_frame [OF d] same_lists_trans by blast
qed

lemma swap_cp_loop_copies:
  assumes "ram_ok src" "ram_ok dst" "0 \<le> i" "i \<le> 256"
    "0 \<le> sf" "sf * 256 + 256 \<le> maxsz src" "0 \<le> df" "df * 256 + 256 \<le> maxsz dst"
  shows "\<exists>dst'. swap_cp_loop src sf dst df i = Inr (src, dst') \<and> storage dst' =
    (\<lambda>k. if df * 256 + i \<le> k \<and> k < df * 256 + 256 then storage src (sf * 256 + (k - df * 256))
         else storage dst k)"
  using assms
proof (induction "nat (256 - i)" arbitrary: i dst)
  case 0
  then have "i = 256" by simp
  then show ?case by (subst swap_cp_loop_turn) (auto simp: fun_eq_iff)
next
  case (Suc n)
  then have i: "i < 256" by simp
  let ?v = "storage src (sf * 256 + i)"
  obtain d where d: "ram_store dst (df * 256 + i) ?v = Inr d"
    "storage d = (storage dst)(df * 256 + i := ?v)" "maxsz d = maxsz dst" "ram_ok d"
    using ram.store_in [of dst "df * 256 + i" ?v] Suc.prems i by auto
  have ld: "ram_load src (sf * 256 + i) = Inr ?v" using Suc.prems i by (intro ram.load_in) auto
  have "\<exists>dst'. swap_cp_loop src sf d df (i + 1) = Inr (src, dst') \<and> storage dst' =
    (\<lambda>k. if df * 256 + (i + 1) \<le> k \<and> k < df * 256 + 256 then storage src (sf * 256 + (k - df * 256))
         else storage d k)"
    using Suc.hyps(2) Suc.prems i d by (intro Suc.hyps(1)) auto
  then obtain dst' where "swap_cp_loop src sf d df (i + 1) = Inr (src, dst')"
    "storage dst' = (\<lambda>k. if df * 256 + (i + 1) \<le> k \<and> k < df * 256 + 256
       then storage src (sf * 256 + (k - df * 256)) else storage d k)" by blast
  with d ld i show ?case by (subst swap_cp_loop_turn) (auto simp: fun_eq_iff)
qed

lemma swap_out_to_frame:
  assumes "swap_out_to vf i c = Inr (r, c')"
  shows "v_mm c' = v_mm c \<and> v_mram c' = v_mram c \<and> v_active c' = v_active c \<and>
    v_active_id c' = v_active_id c \<and> length (v_mswp c') = length (v_mswp c)"
  using assms swap_cp_loop_frame
  by (auto simp: swap_out_to_def copy_to_swap_def swap_cp_page_def bindR_eq_Inr
      split: if_splits option.splits)

lemma swap_out_any_frame:
  "swap_out_any vf i c = Inr (j, r, c') \<Longrightarrow> v_mm c' = v_mm c \<and> v_mram c' = v_mram c \<and>
     v_active c' = v_active c \<and> v_active_id c' = v_active_id c \<and> length (v_mswp c') = length (v_mswp c)"
proof (induction vf i c arbitrary: j r c' rule: swap_out_any.induct)
  case (1 vf i c)
  show ?case
  proof (cases "i < PAGING_MAX_MMSWP")
    case True
    with "1.prems" obtain f c1 where s: "swap_out_to vf i c = Inr (f, c1)"
      and r: "if f \<noteq> None then (j, r, c') = (i, f, c1) else swap_out_any vf (Suc i) c1 = Inr (j, r, c')"
      by (subst (asm) swap_out_any.simps) (auto simp: bindR_eq_Inr split: if_splits)
    note fr = swap_out_to_frame [OF s]
    show ?thesis
    proof (cases "f = None")
      case True
      with r have "swap_out_any vf (Suc i) c1 = Inr (j, r, c')" by simp
      with "1.IH" [OF \<open>i < PAGING_MAX_MMSWP\<close> s refl] True fr show ?thesis by simp
    next
      case False
      with r fr show ?thesis by simp
    qed
  next
    case False
    with "1.prems" show ?thesis by (subst (asm) swap_out_any.simps) simp
  qed
qed

lemma swap_out_frame:
  "swap_out vf c = Inr (j, r, c') \<Longrightarrow> v_mm c' = v_mm c \<and> v_mram c' = v_mram c \<and>
     v_active c' = v_active c \<and> v_active_id c' = v_active_id c \<and> length (v_mswp c') = length (v_mswp c)"
  by (auto simp: swap_out_def bindR_eq_Inr split: if_splits
      dest!: swap_out_to_frame swap_out_any_frame)

section \<open>Ownership\<close>

definition online :: "mm_struct \<Rightarrow> int \<Rightarrow> bool" where
  "online m pgn \<longleftrightarrow> 0 \<le> pgn \<and> pgn < 16384 \<and> PAGING_PAGE_PRESENT (pgd m pgn) \<and> \<not> pte_swapped (pgd m pgn)"

definition frame_of :: "mm_struct \<Rightarrow> int \<Rightarrow> int" where
  "frame_of m pgn = PAGING_FPN (pgd m pgn)"

definition mapped :: "mm_struct \<Rightarrow> int set" where
  "mapped m = frame_of m ` {pgn. online m pgn}"

definition real_frames :: "memphy_struct \<Rightarrow> int set" where
  "real_frames ram = {f. 0 \<le> f \<and> f < maxsz ram div 256}"

text \<open>The RAM device: random access, a proper free list without repetition, at most 2 MB (so that a
  frame number fits the 13 bits of a page table entry).\<close>

definition ram_inv :: "memphy_struct \<Rightarrow> bool" where
  "ram_inv ram \<longleftrightarrow> ram_ok ram \<and> pool_ok ram \<and> distinct (free_frames ram) \<and>
     set (free_frames ram) \<subseteq> real_frames ram \<and> maxsz ram \<le> 2097152"

definition fifo_inv :: "mm_struct \<Rightarrow> bool" where
  "fifo_inv m \<longleftrightarrow> terminated (fifo_pgn m) \<and> distinct (nodes (fifo_pgn m)) \<and>
     (\<forall>pgn \<in> set (nodes (fifo_pgn m)). online m pgn)"

definition frames_inv :: "int set \<Rightarrow> int set \<Rightarrow> mm_struct \<Rightarrow> memphy_struct \<Rightarrow> bool" where
  "frames_inv others held m ram \<longleftrightarrow> ram_inv ram \<and> fifo_inv m \<and>
     inj_on (frame_of m) {pgn. online m pgn} \<and> mapped m \<subseteq> real_frames ram \<and>
     held \<subseteq> real_frames ram \<and> mapped m \<inter> set (free_frames ram) = {} \<and>
     held \<inter> (mapped m \<union> set (free_frames ram)) = {} \<and>
     others \<inter> (held \<union> mapped m \<union> set (free_frames ram)) = {}"

lemma frames_inv_held_mono:
  "frames_inv others held m ram \<Longrightarrow> held' \<subseteq> held \<Longrightarrow> frames_inv others held' m ram"
  unfolding frames_inv_def by blast

lemma real_frames_small: "ram_inv ram \<Longrightarrow> f \<in> real_frames ram \<Longrightarrow> 0 \<le> f \<and> f < 8192"
  using zdiv_mono1 [of "maxsz ram" 2097152 256] by (auto simp: ram_inv_def real_frames_def)

text \<open>The device after a frame was taken from the front of its free list.\<close>

lemma frames_inv_take:
  assumes inv: "frames_inv others held m ram" and free: "free_frames ram = f # fs"
    and ram': "free_frames ram' = fs" "pool_ok ram'" "rdmflg ram' = rdmflg ram" "maxsz ram' = maxsz ram"
  shows "frames_inv others (insert f held) m ram' \<and> f \<notin> held"
proof -
  have "ram_ok ram' = ram_ok ram" "real_frames ram' = real_frames ram"
    using ram' by (simp_all add: ram_ok_def real_frames_def)
  with inv free ram' show ?thesis
    by (auto simp: frames_inv_def ram_inv_def)
qed

text \<open>Pages that stop being online release their frames to \<open>held\<close>.\<close>

lemma frames_inv_evict:
  assumes inv: "frames_inv others held m ram" and on: "online m v"
    and m': "pgd m' = (pgd m)(v := e)" "pte_swapped e"
    and fifo: "terminated (fifo_pgn m')" "distinct (nodes (fifo_pgn m'))"
      "set (nodes (fifo_pgn m')) \<subseteq> set (nodes (fifo_pgn m)) - {v}"
  shows "frames_inv others (insert (frame_of m v) held) m' ram \<and> frame_of m v \<notin> held"
proof -
  have on': "online m' p \<longleftrightarrow> online m p \<and> p \<noteq> v" for p
    using m' by (auto simp: online_def)
  have fr': "frame_of m' p = frame_of m p" if "p \<noteq> v" for p
    using m' that by (simp add: frame_of_def)
  have inj: "inj_on (frame_of m) {p. online m p}" using inv by (simp add: frames_inv_def)
  have map': "mapped m' = mapped m - {frame_of m v}"
    using on fr' inj_onD [OF inj] by (auto simp: mapped_def on' image_iff)
  have "inj_on (frame_of m') {p. online m' p}"
    using inj fr' by (auto simp: inj_on_def on')
  moreover have "fifo_inv m'" using inv fifo by (auto simp: fifo_inv_def frames_inv_def on')
  moreover have "frame_of m v \<in> mapped m" using on by (simp add: mapped_def)
  ultimately show ?thesis using inv unfolding frames_inv_def map' by auto
qed

text \<open>A held frame becomes the frame of a page that was not online.\<close>

lemma frames_inv_map:
  assumes inv: "frames_inv others (insert f held) m ram" and f: "f \<notin> held"
    and p: "0 \<le> p" "p < 16384" "\<not> online m p"
  shows "frames_inv others held
    (m\<lparr>pgd := (pgd m)(p := pte_set_fpn (pgd m p) f), fifo_pgn := Node p (fifo_pgn m)\<rparr>) ram"
    (is "frames_inv _ _ ?m' _")
proof -
  have r: "0 \<le> f" "f < 8192" using inv real_frames_small [of ram f] by (auto simp: frames_inv_def)
  have on': "online ?m' q \<longleftrightarrow> online m q \<or> q = p" for q using p by (auto simp: online_def)
  have fr': "frame_of ?m' q = (if q = p then f else frame_of m q)" for q
    using r by (simp add: frame_of_def)
  have "f \<notin> mapped m" using inv by (auto simp: frames_inv_def)
  then have "inj_on (frame_of ?m') {q. online ?m' q}"
    using inv p(3) unfolding frames_inv_def by (auto simp: inj_on_def on' fr' mapped_def)
  moreover have map': "mapped ?m' = insert f (mapped m)"
    using p(3) by (auto simp: mapped_def on' fr' image_iff)
  moreover have "fifo_inv ?m'" using inv p by (auto simp: fifo_inv_def frames_inv_def on')
  ultimately show ?thesis using inv f unfolding frames_inv_def map' by auto
qed


section \<open>Allocation keeps ownership\<close>

text \<open>What allocation may change beside the free lists: pages that were online may become swapped.\<close>

definition alloc_rel :: "vmctx \<Rightarrow> vmctx \<Rightarrow> bool" where
  "alloc_rel c c' \<longleftrightarrow> mmap (v_mm c') = mmap (v_mm c) \<and> symrgtbl (v_mm c') = symrgtbl (v_mm c) \<and>
     storage (v_mram c') = storage (v_mram c) \<and> maxsz (v_mram c') = maxsz (v_mram c) \<and>
     rdmflg (v_mram c') = rdmflg (v_mram c) \<and> v_active c' = v_active c \<and>
     v_active_id c' = v_active_id c \<and> length (v_mswp c') = length (v_mswp c) \<and>
     (\<forall>p. pgd (v_mm c') p = pgd (v_mm c) p \<or> online (v_mm c) p \<and> pte_swapped (pgd (v_mm c') p))"

lemma alloc_rel_refl [simp]: "alloc_rel c c"
  by (simp add: alloc_rel_def)

lemma alloc_rel_trans:
  assumes "alloc_rel a b" and "alloc_rel b c"
  shows "alloc_rel a c"
proof -
  have "pgd (v_mm c) p = pgd (v_mm a) p \<or> online (v_mm a) p \<and> pte_swapped (pgd (v_mm c) p)" for p
  proof -
    have "pgd (v_mm b) p = pgd (v_mm a) p \<or> online (v_mm a) p \<and> pte_swapped (pgd (v_mm b) p)"
      using assms(1) by (simp add: alloc_rel_def)
    moreover have "pgd (v_mm c) p = pgd (v_mm b) p \<or> online (v_mm b) p \<and> pte_swapped (pgd (v_mm c) p)"
      using assms(2) by (simp add: alloc_rel_def)
    ultimately show ?thesis by (auto simp: online_def)
  qed
  then show ?thesis using assms by (simp add: alloc_rel_def)
qed

lemma online_mono: "alloc_rel c c' \<Longrightarrow> online (v_mm c') p \<Longrightarrow> online (v_mm c) p"
  unfolding alloc_rel_def online_def by metis

abbreviation ctx_inv :: "int set \<Rightarrow> int set \<Rightarrow> vmctx \<Rightarrow> bool" where
  "ctx_inv others held c \<equiv> frames_inv others held (v_mm c) (v_mram c)"

lemma frames_inv_drop_fifo:
  assumes "frames_inv others held m ram" and "nodes (fifo_pgn m) \<noteq> []"
  shows "frames_inv others held (m\<lparr>fifo_pgn := chain_of (butlast (nodes (fifo_pgn m)))\<rparr>) ram"
proof -
  have "online (m\<lparr>fifo_pgn := x\<rparr>) = online m" "frame_of (m\<lparr>fifo_pgn := x\<rparr>) = frame_of m" for x
    by (auto simp: online_def frame_of_def fun_eq_iff)
  moreover from this have "mapped (m\<lparr>fifo_pgn := x\<rparr>) = mapped m" for x by (simp add: mapped_def)
  ultimately show ?thesis
    using assms(1) by (auto simp: frames_inv_def fifo_inv_def distinct_butlast dest: in_set_butlastD)
qed

lemma steal_frame_inv:
  assumes inv: "ctx_inv others held c" and r: "steal_frame z frm c = Inr (st, frm', c')"
  shows "alloc_rel c c' \<and> free_frames (v_mram c') = free_frames (v_mram c) \<and>
    (if st < 0 then ctx_inv others held c'
     else \<exists>f. f \<notin> held \<and> ctx_inv others (insert f held) c' \<and>
       frm' = Node f (if frm = Null then fresh_ptr z else frm))"
proof -
  let ?m = "v_mm c"
  have tm: "terminated (fifo_pgn ?m)" using inv by (simp add: frames_inv_def fifo_inv_def)
  then show ?thesis
  proof (cases rule: find_victim_page_cases)
    case none
    with r inv show ?thesis by (simp add: steal_frame_def)
  next
    case some
    define v where "v = last (nodes (fifo_pgn ?m))"
    define m1 where "m1 = ?m\<lparr>fifo_pgn := chain_of (butlast (nodes (fifo_pgn ?m)))\<rparr>"
    define c1 where "c1 = c\<lparr>v_mm := m1\<rparr>"
    have on: "online ?m v" using inv some(1) by (simp add: frames_inv_def fifo_inv_def v_def)
    have inv1: "frames_inv others held m1 (v_mram c)"
      unfolding m1_def using inv some(1) by (rule frames_inv_drop_fifo)
    have rel1: "alloc_rel c c1" by (simp add: alloc_rel_def c1_def m1_def)
    have fv: "find_victim_page ?m = Inr (0, Some v, m1)" using some(2) by (simp add: m1_def v_def)
    let ?frm = "Node (frame_of m1 v) (if frm = Null then fresh_ptr z else frm)"
    let ?mark = "\<lambda>i f c3. c3\<lparr>v_mm := (v_mm c3)\<lparr>pgd := (pgd (v_mm c3))
      (v := pte_set_swap (pgd (v_mm c3) v) (int i) f)\<rparr>\<rparr>"
    have "steal_frame z frm c = bindR (swap_out (frame_of m1 v) c1) (\<lambda>(i, sf, c3).
        case sf of None \<Rightarrow> Inr (-3000, ?frm, c3) | Some f \<Rightarrow> Inr (0, ?frm, ?mark i f c3))"
      using fv by (simp add: steal_frame_def Let_def c1_def frame_of_def cong: prod.case_cong option.case_cong)
    with r obtain i sf c3 where so: "swap_out (frame_of m1 v) c1 = Inr (i, sf, c3)"
      and res: "(case sf of None \<Rightarrow> Inr (-3000, ?frm, c3) | Some f \<Rightarrow> Inr (0, ?frm, ?mark i f c3))
        = (Inr (st, frm', c') :: (int \<times> int chain \<times> vmctx) res)"
      by (auto simp: bindR_eq_Inr)
    have c3: "v_mm c3 = m1" "v_mram c3 = v_mram c" "v_active c3 = v_active c"
        "v_active_id c3 = v_active_id c" "length (v_mswp c3) = length (v_mswp c)"
      using swap_out_frame [OF so] by (simp_all add: c1_def)
    show ?thesis
    proof (cases sf)
      case None
      with res c3 inv1 show ?thesis by (auto simp: alloc_rel_def m1_def)
    next
      case (Some f)
      define e where "e = pte_set_swap (pgd m1 v) (int i) f"
      from res Some c3 have c': "st = 0" "v_mm c' = m1\<lparr>pgd := (pgd m1)(v := e)\<rparr>" "v_mram c' = v_mram c"
        "frm' = Node (frame_of m1 v) (if frm = Null then fresh_ptr z else frm)"
        "v_active c' = v_active c" "v_active_id c' = v_active_id c" "length (v_mswp c') = length (v_mswp c)"
        by (auto simp: e_def frame_of_def)
      have on1: "online m1 v" using on by (simp add: online_def m1_def)
      have "v \<notin> set (butlast (nodes (fifo_pgn ?m)))"
        using inv some(1) unfolding v_def frames_inv_def fifo_inv_def
        by (metis append_butlast_last_id distinct_butlast not_distinct_conv_prefix)
      then have "frames_inv others (insert (frame_of m1 v) held) (v_mm c') (v_mram c') \<and>
          frame_of m1 v \<notin> held"
        using inv1 on1 unfolding c'
        by (intro frames_inv_evict [where e = e])
          (auto simp: e_def frames_inv_def fifo_inv_def m1_def)
      moreover have "alloc_rel c c'"
        using on unfolding alloc_rel_def c' by (simp add: m1_def e_def c')
      ultimately show ?thesis using c' by auto
    qed
  qed
qed

text \<open>
  Invariant of the allocation loop: the list built so far starts with the frames \<open>fs\<close> held, and
  while free frames remain it is also the head of the list of used frames.
\<close>

definition frm_inv :: "int list \<Rightarrow> int chain \<Rightarrow> vmctx \<Rightarrow> bool" where
  "frm_inv fs frm c \<longleftrightarrow> (\<exists>T. frm = chain_onto fs T) \<and> (fs = [] \<longrightarrow> frm = Null) \<and>
     (free_frames (v_mram c) \<noteq> [] \<longrightarrow> (\<exists>U. used_fp_list (v_mram c) = chain_onto fs U))"

lemma alloc_pages_loop_inv:
  assumes "ctx_inv others (set fs) c" and "distinct fs" and "frm_inv fs frm c"
    and "alloc_pages_loop z n frm c = Inr (st, frm', c')"
  shows "alloc_rel c c' \<and> ctx_inv others {} c' \<and>
    (0 \<le> st \<longrightarrow> (\<exists>gs. length gs = length fs + n \<and> distinct gs \<and> ctx_inv others (set gs) c' \<and>
       (\<exists>T. frm' = chain_onto gs T)))"
  using assms
proof (induction n arbitrary: fs frm c)
  case 0
  then show ?case by (auto simp: frm_inv_def intro: frames_inv_held_mono)
next
  case (Suc n)
  have ok: "pool_ok (v_mram c)" using Suc.prems(1) by (simp add: frames_inv_def ram_inv_def)
  then show ?case
  proof (cases rule: fp.get_cases)
    case none
    have eta: "c\<lparr>v_mram := v_mram c\<rparr> = c" by simp
    from Suc.prems(4) none obtain s1 frm1 c1 where s: "steal_frame z frm c = Inr (s1, frm1, c1)"
      and k: "(if s1 < 0 then Inr (s1, frm1, c1) else alloc_pages_loop z n frm1 c1) = Inr (st, frm', c')"
      by (auto simp: bindR_eq_Inr eta)
    note si = steal_frame_inv [OF Suc.prems(1) s]
    show ?thesis
    proof (cases "s1 < 0")
      case True
      with k si show ?thesis by (auto intro: frames_inv_held_mono)
    next
      case False
      with si obtain f where f: "f \<notin> set fs" "ctx_inv others (insert f (set fs)) c1"
        "frm1 = Node f (if frm = Null then fresh_ptr z else frm)" by auto
      have "frm_inv (f # fs) frm1 c1"
        using Suc.prems(3) f(3) none(1) si by (auto simp: frm_inv_def)
      with False k f Suc.prems(2) Suc.IH [of "f # fs" c1 frm1] si show ?thesis
        by (fastforce intro: alloc_rel_trans)
    qed
  next
    case (some f rest ram')
    define c1 where "c1 = c\<lparr>v_mram := ram'\<lparr>used_fp_list := Node f (used_fp_list ram')\<rparr>\<rparr>"
    from some(2) have same: "storage ram' = storage (v_mram c)" "maxsz ram' = maxsz (v_mram c)"
      "rdmflg ram' = rdmflg (v_mram c)" "used_fp_list ram' = used_fp_list (v_mram c)"
      by (auto simp: MEMPHY_get_freefp_def split: chain.splits)
    from Suc.prems(4) some(2) have
      k: "alloc_pages_loop z n (Node f (used_fp_list ram')) c1 = Inr (st, frm', c')"
      by (simp add: c1_def Let_def)
    have "free_frames (ram'\<lparr>used_fp_list := x\<rparr>) = free_frames ram'"
      "pool_ok (ram'\<lparr>used_fp_list := x\<rparr>) = pool_ok ram'" for x
      by (simp_all add: free_frames_def pool_ok_def)
    then have inv1: "ctx_inv others (insert f (set fs)) c1 \<and> f \<notin> set fs"
      using some same Suc.prems(1) unfolding c1_def by (intro frames_inv_take) simp_all
    have "frm_inv (f # fs) (Node f (used_fp_list ram')) c1"
      using Suc.prems(3) some(1) same by (auto simp: frm_inv_def c1_def)
    moreover have "alloc_rel c c1" using same by (simp add: alloc_rel_def c1_def)
    ultimately show ?thesis
      using k inv1 Suc.prems(2) Suc.IH [of "f # fs" c1 "Node f (used_fp_list ram')"]
      by (fastforce intro: alloc_rel_trans)
  qed
qed

section \<open>Mapping keeps ownership\<close>

lemma vmap_loop_inv:
  assumes "frames_inv others (set gs) m ram" and "distinct gs"
    and "\<And>i. i < length gs \<Longrightarrow> \<not> online m (PAGING_PGN (addr + (k + int i) * 256))"
    and "inj_on (\<lambda>i. PAGING_PGN (addr + (k + int i) * 256)) {..<length gs}"
  shows "\<exists>m'. vmap_loop addr k (length gs) (chain_onto gs T) m = Inr m' \<and>
    frames_inv others {} m' ram \<and> mmap m' = mmap m \<and> symrgtbl m' = symrgtbl m \<and>
    (\<forall>i<length gs. pgd m' (PAGING_PGN (addr + (k + int i) * 256)) =
       pte_set_fpn (pgd m (PAGING_PGN (addr + (k + int i) * 256))) (gs ! i)) \<and>
    (\<forall>p. (\<forall>i<length gs. p \<noteq> PAGING_PGN (addr + (k + int i) * 256)) \<longrightarrow> pgd m' p = pgd m p)"
  using assms
proof (induction gs arbitrary: m k)
  case Nil
  then show ?case by simp
next
  case (Cons f gs)
  let ?pg = "\<lambda>i. PAGING_PGN (addr + (k + int i) * 256)"
  let ?p = "?pg 0"
  let ?m1 = "m\<lparr>pgd := (pgd m)(?p := pte_set_fpn (pgd m ?p) f), fifo_pgn := Node ?p (fifo_pgn m)\<rparr>"
  have shift: "PAGING_PGN (addr + (k + 1 + int i) * 256) = ?pg (Suc i)" for i
    by (simp add: algebra_simps)
  have neq: "?pg (Suc i) \<noteq> ?p" if "i < length gs" for i
    using inj_onD [OF Cons.prems(4), of "Suc i" 0] that by auto
  have p: "0 \<le> ?p" "?p < 16384" by (simp_all add: PAGING_PGN_eq)
  have inv1: "frames_inv others (set gs) ?m1 ram"
    using Cons.prems(1,2) Cons.prems(3) [of 0] p by (intro frames_inv_map) simp_all
  have "\<not> online ?m1 (?pg (Suc i))" if "i < length gs" for i
    using Cons.prems(3) [of "Suc i"] neq that by (simp add: online_def)
  moreover have "inj_on (\<lambda>i. ?pg (Suc i)) {..<length gs}"
    using inj_onD [OF Cons.prems(4)] by (intro inj_onI) (metis Suc_less_eq length_Cons lessThan_iff nat.inject)
  ultimately obtain m' where m': "vmap_loop addr (k + 1) (length gs) (chain_onto gs T) ?m1 = Inr m'"
    "frames_inv others {} m' ram" "mmap m' = mmap m" "symrgtbl m' = symrgtbl m"
    "\<forall>i<length gs. pgd m' (?pg (Suc i)) = pte_set_fpn (pgd ?m1 (?pg (Suc i))) (gs ! i)"
    "\<forall>p. (\<forall>i<length gs. p \<noteq> ?pg (Suc i)) \<longrightarrow> pgd m' p = pgd ?m1 p"
    using Cons.IH [OF inv1, of "k + 1"] Cons.prems(2) unfolding shift by auto
  have "pgd m' (?pg i) = pte_set_fpn (pgd m (?pg i)) ((f # gs) ! i)" if "i < length (f # gs)" for i
    using m'(5,6) neq that by (cases i) (auto, metis)
  moreover have "pgd m' q = pgd m q" if "\<forall>i<length (f # gs). q \<noteq> ?pg i" for q
  proof -
    have "q \<noteq> ?p" "\<forall>i<length gs. q \<noteq> ?pg (Suc i)" using that by (metis length_Cons zero_less_Suc) (use that in auto)
    with m'(6) show ?thesis by simp
  qed
  moreover have "vmap_loop addr k (length (f # gs)) (chain_onto (f # gs) T) m = Inr m'"
    using m'(1) by (simp add: Let_def PAGING_PAGESZ_def enlist_pgn_node_def)
  ultimately show ?case using m' by blast
qed

section \<open>Allocation returns\<close>

text \<open>Swap devices the code can work with: random access, proper free lists of frames that exist.\<close>

definition swap_ok :: "memphy_struct \<Rightarrow> bool" where
  "swap_ok d \<longleftrightarrow> ram_ok d \<and> pool_ok d \<and> set (free_frames d) \<subseteq> real_frames d"

definition swaps_ok :: "vmctx \<Rightarrow> bool" where
  "swaps_ok c \<longleftrightarrow> length (v_mswp c) = PAGING_MAX_MMSWP \<and> v_active c < PAGING_MAX_MMSWP \<and>
     (\<forall>i < PAGING_MAX_MMSWP. swap_ok (v_mswp c ! i))"

lemma real_frames_fit: "f \<in> real_frames d \<Longrightarrow> 0 \<le> f \<and> f * 256 + 256 \<le> maxsz d"
  using le_div_iff_int [of 256 "f + 1" "maxsz d"] by (simp add: real_frames_def)

lemma same_lists_swap_ok: "same_lists d d' \<Longrightarrow> swap_ok d' = swap_ok d"
  by (simp add: same_lists_def swap_ok_def ram_ok_def pool_ok_def free_frames_def real_frames_def)

lemma swap_ok_take:
  assumes "swap_ok d" and "MEMPHY_get_freefp d = Inr (0, Some f, d')"
  shows "swap_ok d' \<and> f \<in> real_frames d' \<and> maxsz d' = maxsz d"
  using assms
  by (auto simp: MEMPHY_get_freefp_def swap_ok_def ram_ok_def pool_ok_def free_frames_def
      real_frames_def split: chain.splits)

lemma swap_out_to_total:
  assumes sw: "swaps_ok c" and ram: "ram_ok (v_mram c)" and vf: "vf \<in> real_frames (v_mram c)"
    and i: "i < PAGING_MAX_MMSWP"
  shows "\<exists>r c'. swap_out_to vf i c = Inr (r, c') \<and> swaps_ok c'"
proof -
  let ?d = "v_mswp c ! i"
  have len: "i < length (v_mswp c)" and ok: "swap_ok ?d" using sw i by (simp_all add: swaps_ok_def)
  have upd: "swaps_ok (c\<lparr>v_mswp := (v_mswp c)[i := d']\<rparr>)" if "swap_ok d'" for d'
    using sw that len by (auto simp: swaps_ok_def nth_list_update)
  have "pool_ok ?d" using ok by (simp add: swap_ok_def)
  then show ?thesis
  proof (cases rule: fp.get_cases)
    case none
    with len upd [OF ok] show ?thesis by (simp add: swap_out_to_def)
  next
    case (some f fs d')
    from swap_ok_take [OF ok some(2)] have d': "swap_ok d'" "f \<in> real_frames d'" by simp_all
    obtain d'' where cp: "swap_cp_page (v_mram c) vf d' f = Inr (v_mram c, d'')"
      using swap_cp_loop_copies [of "v_mram c" d' 0 vf f] ram d' real_frames_fit [OF vf]
        real_frames_fit [OF d'(2)] by (auto simp: swap_cp_page_def swap_ok_def)
    then have "swap_ok d''" using swap_cp_loop_frame [of "v_mram c" vf d' f 0] d' same_lists_swap_ok
      by (simp add: swap_cp_page_def)
    then show ?thesis using some(2) len cp upd [of d'']
      by (simp add: swap_out_to_def copy_to_swap_def)
  qed
qed

lemma swap_out_any_total:
  "swaps_ok c \<Longrightarrow> ram_ok (v_mram c) \<Longrightarrow> vf \<in> real_frames (v_mram c) \<Longrightarrow>
     \<exists>j r c'. swap_out_any vf i c = Inr (j, r, c') \<and> swaps_ok c'"
proof (induction vf i c rule: swap_out_any.induct)
  case (1 vf i c)
  show ?case
  proof (cases "i < PAGING_MAX_MMSWP")
    case True
    obtain r c' where s: "swap_out_to vf i c = Inr (r, c')" "swaps_ok c'"
      using swap_out_to_total [OF "1.prems" True] by blast
    have fr: "v_mram c' = v_mram c" using swap_out_to_frame [OF s(1)] by simp
    show ?thesis
    proof (cases "r = None")
      case False
      with True s show ?thesis by (subst swap_out_any.simps) simp
    next
      case rn: True
      then have "\<exists>j r c2. swap_out_any vf (Suc i) c' = Inr (j, r, c2) \<and> swaps_ok c2"
        using "1.IH" [OF True s(1) refl] "1.prems" fr s(2) by simp
      with True s rn show ?thesis by (subst swap_out_any.simps) simp
    qed
  next
    case False
    with "1.prems"(1) show ?thesis by (subst swap_out_any.simps) simp
  qed
qed

lemma swap_out_total:
  assumes "swaps_ok c" "ram_ok (v_mram c)" "vf \<in> real_frames (v_mram c)"
  shows "\<exists>j r c'. swap_out vf c = Inr (j, r, c') \<and> swaps_ok c'"
proof -
  obtain r c' where s: "swap_out_to vf (v_active c) c = Inr (r, c')" "swaps_ok c'"
    using swap_out_to_total [OF assms] assms(1) unfolding swaps_ok_def by blast
  have "v_mram c' = v_mram c" using swap_out_to_frame [OF s(1)] by simp
  with swap_out_any_total [of c' vf 0] s assms show ?thesis
    by (cases "r = None") (auto simp: swap_out_def)
qed

lemma steal_frame_total:
  assumes inv: "ctx_inv others held c" and sw: "swaps_ok c"
  shows "\<exists>st frm' c'. steal_frame z frm c = Inr (st, frm', c') \<and> swaps_ok c'"
proof -
  have t: "terminated (fifo_pgn (v_mm c))" using inv by (simp add: frames_inv_def fifo_inv_def)
  from t show ?thesis
  proof (cases rule: find_victim_page_cases)
    case none
    with sw show ?thesis by (simp add: steal_frame_def)
  next
    case some
    let ?v = "last (nodes (fifo_pgn (v_mm c)))"
    let ?c1 = "c\<lparr>v_mm := (v_mm c)\<lparr>fifo_pgn := chain_of (butlast (nodes (fifo_pgn (v_mm c))))\<rparr>\<rparr>"
    have "online (v_mm c) ?v" using inv some(1) by (simp add: frames_inv_def fifo_inv_def)
    then have "frame_of (v_mm c) ?v \<in> real_frames (v_mram c)"
      using inv by (auto simp: frames_inv_def mapped_def)
    moreover have "ram_ok (v_mram c)" using inv by (simp add: frames_inv_def ram_inv_def)
    moreover have "swaps_ok ?c1" using sw by (simp add: swaps_ok_def)
    ultimately obtain j r c' where so: "swap_out (frame_of (v_mm c) ?v) ?c1 = Inr (j, r, c')"
      "swaps_ok c'" using swap_out_total [of ?c1 "frame_of (v_mm c) ?v"] by auto
    then have "swaps_ok (c'\<lparr>v_mm := x\<rparr>)" for x by (simp add: swaps_ok_def)
    with some(2) so show ?thesis
      by (cases r) (simp_all add: steal_frame_def Let_def frame_of_def)
  qed
qed

lemma alloc_pages_loop_total:
  assumes "ctx_inv others (set fs) c" and "distinct fs" and "frm_inv fs frm c" and "swaps_ok c"
  shows "\<exists>st frm' c'. alloc_pages_loop z n frm c = Inr (st, frm', c') \<and> st \<in> {0, -1, -3000} \<and> swaps_ok c'"
  using assms
proof (induction n arbitrary: fs frm c)
  case (Suc n)
  have ok: "pool_ok (v_mram c)" using Suc.prems(1) by (simp add: frames_inv_def ram_inv_def)
  then show ?case
  proof (cases rule: fp.get_cases)
    case none
    obtain s1 frm1 c1 where s: "steal_frame z frm c = Inr (s1, frm1, c1)" "swaps_ok c1"
      using steal_frame_total [OF Suc.prems(1,4)] by blast
    note si = steal_frame_inv [OF Suc.prems(1) s(1)]
    have cod: "s1 \<in> {0, -1, -3000}"
      using s(1) by (auto simp: steal_frame_def Let_def bindR_eq_Inr split: if_splits option.splits)
    show ?thesis
    proof (cases "s1 < 0")
      case True
      with none s cod show ?thesis by simp
    next
      case False
      with si obtain f where f: "f \<notin> set fs" "ctx_inv others (insert f (set fs)) c1"
        "frm1 = Node f (if frm = Null then fresh_ptr z else frm)" by auto
      have "frm_inv (f # fs) frm1 c1"
        using Suc.prems(3) f(3) none(1) si by (auto simp: frm_inv_def)
      with Suc.IH [of "f # fs" c1 frm1] f s Suc.prems(2) False none show ?thesis by simp
    qed
  next
    case (some f rest ram')
    define c1 where "c1 = c\<lparr>v_mram := ram'\<lparr>used_fp_list := Node f (used_fp_list ram')\<rparr>\<rparr>"
    from some(2) have same: "maxsz ram' = maxsz (v_mram c)" "rdmflg ram' = rdmflg (v_mram c)"
      "used_fp_list ram' = used_fp_list (v_mram c)"
      by (auto simp: MEMPHY_get_freefp_def split: chain.splits)
    have eq: "free_frames (ram'\<lparr>used_fp_list := x\<rparr>) = free_frames ram'"
      "pool_ok (ram'\<lparr>used_fp_list := x\<rparr>) = pool_ok ram'" for x
      by (simp_all add: free_frames_def pool_ok_def)
    have inv1: "ctx_inv others (insert f (set fs)) c1 \<and> f \<notin> set fs"
      using some same Suc.prems(1) unfolding c1_def by (intro frames_inv_take) (simp_all add: eq)
    have "frm_inv (f # fs) (Node f (used_fp_list ram')) c1"
      using Suc.prems(3) some(1) same by (auto simp: frm_inv_def c1_def)
    moreover have "swaps_ok c1" using Suc.prems(4) by (simp add: c1_def swaps_ok_def)
    ultimately show ?thesis
      using inv1 Suc.prems(2) Suc.IH [of "f # fs" c1 "Node f (used_fp_list ram')"] some(2)
      by (simp add: c1_def Let_def)
  qed
qed simp

text \<open>While free frames suffice, allocation takes them from the front of the free list.\<close>

lemma alloc_pages_loop_free:
  assumes "pool_ok (v_mram c)" and "n \<le> length (free_frames (v_mram c))"
    and "n = 0 \<longrightarrow> frm = used_fp_list (v_mram c)"
  shows "\<exists>ram'. alloc_pages_loop z n frm c =
      Inr (0, chain_onto (rev (take n (free_frames (v_mram c)))) (used_fp_list (v_mram c)), c\<lparr>v_mram := ram'\<rparr>) \<and>
    pool_ok ram' \<and> free_frames ram' = drop n (free_frames (v_mram c)) \<and>
    storage ram' = storage (v_mram c) \<and> maxsz ram' = maxsz (v_mram c) \<and> rdmflg ram' = rdmflg (v_mram c)"
  using assms
proof (induction n arbitrary: frm c)
  case 0
  then have "c\<lparr>v_mram := v_mram c\<rparr> = c" by simp
  with 0 show ?case by (auto intro: exI [of _ "v_mram c"])
next
  case (Suc n)
  from Suc.prems(1) show ?case
  proof (cases rule: fp.get_cases)
    case none
    with Suc.prems(2) show ?thesis by simp
  next
    case (some f fs ram1)
    let ?ram2 = "ram1\<lparr>used_fp_list := Node f (used_fp_list ram1)\<rparr>"
    have eq: "free_frames ?ram2 = fs" "pool_ok ?ram2" using some
      by (simp_all add: free_frames_def pool_ok_def)
    from some(2) have same: "storage ram1 = storage (v_mram c)" "maxsz ram1 = maxsz (v_mram c)"
      "rdmflg ram1 = rdmflg (v_mram c)" "used_fp_list ram1 = used_fp_list (v_mram c)"
      by (auto simp: MEMPHY_get_freefp_def split: chain.splits)
    from Suc.IH [of "c\<lparr>v_mram := ?ram2\<rparr>" "Node f (used_fp_list ram1)"] eq Suc.prems(2) some
    show ?thesis by (auto simp: Let_def same chain_onto_append)
  qed
qed

section \<open>Mapped pages enter the replacement queue\<close>

lemma vmap_loop_fifo:
  "vmap_loop addr k n nxt m = Inr m' \<Longrightarrow> n \<le> length (nodes nxt) \<Longrightarrow>
     fifo_pgn m' = chain_onto (rev (map (\<lambda>i. PAGING_PGN (addr + (k + int i) * 256)) [0..<n])) (fifo_pgn m)"
proof (induction n arbitrary: k nxt m)
  case (Suc n)
  then obtain f rest where nxt: "nxt = Node f rest" by (cases nxt) simp_all
  have m: "map (\<lambda>i. PAGING_PGN (addr + (k + int i) * 256)) [0..<Suc n] =
      PAGING_PGN (addr + k * 256) # map (\<lambda>i. PAGING_PGN (addr + (k + 1 + int i) * 256)) [0..<n]"
    by (simp add: upt_conv_Cons map_Suc_upt [symmetric] del: upt_Suc) (simp add: algebra_simps)
  have "fifo_pgn m' = chain_onto (rev (map (\<lambda>i. PAGING_PGN (addr + (k + 1 + int i) * 256)) [0..<n]))
      (Node (PAGING_PGN (addr + k * 256)) (fifo_pgn m))"
    using Suc.prems nxt by (auto simp: Let_def PAGING_PAGESZ_def enlist_pgn_node_def dest!: Suc.IH)
  then show ?case unfolding m by (simp add: chain_onto_append)
qed simp

lemma pages_inj:
  assumes "n \<le> 16384"
  shows "inj_on (\<lambda>i. PAGING_PGN (addr + int i * 256)) {..<n}"
proof (rule inj_onI)
  fix i j
  assume ij: "i \<in> {..<n}" "j \<in> {..<n}"
    and e: "PAGING_PGN (addr + int i * 256) = PAGING_PGN (addr + int j * 256)"
  from e have "(addr div 256 + int i) mod 16384 = (addr div 256 + int j) mod 16384"
    by (simp add: PAGING_PGN_eq add.commute)
  then have "(16384::int) dvd int i - int j"
    by (metis add_diff_cancel_left mod_eq_dvd_iff)
  moreover have "\<bar>int i - int j\<bar> < 16384" using ij assms by auto
  ultimately have "int i - int j = 0" by (metis abs_eq_0_iff dvd_imp_le_int abs_numeral not_le)
  then show "i = j" by simp
qed

section \<open>Properties\<close>

text \<open>C37: copying a page between two random access devices transfers exactly the 256 bytes of the
  source frame to the destination frame: every other byte of the destination keeps its value, and
  the source does not change.\<close>

theorem swap_cp_page_copies_page:
  assumes "ram_ok src" "ram_ok dst" "sf \<in> real_frames src" "df \<in> real_frames dst"
  shows "\<exists>dst'. swap_cp_page src sf dst df = Inr (src, dst') \<and> same_lists dst dst' \<and>
    (\<forall>a. storage dst' a =
      (if a div 256 = df then storage src (sf * 256 + a mod 256) else storage dst a))"
proof -
  have b: "a div 256 = df \<longleftrightarrow> df * 256 \<le> a \<and> a < df * 256 + 256" for a
    using le_div_iff_int [of 256 df a] div_less_iff_int [of 256 a "df + 1"] by auto
  have m: "a mod 256 = a - df * 256" if "a div 256 = df" for a
    using that by (simp add: minus_div_mult_eq_mod [symmetric])
  obtain dst' where cp: "swap_cp_page src sf dst df = Inr (src, dst')" and "storage dst' =
      (\<lambda>k. if df * 256 \<le> k \<and> k < df * 256 + 256 then storage src (sf * 256 + (k - df * 256))
        else storage dst k)"
    using swap_cp_loop_copies [of src dst 0 sf df] assms real_frames_fit [of sf src]
      real_frames_fit [of df dst] by (auto simp: swap_cp_page_def)
  moreover have "same_lists dst dst'" using cp swap_cp_loop_frame by (simp add: swap_cp_page_def)
  ultimately show ?thesis using m by (auto simp: b)
qed

theorem swap_cp_page_copies_page_witness:
  "\<exists>dst'. swap_cp_page (stack_memphy\<lparr>maxsz := 512, rdmflg := 1, storage := (\<lambda>a. if a = 300 then 7 else 0)\<rparr>) 1
      (stack_memphy\<lparr>maxsz := 1024, rdmflg := 1\<rparr>) 3 =
    Inr (stack_memphy\<lparr>maxsz := 512, rdmflg := 1, storage := (\<lambda>a. if a = 300 then 7 else 0)\<rparr>, dst') \<and>
    storage dst' 812 = 7"
  using swap_cp_page_copies_page
    [of "stack_memphy\<lparr>maxsz := 512, rdmflg := 1, storage := (\<lambda>a. if a = 300 then 7 else 0)\<rparr>"
      "stack_memphy\<lparr>maxsz := 1024, rdmflg := 1\<rparr>" 1 3]
  by (auto simp: ram_ok_def real_frames_def)

text \<open>While enough frames are free, a request for \<open>n\<close> frames succeeds, hands out the first \<open>n\<close>
  frames of the free list, leaves the rest free, and neither evicts a page nor touches a byte.\<close>

theorem alloc_pages_range_takes_free_frames:
  assumes "pool_ok (v_mram c)" and "0 < n" and "nat n \<le> length (free_frames (v_mram c))"
  shows "\<exists>frm c'. alloc_pages_range z n Null c = Inr (0, frm, c') \<and>
    take (nat n) (nodes frm) = rev (take (nat n) (free_frames (v_mram c))) \<and>
    free_frames (v_mram c') = drop (nat n) (free_frames (v_mram c)) \<and>
    storage (v_mram c') = storage (v_mram c) \<and> v_mm c' = v_mm c \<and> v_mswp c' = v_mswp c"
  using alloc_pages_loop_free [of c "nat n" Null z] assms by (auto simp: alloc_pages_range_def)

text \<open>A process without mapped pages on a machine with \<open>k\<close> free frames and four empty swap devices.\<close>

definition idle_ram :: "int list \<Rightarrow> memphy_struct" where
  "idle_ram fs = stack_memphy\<lparr>maxsz := 1024, rdmflg := 1, free_fp_list := chain_of fs, used_fp_list := Null\<rparr>"

definition blank_mm :: mm_struct where
  "blank_mm = \<lparr>pgd = (\<lambda>_. 0), mmap = Null, symrgtbl = [], fifo_pgn = Null\<rparr>"

definition idle_ctx :: "int list \<Rightarrow> vmctx" where
  "idle_ctx fs = \<lparr>v_mm = blank_mm, v_mram = idle_ram fs,
     v_mswp = replicate 4 (idle_ram [0]), v_active = 0, v_active_id = 0\<rparr>"

lemma idle_ctx_simps [simp]:
  "v_mm (idle_ctx fs) = blank_mm" "v_mram (idle_ctx fs) = idle_ram fs"
  "free_frames (idle_ram fs) = fs" "pool_ok (idle_ram fs)" "ram_ok (idle_ram fs)"
  "online blank_mm p \<longleftrightarrow> False" "mapped blank_mm = {}" "maxsz (idle_ram fs) = 1024"
  "fifo_pgn blank_mm = Null"
  by (simp_all add: idle_ctx_def idle_ram_def free_frames_def pool_ok_def ram_ok_def online_def
      blank_mm_def mapped_def PAGING_PAGE_PRESENT_def)

lemma idle_ctx_inv:
  "distinct fs \<Longrightarrow> set fs \<subseteq> {0..3} \<Longrightarrow> others \<inter> set fs = {} \<Longrightarrow> ctx_inv others {} (idle_ctx fs)"
  by (auto simp: frames_inv_def ram_inv_def fifo_inv_def real_frames_def)

lemma idle_ctx_swaps: "swaps_ok (idle_ctx fs)"
  by (simp add: swaps_ok_def idle_ctx_def PAGING_MAX_MMSWP_def swap_ok_def idle_ram_def ram_ok_def
      pool_ok_def free_frames_def real_frames_def)

theorem alloc_pages_range_takes_free_frames_witness:
  "\<exists>frm c'. alloc_pages_range False 2 Null (idle_ctx [2, 0, 3]) = Inr (0, frm, c') \<and>
     take 2 (nodes frm) = [0, 2] \<and> free_frames (v_mram c') = [3]"
  using alloc_pages_range_takes_free_frames [of "idle_ctx [2, 0, 3]" 2 False] by auto

text \<open>C19: allocation always returns, with status 0, -1 (no page to evict) or -3000 (no swap frame
  left), and keeps frame ownership.  When it succeeds it returns as many frames as requested, all
  different, none of them free, mapped by the process or owned by another process, even when pages
  had to be evicted; a page that is evicted was online before.  This includes requests for more frames than RAM has,
  for which the comment in \<open>vm_map_ram\<close> warns of an endless procedure without control of duplicates: every turn of the loop
  takes a free frame or evicts a page that was online, or ends with an error.\<close>

theorem alloc_pages_range_distinct_frames:
  assumes "ctx_inv others {} c" and "swaps_ok c"
  shows "\<exists>st frm c'. alloc_pages_range z n Null c = Inr (st, frm, c') \<and> st \<in> {0, -1, -3000} \<and>
    ctx_inv others {} c' \<and> swaps_ok c' \<and>
    (st = 0 \<longrightarrow> (\<exists>gs T. frm = chain_onto gs T \<and> length gs = nat n \<and> distinct gs \<and>
      set gs \<inter> (set (free_frames (v_mram c')) \<union> mapped (v_mm c') \<union> others) = {})) \<and>
    (\<forall>p. pgd (v_mm c') p \<noteq> pgd (v_mm c) p \<longrightarrow> online (v_mm c) p \<and> pte_swapped (pgd (v_mm c') p))"
proof -
  have i: "ctx_inv others (set []) c" "frm_inv [] Null c"
    using assms(1) by (simp_all add: frm_inv_def)
  obtain st frm c' where a: "alloc_pages_loop z (nat n) Null c = Inr (st, frm, c')"
    "st \<in> {0, -1, -3000}" "swaps_ok c'"
    using alloc_pages_loop_total [OF i(1) _ i(2) assms(2)] by fastforce
  have r: "alloc_rel c c' \<and> ctx_inv others {} c' \<and> (0 \<le> st \<longrightarrow> (\<exists>gs. length gs = nat n \<and> distinct gs \<and>
      ctx_inv others (set gs) c' \<and> (\<exists>T. frm = chain_onto gs T)))"
    using alloc_pages_loop_inv [OF i(1) _ i(2) a(1)] by simp
  have "\<exists>gs T. frm = chain_onto gs T \<and> length gs = nat n \<and> distinct gs \<and>
      set gs \<inter> (set (free_frames (v_mram c')) \<union> mapped (v_mm c') \<union> others) = {}" if "st = 0"
  proof -
    from r that obtain gs T where g: "length gs = nat n" "distinct gs" "ctx_inv others (set gs) c'"
      "frm = chain_onto gs T" by auto
    from g(3) have "set gs \<inter> (set (free_frames (v_mram c')) \<union> mapped (v_mm c') \<union> others) = {}"
      by (auto simp: frames_inv_def)
    with g show ?thesis by blast
  qed
  with a r show ?thesis by (auto simp: alloc_pages_range_def alloc_rel_def)
qed

theorem alloc_pages_range_distinct_frames_witness:
  "\<exists>st frm c'. alloc_pages_range False 2 Null (idle_ctx [2, 0, 3]) = Inr (st, frm, c') \<and>
     ctx_inv {1} {} c'"
  using alloc_pages_range_distinct_frames [of "{1}" "idle_ctx [2, 0, 3]" False 2]
    idle_ctx_inv [of "[2, 0, 3]" "{1}"] idle_ctx_swaps by auto

lemma vmap_page_range_inv:
  assumes inv: "ctx_inv others (set gs) c" and d: "distinct gs" and n: "nat n = length gs" "n \<le> 16384"
    and off: "\<And>i. i < nat n \<Longrightarrow> \<not> online (v_mm c) (PAGING_PGN (addr + int i * 256))"
  shows "\<exists>rg m'. vmap_page_range addr n (chain_onto gs T) c = Inr (rg, c\<lparr>v_mm := m'\<rparr>) \<and>
    frames_inv others {} m' (v_mram c) \<and> mmap m' = mmap (v_mm c) \<and> symrgtbl m' = symrgtbl (v_mm c) \<and>
    (\<forall>i<nat n. online m' (PAGING_PGN (addr + int i * 256))) \<and>
    (\<forall>p. (\<forall>i<nat n. p \<noteq> PAGING_PGN (addr + int i * 256)) \<longrightarrow> pgd m' p = pgd (v_mm c) p)"
proof -
  obtain m' where m': "vmap_loop addr 0 (nat n) (chain_onto gs T) (v_mm c) = Inr m'"
    "frames_inv others {} m' (v_mram c)" "mmap m' = mmap (v_mm c)" "symrgtbl m' = symrgtbl (v_mm c)"
    "\<forall>i<nat n. pgd m' (PAGING_PGN (addr + int i * 256)) =
       pte_set_fpn (pgd (v_mm c) (PAGING_PGN (addr + int i * 256))) (gs ! i)"
    "\<forall>p. (\<forall>i<nat n. p \<noteq> PAGING_PGN (addr + int i * 256)) \<longrightarrow> pgd m' p = pgd (v_mm c) p"
    using vmap_loop_inv [OF inv d, of addr 0 T] pages_inj [of "nat n" addr] n off by auto
  moreover have "0 \<le> PAGING_PGN x \<and> PAGING_PGN x < 16384" for x by (simp add: PAGING_PGN_eq)
  ultimately have "\<forall>i<nat n. online m' (PAGING_PGN (addr + int i * 256))"
    by (auto simp: online_def)
  with m' show ?thesis by (auto simp: vmap_page_range_def intro!: exI [of _ m'])
qed

text \<open>What no operation of a process changes: the size of the RAM and the choice of the swap device.\<close>

definition same_dev :: "vmctx \<Rightarrow> vmctx \<Rightarrow> bool" where
  "same_dev c c' \<longleftrightarrow> maxsz (v_mram c') = maxsz (v_mram c) \<and> v_active c' = v_active c \<and>
     v_active_id c' = v_active_id c"

lemma same_dev_refl [simp]: "same_dev c c" "same_dev c (c\<lparr>v_mm := m\<rparr>)"
  "same_dev (c\<lparr>v_mm := m\<rparr>) c' = same_dev c c'" "same_dev c (c'\<lparr>v_mm := m\<rparr>) = same_dev c c'"
  by (simp_all add: same_dev_def)

text \<open>Everything the callers of \<open>vm_map_ram\<close> need to know.\<close>

lemma vm_map_ram_inv:
  assumes "ctx_inv others {} c" and "swaps_ok c" and "n \<le> 16384"
    and "\<forall>i<nat n. \<not> online (v_mm c) (PAGING_PGN (start + int i * 256))"
  shows "\<exists>ret rg c'. vm_map_ram z a e start n c = Inr (ret, rg, c') \<and> ret \<in> {0, -1} \<and>
    ctx_inv others {} c' \<and> swaps_ok c' \<and> storage (v_mram c') = storage (v_mram c) \<and>
    same_dev c c' \<and>
    mmap (v_mm c') = mmap (v_mm c) \<and> symrgtbl (v_mm c') = symrgtbl (v_mm c) \<and>
    (nat n \<le> length (free_frames (v_mram c)) \<longrightarrow> ret = 0) \<and>
    (ret = 0 \<longrightarrow> (\<forall>i<nat n. online (v_mm c') (PAGING_PGN (start + int i * 256)))) \<and>
    (\<forall>p. online (v_mm c') p \<longrightarrow> online (v_mm c) p \<or> (\<exists>i<nat n. p = PAGING_PGN (start + int i * 256)))"
proof -
  have i: "ctx_inv others (set []) c" "frm_inv [] Null c"
    using assms(1) by (simp_all add: frm_inv_def)
  obtain st frm c1 where a: "alloc_pages_loop z (nat n) Null c = Inr (st, frm, c1)"
    "st \<in> {0, -1, -3000}" "swaps_ok c1"
    using alloc_pages_loop_total [OF i(1) _ i(2) assms(2)] by fastforce
  have r: "alloc_rel c c1" "ctx_inv others {} c1" "0 \<le> st \<longrightarrow> (\<exists>gs. length gs = nat n \<and> distinct gs \<and>
      ctx_inv others (set gs) c1 \<and> (\<exists>T. frm = chain_onto gs T))"
    using alloc_pages_loop_inv [OF i(1) _ i(2) a(1)] by simp_all
  note same = r(1) [unfolded alloc_rel_def]
  have p: "pool_ok (v_mram c)" using assms(1) by (simp add: frames_inv_def ram_inv_def)
  have free: "st = 0" if "nat n \<le> length (free_frames (v_mram c))"
    using alloc_pages_loop_free [OF p that, of Null z] a(1) by (cases "nat n") auto
  have mono: "online (v_mm c1) p \<Longrightarrow> online (v_mm c) p" for p
    using r(1) online_mono by blast
  show ?thesis
  proof (cases "st = 0")
    case False
    with a r same mono free show ?thesis by (auto simp: vm_map_ram_def alloc_pages_range_def same_dev_def)
  next
    case True
    with r obtain gs T where g: "length gs = nat n" "distinct gs" "ctx_inv others (set gs) c1"
      "frm = chain_onto gs T" by auto
    obtain rg m' where m': "vmap_page_range start n (chain_onto gs T) c1 = Inr (rg, c1\<lparr>v_mm := m'\<rparr>)"
      "frames_inv others {} m' (v_mram c1)" "mmap m' = mmap (v_mm c1)" "symrgtbl m' = symrgtbl (v_mm c1)"
      "\<forall>i<nat n. online m' (PAGING_PGN (start + int i * 256))"
      "\<forall>p. (\<forall>i<nat n. p \<noteq> PAGING_PGN (start + int i * 256)) \<longrightarrow> pgd m' p = pgd (v_mm c1) p"
      using vmap_page_range_inv [OF g(3,2) g(1) [symmetric] assms(3), of start T] assms(4) mono by blast
    have on: "online (v_mm c) p \<or> (\<exists>i<nat n. p = PAGING_PGN (start + int i * 256))" if "online m' p" for p
      using that m'(6) mono by (auto simp: online_def)
    have sw: "swaps_ok (c1\<lparr>v_mm := m'\<rparr>)" using a(3) by (simp add: swaps_ok_def)
    have "vm_map_ram z a e start n c = Inr (0, Some rg, c1\<lparr>v_mm := m'\<rparr>)"
      using a(1) True m'(1) g(4) by (simp add: vm_map_ram_def alloc_pages_range_def)
    with m' sw on same show ?thesis by (simp add: same_dev_def)
  qed
qed

text \<open>C6: mapping \<open>n\<close> pages that are not in memory either fails with -1 or brings all of them online, on
  frames that no other page and no other process uses; frame ownership holds afterwards in both
  cases, no byte of RAM changes, and the operation always returns.  It cannot fail as long as there
  are enough free frames.  The comment in \<open>vm_map_ram\<close> expects an endless swapping procedure, and pages that use one frame
  twice, when more pages are requested than RAM has frames; neither happens, the request is refused with -1.\<close>

theorem vm_map_ram_isolates:
  assumes "ctx_inv others {} c" and "swaps_ok c" and "n \<le> 16384"
    and "\<forall>i<nat n. \<not> online (v_mm c) (PAGING_PGN (start + int i * 256))"
  shows "\<exists>ret rg c'. vm_map_ram z a e start n c = Inr (ret, rg, c') \<and> ret \<in> {0, -1} \<and>
    ctx_inv others {} c' \<and> storage (v_mram c') = storage (v_mram c) \<and>
    (nat n \<le> length (free_frames (v_mram c)) \<longrightarrow> ret = 0) \<and>
    (ret = 0 \<longrightarrow> (\<forall>i<nat n. online (v_mm c') (PAGING_PGN (start + int i * 256))))"
  using vm_map_ram_inv [OF assms] by blast

theorem vm_map_ram_isolates_witness:
  "\<exists>rg c'. vm_map_ram False 0 512 0 2 (idle_ctx [2, 0, 3]) = Inr (0, rg, c') \<and> ctx_inv {1} {} c' \<and>
     (\<forall>i<2. online (v_mm c') (PAGING_PGN (int i * 256)))"
  using vm_map_ram_isolates [of "{1}" "idle_ctx [2, 0, 3]" 2 0 False 0 512]
    idle_ctx_inv [of "[2, 0, 3]" "{1}"] idle_ctx_swaps by auto

text \<open>Pages leave memory in the order in which they were mapped: after mapping \<open>n\<close> pages of a
  process without resident pages, \<open>n\<close> victim selections return these pages, the first mapped first.\<close>

theorem mapped_pages_evicted_in_order:
  assumes "fifo_pgn (v_mm c) = Null" and "nat n \<le> length (nodes frames)"
    and "vmap_page_range addr n frames c = Inr (rg, c')"
  shows "rq.evictions (nat n) (v_mm c') = map (\<lambda>i. PAGING_PGN (addr + int i * 256)) [0..<nat n]"
proof -
  let ?ps = "map (\<lambda>i. PAGING_PGN (addr + int i * 256)) [0..<nat n]"
  have "fifo_pgn (v_mm c') = chain_of (rev ?ps)"
    using assms(3) vmap_loop_fifo [OF _ assms(2), of addr 0 "v_mm c"] assms(1)
    by (auto simp: vmap_page_range_def bindR_eq_Inr)
  then show ?thesis using rq.evictions_rev [of "v_mm c'"] by (simp add: rev_map [symmetric])
qed

theorem mapped_pages_evicted_in_order_witness:
  "\<exists>rg c'. vmap_page_range 1024 2 (chain_of [3, 1]) (idle_ctx []) = Inr (rg, c') \<and>
     rq.evictions 2 (v_mm c') = [4, 5]"
proof -
  obtain rg c' where v: "vmap_page_range 1024 2 (chain_of [3, 1]) (idle_ctx []) = Inr (rg, c')"
    by (simp add: vmap_page_range_def numeral_2_eq_2 Let_def)
  with mapped_pages_evicted_in_order [OF _ _ v] show ?thesis
    by (auto simp: PAGING_PGN_eq upt_rec)
qed

end
