(* ===== verification/Legacy_Mem.thy ===== *)
theory Legacy_Mem imports Kernel_Types MemPhy begin

text \<open>
  The memory of the original simulator, \<^verbatim>\<open>src/mem.c\<close>, and the instructions of \<^verbatim>\<open>src/cpu.c\<close> that use it
  (\<open>alloc\<close>, \<open>free_data\<close>, \<open>read\<close>, \<open>write\<close>).  With \<open>MM_PAGING\<close> the processor does not call them; they are
  compiled and could be.  A page table is the list of its rows: virtual index and second level.
  Addresses are \<open>addr_t\<close>, unsigned 32 bit words.
\<close>

section \<open>State\<close>

definition OFFSET_LEN :: nat where "OFFSET_LEN = 10"
definition PAGE_LEN :: nat where "PAGE_LEN = 5"
definition ADDRESS_SIZE :: nat where "ADDRESS_SIZE = 20"
definition NUM_PAGES :: nat where "NUM_PAGES = 2 ^ (ADDRESS_SIZE - OFFSET_LEN)"
definition PAGE_SIZE :: u32 where "PAGE_SIZE = push_bit OFFSET_LEN 1"

text \<open>A row of the second level: virtual and physical index.\<close>

type_synonym trans_table = "(u32 \<times> u32) list"
type_synonym page_table = "(u32 \<times> trans_table) list"

record mem_stat =
  ms_proc :: int
  ms_index :: int
  ms_next :: int

record old_mem =
  om_ram :: "int \<Rightarrow> byte"
  om_stat :: "mem_stat list"

section \<open>Operations\<close>

definition init_mem :: "old_mem \<Rightarrow> old_mem" where
  "init_mem m = \<lparr>om_ram = (\<lambda>_. 0),
     om_stat = replicate NUM_PAGES \<lparr>ms_proc = 0, ms_index = 0, ms_next = 0\<rparr>\<rparr>"

definition get_offset :: "u32 \<Rightarrow> u32" where
  "get_offset addr = addr AND NOT (push_bit OFFSET_LEN (NOT 0))"

definition get_first_lv :: "u32 \<Rightarrow> u32" where
  "get_first_lv addr = drop_bit (OFFSET_LEN + PAGE_LEN) addr"

definition get_second_lv :: "u32 \<Rightarrow> u32" where
  "get_second_lv addr = drop_bit OFFSET_LEN addr - push_bit PAGE_LEN (get_first_lv addr)"

text \<open>The search loop has an empty body; the answer is NULL.\<close>

definition get_trans_table :: "u32 \<Rightarrow> page_table \<Rightarrow> trans_table option" where
  "get_trans_table index tbl = fold (\<lambda>_ r. r) tbl None"

text \<open>\<open>physical_addr\<close> is not written on any path.\<close>

definition translate :: "u32 \<Rightarrow> page_table \<Rightarrow> int \<times> u32 option" where
  "translate virtual_addr tbl =
    (case get_trans_table (get_first_lv virtual_addr) tbl of
       None \<Rightarrow> (0, None)
     | Some rows \<Rightarrow>
         if \<exists>r\<in>set rows. fst r = get_second_lv virtual_addr then (1, None) else (0, None))"

text \<open>\<open>num_pages\<close> is computed and not used, since \<open>mem_avail\<close> stays 0.\<close>

definition alloc_mem :: "u32 \<Rightarrow> pcb_t \<Rightarrow> u32 \<times> pcb_t" where
  "alloc_mem sz proc =
    (let num_pages = (if sz mod PAGE_SIZE \<noteq> 0 then sz div PAGE_SIZE else sz div PAGE_SIZE + 1);
         mem_avail = (0 :: int)
     in if mem_avail \<noteq> 0
        then (word_of_int (bp proc), proc\<lparr>bp := to_u32 (bp proc + uint (num_pages * PAGE_SIZE))\<rparr>)
        else (0, proc))"

definition free_mem :: "u32 \<Rightarrow> pcb_t \<Rightarrow> int" where
  "free_mem address proc = 0"

definition read_mem :: "u32 \<Rightarrow> page_table \<Rightarrow> old_mem \<Rightarrow> (int \<times> byte option) res" where
  "read_mem address tbl m =
    (case translate address tbl of
       (st, phys) \<Rightarrow>
         if st \<noteq> 0 then
           (case phys of None \<Rightarrow> Inl UninitRead | Some a \<Rightarrow> Inr (0, Some (om_ram m (uint a))))
         else Inr (1, None))"

definition write_mem :: "u32 \<Rightarrow> page_table \<Rightarrow> byte \<Rightarrow> old_mem \<Rightarrow> (int \<times> old_mem) res" where
  "write_mem address tbl data m =
    (case translate address tbl of
       (st, phys) \<Rightarrow>
         if st \<noteq> 0 then
           (case phys of
              None \<Rightarrow> Inl UninitRead
            | Some a \<Rightarrow> Inr (0, m\<lparr>om_ram := (om_ram m)(uint a := data)\<rparr>))
         else Inr (1, m))"

text \<open>
  The lines of \<open>dump\<close>: for each used page its status, then the non-zero bytes; the inner loop leaves
  out the last byte of the page.
\<close>

definition dump :: "old_mem \<Rightarrow> ((int \<times> int \<times> int \<times> mem_stat) \<times> (int \<times> byte) list) list" where
  "dump m =
    map (\<lambda>i. ((int i, int i * 1024, (int i + 1) * 1024 - 1, om_stat m ! i),
        filter (\<lambda>(j, v). v \<noteq> 0) (map (\<lambda>j. (j, om_ram m j)) [int i * 1024..(int i + 1) * 1024 - 2])))
      (filter (\<lambda>i. ms_proc (om_stat m ! i) \<noteq> 0) [0..<NUM_PAGES])"

section \<open>Instructions\<close>

definition reg_at :: "pcb_t \<Rightarrow> nat \<Rightarrow> int res" where
  "reg_at b i = (if i < length (regs b) then Inr (regs b ! i) else Inl OutOfBounds)"

definition alloc :: "pcb_t \<Rightarrow> u32 \<Rightarrow> nat \<Rightarrow> (int \<times> pcb_t) res" where
  "alloc proc sz reg_index =
    (case alloc_mem sz proc of
       (addr, proc') \<Rightarrow>
         if addr = 0 then Inr (1, proc')
         else bindR (reg_at proc' reg_index) (\<lambda>_.
           Inr (0, proc'\<lparr>regs := (regs proc')[reg_index := uint addr]\<rparr>)))"

definition free_data :: "pcb_t \<Rightarrow> nat \<Rightarrow> int res" where
  "free_data proc reg_index = bindR (reg_at proc reg_index) (\<lambda>a. Inr (free_mem (word_of_int a) proc))"

text \<open>The condition is the wrong way round: \<open>read_mem\<close> answers 0 on success.\<close>

definition read_data :: "pcb_t \<Rightarrow> page_table \<Rightarrow> old_mem \<Rightarrow> nat \<Rightarrow> u32 \<Rightarrow> nat \<Rightarrow> (int \<times> pcb_t) res" where
  "read_data proc tbl m source offset destination =
    bindR (reg_at proc source) (\<lambda>a.
    bindR (read_mem (word_of_int a + offset) tbl m) (\<lambda>(st, data).
      if st \<noteq> 0 then
        (case data of
           None \<Rightarrow> Inl UninitRead
         | Some d \<Rightarrow> bindR (reg_at proc destination) (\<lambda>_.
             Inr (0, proc\<lparr>regs := (regs proc)[destination := to_u32 (sint d)]\<rparr>)))
      else Inr (1, proc)))"

definition write_data :: "pcb_t \<Rightarrow> page_table \<Rightarrow> old_mem \<Rightarrow> byte \<Rightarrow> nat \<Rightarrow> u32 \<Rightarrow> (int \<times> old_mem) res" where
  "write_data proc tbl m data destination offset =
    bindR (reg_at proc destination) (\<lambda>a. write_mem (word_of_int a + offset) tbl data m)"

section \<open>Properties\<close>

lemma get_offset_eq: "get_offset addr = take_bit 10 addr"
  by (rule bit_eqI) (auto simp: get_offset_def OFFSET_LEN_def bit_simps)

lemma get_second_lv_eq: "get_second_lv addr = take_bit 5 (drop_bit 10 addr)"
proof -
  have "drop_bit 10 addr = push_bit 5 (drop_bit 15 addr) OR take_bit 5 (drop_bit 10 addr)"
    by (rule bit_eqI) (auto simp: bit_simps dest: bit_imp_le_length)
  also have "\<dots> = push_bit 5 (drop_bit 15 addr) + take_bit 5 (drop_bit 10 addr)"
    by (rule disjunctive_add [symmetric]) (auto simp: bit_simps)
  finally have "drop_bit 10 addr - push_bit 5 (drop_bit 15 addr) = take_bit 5 (drop_bit 10 addr)"
    by (metis add_diff_cancel_left')
  then show ?thesis
    by (simp add: get_second_lv_def get_first_lv_def OFFSET_LEN_def PAGE_LEN_def)
qed

text \<open>The three parts of an address of the old memory determine it: offset below \<open>2 ^ 10\<close>, second
  level below \<open>2 ^ 5\<close>, first level the bits from 15 on.\<close>

theorem address_levels_roundtrip:
  "addr = push_bit 15 (get_first_lv addr) OR push_bit 10 (get_second_lv addr) OR get_offset addr \<and>
   uint (get_offset addr) < 1024 \<and> uint (get_second_lv addr) < 32"
proof -
  have "addr = push_bit 15 (get_first_lv addr) OR push_bit 10 (get_second_lv addr) OR get_offset addr"
    unfolding get_offset_eq get_second_lv_eq get_first_lv_def OFFSET_LEN_def PAGE_LEN_def
  proof (rule bit_eqI)
    fix n
    show "bit addr n \<longleftrightarrow> bit (push_bit 15 (drop_bit (10 + 5) addr) OR
        push_bit 10 (take_bit 5 (drop_bit 10 addr)) OR take_bit 10 addr) n"
      by (cases "n < 10"; cases "n < 15") (auto simp: bit_simps dest: bit_imp_le_length)
  qed
  moreover have "uint (get_offset addr) < 1024" "uint (get_second_lv addr) < 32"
    using take_bit_int_less_exp [of 10 "uint addr"] take_bit_int_less_exp [of 5 "uint (drop_bit 10 addr)"]
    by (simp_all add: get_offset_eq get_second_lv_eq unsigned_take_bit_eq)
  ultimately show ?thesis by blast
qed

text \<open>The old memory never translates an address; an old \<open>read\<close> takes the failure for success and
  copies an uninitialised byte into the register, an old \<open>write\<close> fails without effect and an old
  \<open>alloc\<close> fails for every size.\<close>

theorem old_memory_fails:
  assumes "source < length (regs proc)"
  shows "translate addr tbl = (0, None) \<and> read_data proc tbl m source offset destination = Inl UninitRead \<and>
    write_data proc tbl m data source offset = Inr (1, m) \<and> alloc proc sz r = Inr (1, proc)"
proof -
  have "get_trans_table i tbl = None" for i
    unfolding get_trans_table_def by (induction tbl) simp_all
  then have t: "translate a tbl = (0, None)" for a by (simp add: translate_def)
  with assms show ?thesis
    by (simp add: read_data_def write_data_def read_mem_def write_mem_def reg_at_def alloc_def alloc_mem_def Let_def)
qed

theorem old_memory_fails_witness:
  "alloc (\<lparr>pid = 1, priority = 1, path = [], code = \<lparr>c_text = [], c_size = 0\<rparr>, regs = replicate 10 0, pc = 0,
     queues_set = False, prio = 0, mm = None, active_mswp = 0, active_mswp_id = 0, bp = 1024\<rparr>) 300 2 =
   Inr (1, \<lparr>pid = 1, priority = 1, path = [], code = \<lparr>c_text = [], c_size = 0\<rparr>, regs = replicate 10 0, pc = 0,
     queues_set = False, prio = 0, mm = None, active_mswp = 0, active_mswp_id = 0, bp = 1024\<rparr>)"
  using old_memory_fails [of 0 "\<lparr>pid = 1, priority = 1, path = [], code = \<lparr>c_text = [], c_size = 0\<rparr>,
     regs = replicate 10 0, pc = 0, queues_set = False, prio = 0, mm = None, active_mswp = 0,
     active_mswp_id = 0, bp = 1024\<rparr>" _ _ _ _ _ _ 300 2] by simp

end
