(* ===== verification/Timer.thy ===== *)
theory Timer imports Prelude begin

text \<open>
  The timer of \<^verbatim>\<open>src/timer.c\<close>: a barrier that keeps the devices (the processors and the loader) in the
  same time slot.  Threads interleave; a step of the relation \<open>tstep\<close> is one critical section of the
  code or one turn of a loop of the timer thread.  A device that waits on a condition variable steps
  when its condition holds, so signals need not be modelled.

  Ghost fields record where a device stands (\<open>t_place\<close>, how many slots it has entered \<open>t_slots\<close>) and the
  number of ticks before the 64 bit counter wraps (\<open>ticks\<close>).  The main lemma: no device enters a
  slot before every other device that has not detached has finished the slot before.
\<close>

section \<open>State\<close>

datatype place = Running | Blocked | Detached

record timer_id_t =
  t_done :: bool
  t_fsh :: bool
  t_place :: place
  t_slots :: nat

text \<open>The program counter of the timer thread; the lists are the devices still ahead of it.\<close>

datatype timer_pc =
    NotStarted
  | Check
  | Scan "nat list" nat nat
  | Release "nat list"
  | Exited

text \<open>\<open>dev_list\<close> has the device attached last in front; a device is its number.\<close>

record timer_t =
  dev_list :: "nat list"
  devs :: "nat \<Rightarrow> timer_id_t"
  tcount :: int
  timer_started :: bool
  timer_stop :: bool
  tpc :: timer_pc
  ticks :: nat

definition fresh_dev :: timer_id_t where
  "fresh_dev = \<lparr>t_done = False, t_fsh = False, t_place = Running, t_slots = 0\<rparr>"

definition timer0 :: timer_t where
  "timer0 = \<lparr>dev_list = [], devs = (\<lambda>_. fresh_dev), tcount = 0, timer_started = False, timer_stop = False,
     tpc = NotStarted, ticks = 0\<rparr>"

section \<open>Operations\<close>

definition current_time :: "timer_t \<Rightarrow> int" where
  "current_time s = tcount s"

text \<open>A device can be attached until the timer has been started.\<close>

definition attach_event :: "timer_t \<Rightarrow> nat option \<times> timer_t" where
  "attach_event s =
    (if timer_started s then (None, s)
     else
       let container = length (dev_list s)
       in (Some container, s\<lparr>devs := (devs s)(container := fresh_dev), dev_list := container # dev_list s\<rparr>))"

definition start_timer :: "timer_t \<Rightarrow> timer_t" where
  "start_timer s = s\<lparr>timer_started := True, tpc := Check\<rparr>"

definition upd :: "nat \<Rightarrow> (timer_id_t \<Rightarrow> timer_id_t) \<Rightarrow> timer_t \<Rightarrow> timer_t" where
  "upd d f s = s\<lparr>devs := (devs s)(d := f (devs s d))\<rparr>"

text \<open>\<open>next_slot\<close>: the slot is reported done; then the device waits until the timer has cleared it.\<close>

definition next_slot_done :: "nat \<Rightarrow> timer_t \<Rightarrow> timer_t" where
  "next_slot_done d = upd d (\<lambda>t. t\<lparr>t_done := True, t_place := Blocked\<rparr>)"

definition next_slot_enter :: "nat \<Rightarrow> timer_t \<Rightarrow> timer_t option" where
  "next_slot_enter d s =
    (if t_done (devs s d) then None
     else Some (upd d (\<lambda>t. t\<lparr>t_place := Running, t_slots := t_slots t + 1\<rparr>) s))"

definition detach_event :: "nat \<Rightarrow> timer_t \<Rightarrow> timer_t" where
  "detach_event d = upd d (\<lambda>t. t\<lparr>t_fsh := True, t_place := Detached\<rparr>)"

text \<open>The turns of \<open>timer_routine\<close>; \<open>None\<close> means that the thread waits.\<close>

definition timer_routine :: "timer_t \<Rightarrow> timer_t option" where
  "timer_routine s =
    (case tpc s of
       NotStarted \<Rightarrow> None
     | Check \<Rightarrow> Some (s\<lparr>tpc := (if timer_stop s then Exited else Scan (dev_list s) 0 0)\<rparr>)
     | Scan (temp # rest) fsh event \<Rightarrow>
         if \<not> t_done (devs s temp) \<and> \<not> t_fsh (devs s temp) then None
         else Some (s\<lparr>tpc := Scan rest (if t_fsh (devs s temp) then fsh + 1 else fsh) (event + 1)\<rparr>)
     | Scan [] fsh event \<Rightarrow>
         if fsh = event then Some (s\<lparr>tpc := Exited\<rparr>)
         else Some (s\<lparr>tcount := to_u64 (tcount s + 1), ticks := ticks s + 1, tpc := Release (dev_list s)\<rparr>)
     | Release (temp # rest) \<Rightarrow> Some (upd temp (\<lambda>t. t\<lparr>t_done := False\<rparr>) (s\<lparr>tpc := Release rest\<rparr>))
     | Release [] \<Rightarrow> Some (s\<lparr>tpc := Check\<rparr>)
     | Exited \<Rightarrow> None)"

text \<open>\<open>stop_timer\<close> raises the flag; after the thread has been joined it frees the containers.\<close>

definition stop_timer_flag :: "timer_t \<Rightarrow> timer_t" where
  "stop_timer_flag s = s\<lparr>timer_stop := True\<rparr>"

definition stop_timer_free :: "timer_t \<Rightarrow> timer_t option" where
  "stop_timer_free s = (if tpc s = Exited then Some (s\<lparr>dev_list := []\<rparr>) else None)"

section \<open>Interleaving\<close>

text \<open>
  A running device may finish its slot or detach, a blocked one enters the next slot as soon as its
  flag is clear, and the timer thread takes its turns.  The main program raises the flag when it has
  joined all devices.
\<close>

inductive tstep :: "timer_t \<Rightarrow> timer_t \<Rightarrow> bool" where
  finish: "d \<in> set (dev_list s) \<Longrightarrow> t_place (devs s d) = Running \<Longrightarrow> tstep s (next_slot_done d s)"
| enter: "d \<in> set (dev_list s) \<Longrightarrow> t_place (devs s d) = Blocked \<Longrightarrow> next_slot_enter d s = Some s' \<Longrightarrow> tstep s s'"
| detach: "d \<in> set (dev_list s) \<Longrightarrow> t_place (devs s d) = Running \<Longrightarrow> tstep s (detach_event d s)"
| tick: "timer_routine s = Some s' \<Longrightarrow> tstep s s'"
| stop: "\<forall>d\<in>set (dev_list s). t_place (devs s d) = Detached \<Longrightarrow> tstep s (stop_timer_flag s)"

inductive_cases tstepE: "tstep s s'"

text \<open>Start: \<open>n\<close> devices attached, then the timer started.\<close>

fun attach_n :: "nat \<Rightarrow> timer_t \<Rightarrow> timer_t" where
  "attach_n 0 s = s"
| "attach_n (Suc n) s = attach_n n (snd (attach_event s))"

definition timer_init :: "nat \<Rightarrow> timer_t" where
  "timer_init n = start_timer (attach_n n timer0)"

inductive reach :: "nat \<Rightarrow> timer_t \<Rightarrow> bool" for n where
  init: "reach n (timer_init n)"
| more: "reach n s \<Longrightarrow> tstep s s' \<Longrightarrow> reach n s'"

section \<open>Invariant\<close>

text \<open>A device is in step with \<open>k\<close> ticks: it has entered slot \<open>k\<close>, or may enter it now.\<close>

definition in_step :: "nat \<Rightarrow> timer_id_t \<Rightarrow> bool" where
  "in_step k t \<longleftrightarrow> (t_place t = Running \<and> \<not> t_done t \<and> t_slots t = k) \<or>
     (t_place t = Blocked \<and> t_done t \<and> t_slots t = k) \<or>
     (t_place t = Blocked \<and> \<not> t_done t \<and> t_slots t + 1 = k)"

text \<open>A device that finished slot \<open>k - 1\<close> and has not been released.\<close>

definition held :: "nat \<Rightarrow> timer_id_t \<Rightarrow> bool" where
  "held k t \<longleftrightarrow> t_place t = Blocked \<and> t_done t \<and> t_slots t + 1 = k"

definition gone :: "timer_id_t \<Rightarrow> bool" where
  "gone t \<longleftrightarrow> t_fsh t \<and> t_place t = Detached"

definition alive :: "timer_id_t \<Rightarrow> bool" where
  "alive t \<longleftrightarrow> \<not> t_fsh t \<and> t_place t \<noteq> Detached"

text \<open>A move of one device, seen at its own record.\<close>

inductive dev_move :: "timer_id_t \<Rightarrow> timer_id_t \<Rightarrow> bool" where
  "t_place t = Running \<Longrightarrow> dev_move t (t\<lparr>t_done := True, t_place := Blocked\<rparr>)"
| "t_place t = Running \<Longrightarrow> dev_move t (t\<lparr>t_fsh := True, t_place := Detached\<rparr>)"
| "t_place t = Blocked \<Longrightarrow> \<not> t_done t \<Longrightarrow> dev_move t (t\<lparr>t_place := Running, t_slots := t_slots t + 1\<rparr>)"

inductive_cases dev_moveE: "dev_move t t'"

lemma move_in_step: "in_step k t \<Longrightarrow> dev_move t t' \<Longrightarrow> gone t' \<or> in_step k t'"
  by (auto simp: in_step_def gone_def elim!: dev_moveE)

lemma move_alive: "alive t \<Longrightarrow> dev_move t t' \<Longrightarrow> gone t' \<or> alive t'"
  by (auto simp: alive_def gone_def elim!: dev_moveE)

lemma no_move_gone: "gone t \<Longrightarrow> \<not> dev_move t t'"
  by (auto simp: gone_def elim!: dev_moveE)

lemma no_move_held: "held k t \<Longrightarrow> \<not> dev_move t t'"
  by (auto simp: held_def elim!: dev_moveE)

lemma no_move_done: "in_step k t \<Longrightarrow> t_done t \<Longrightarrow> \<not> dev_move t t'"
  by (auto simp: in_step_def elim!: dev_moveE)

text \<open>A device step is a move of one record; a property of all records that moves keep is kept.\<close>

lemma upd_sel [simp]:
  "dev_list (upd d f s) = dev_list s" "tcount (upd d f s) = tcount s" "ticks (upd d f s) = ticks s"
  "timer_stop (upd d f s) = timer_stop s" "tpc (upd d f s) = tpc s"
  "timer_started (upd d f s) = timer_started s"
  "devs (upd d f s) e = (if e = d then f (devs s d) else devs s e)"
  by (simp_all add: upd_def)

lemma all_upd:
  "\<forall>e\<in>S. P (devs s e) \<Longrightarrow> (P (devs s d) \<Longrightarrow> P (f (devs s d))) \<Longrightarrow> \<forall>e\<in>S. P (devs (upd d f s) e)"
  by simp

text \<open>The conjunct of the invariant that depends on where the timer thread stands.\<close>

fun pc_inv :: "timer_pc \<Rightarrow> nat list \<Rightarrow> nat \<Rightarrow> (nat \<Rightarrow> timer_id_t) \<Rightarrow> bool" where
  "pc_inv NotStarted L k D = False"
| "pc_inv Check L k D = (\<forall>d\<in>set L. gone (D d) \<or> in_step k (D d))"
| "pc_inv (Scan rest fsh event) L k D = (\<exists>pre. L = pre @ rest \<and> event = length pre \<and>
     fsh = length (filter (\<lambda>d. t_fsh (D d)) pre) \<and>
     (\<forall>d\<in>set pre. gone (D d) \<or> (in_step k (D d) \<and> t_done (D d))) \<and>
     (\<forall>d\<in>set rest. gone (D d) \<or> in_step k (D d)))"
| "pc_inv (Release rest) L k D = (\<exists>pre. L = pre @ rest \<and>
     (\<forall>d\<in>set pre. gone (D d) \<or> in_step k (D d)) \<and>
     (\<forall>d\<in>set rest. gone (D d) \<or> held k (D d)))"
| "pc_inv Exited L k D = (\<forall>d\<in>set L. gone (D d))"

definition timer_inv :: "timer_t \<Rightarrow> bool" where
  "timer_inv s \<longleftrightarrow> distinct (dev_list s) \<and> tcount s = to_u64 (int (ticks s)) \<and>
     (\<forall>d\<in>set (dev_list s). gone (devs s d) \<or> alive (devs s d)) \<and>
     (timer_stop s \<longrightarrow> (\<forall>d\<in>set (dev_list s). gone (devs s d))) \<and>
     pc_inv (tpc s) (dev_list s) (ticks s) (devs s)"

lemma move_pc_inv:
  assumes mv: "dev_move (devs s d) (f (devs s d))" and p: "pc_inv pc L k (devs s)"
  shows "pc_inv pc L k (devs (upd d f s))"
proof -
  let ?D = "devs (upd d f s)"
  have st: "\<forall>e\<in>S. gone (?D e) \<or> in_step k (?D e)"
    if "\<forall>e\<in>S. gone (devs s e) \<or> in_step k (devs s e)" for S
    by (rule all_upd [where P = "\<lambda>t. gone t \<or> in_step k t", OF that])
      (use mv move_in_step no_move_gone in blast)
  show ?thesis
  proof (cases pc)
    case (Scan rest fsh event)
    from p [unfolded Scan] obtain pre where q: "L = pre @ rest" "event = length pre"
        "fsh = length (filter (\<lambda>d. t_fsh (devs s d)) pre)"
        "\<forall>d\<in>set pre. gone (devs s d) \<or> (in_step k (devs s d) \<and> t_done (devs s d))"
        "\<forall>d\<in>set rest. gone (devs s d) \<or> in_step k (devs s d)"
      by auto
    have "d \<notin> set pre" using q(4) mv no_move_gone no_move_done by blast
    then have same: "e \<in> set pre \<Longrightarrow> ?D e = devs s e" for e by auto
    then have "filter (\<lambda>d. t_fsh (?D d)) pre = filter (\<lambda>d. t_fsh (devs s d)) pre"
      by (intro filter_cong refl) simp
    moreover have "\<forall>d\<in>set pre. gone (?D d) \<or> (in_step k (?D d) \<and> t_done (?D d))"
      using q(4) same by simp
    moreover note st [OF q(5)]
    ultimately show ?thesis unfolding Scan pc_inv.simps using q(1-3)
      by (intro exI [of _ pre]) simp
  next
    case (Release rest)
    from p [unfolded Release] obtain pre where q: "L = pre @ rest"
        "\<forall>d\<in>set pre. gone (devs s d) \<or> in_step k (devs s d)"
        "\<forall>d\<in>set rest. gone (devs s d) \<or> held k (devs s d)"
      by auto
    have "\<forall>e\<in>set rest. gone (?D e) \<or> held k (?D e)"
      by (rule all_upd [where P = "\<lambda>t. gone t \<or> held k t", OF q(3)])
        (use mv no_move_held no_move_gone in blast)
    then show ?thesis unfolding Release pc_inv.simps using q(1) st [OF q(2)] by blast
  next
    case Exited
    have "\<forall>e\<in>set L. gone (?D e)"
      by (rule all_upd [where P = gone]) (use p Exited mv no_move_gone in auto)
    then show ?thesis by (simp only: Exited pc_inv.simps)
  qed (use p st in \<open>simp_all only: pc_inv.simps\<close>)
qed

lemma dev_move_inv:
  assumes inv: "timer_inv s" and mv: "dev_move (devs s d) (f (devs s d))"
  shows "timer_inv (upd d f s)"
proof -
  have i: "\<forall>d\<in>set (dev_list s). gone (devs s d) \<or> alive (devs s d)"
    "timer_stop s \<longrightarrow> (\<forall>d\<in>set (dev_list s). gone (devs s d))"
    "pc_inv (tpc s) (dev_list s) (ticks s) (devs s)"
    using inv unfolding timer_inv_def by blast+
  have "\<forall>e\<in>set (dev_list s). gone (devs (upd d f s) e) \<or> alive (devs (upd d f s) e)"
    by (rule all_upd [where P = "\<lambda>t. gone t \<or> alive t", OF i(1)])
      (use mv move_alive no_move_gone in blast)
  moreover have "timer_stop s \<longrightarrow> (\<forall>e\<in>set (dev_list s). gone (devs (upd d f s) e))"
  proof
    assume "timer_stop s"
    with i(2) have "\<forall>d\<in>set (dev_list s). gone (devs s d)" by blast
    then show "\<forall>e\<in>set (dev_list s). gone (devs (upd d f s) e)"
      by (rule all_upd) (use mv no_move_gone in blast)
  qed
  moreover note move_pc_inv [where f = f, OF mv i(3)]
  ultimately show ?thesis using inv unfolding timer_inv_def upd_sel(1-6) by blast
qed


text \<open>The turns of the timer thread.\<close>

lemma timer_invI:
  "distinct (dev_list s) \<Longrightarrow> tcount s = to_u64 (int (ticks s)) \<Longrightarrow>
   \<forall>d\<in>set (dev_list s). gone (devs s d) \<or> alive (devs s d) \<Longrightarrow>
   timer_stop s \<longrightarrow> (\<forall>d\<in>set (dev_list s). gone (devs s d)) \<Longrightarrow>
   pc_inv (tpc s) (dev_list s) (ticks s) (devs s) \<Longrightarrow> timer_inv s"
  unfolding timer_inv_def by blast

lemma timer_invD:
  assumes "timer_inv s"
  shows "distinct (dev_list s)" "tcount s = to_u64 (int (ticks s))"
    "\<forall>d\<in>set (dev_list s). gone (devs s d) \<or> alive (devs s d)"
    "timer_stop s \<longrightarrow> (\<forall>d\<in>set (dev_list s). gone (devs s d))"
    "pc_inv (tpc s) (dev_list s) (ticks s) (devs s)"
  using assms unfolding timer_inv_def by blast+

lemma to_u64_Suc: "to_u64 (to_u64 (int k) + 1) = to_u64 (int (Suc k))"
  by (simp add: to_u64_def mod_simps add.commute)

lemma full_count: "length (filter P xs) = length xs \<longleftrightarrow> (\<forall>x\<in>set xs. P x)"
  by (metis filter_id_conv length_filter_less less_irrefl)

lemma in_step_next: "in_step k t \<Longrightarrow> t_done t \<Longrightarrow> held (Suc k) t"
  by (auto simp: in_step_def held_def)

lemma held_release: "held k t \<Longrightarrow> in_step k (t\<lparr>t_done := False\<rparr>)"
  by (auto simp: in_step_def held_def)

lemma gone_release: "gone t \<Longrightarrow> gone (t\<lparr>t_done := False\<rparr>)"
  by (simp add: gone_def)

lemma alive_release: "alive t \<Longrightarrow> alive (t\<lparr>t_done := False\<rparr>)"
  by (simp add: alive_def)

lemma gone_fsh: "gone t \<or> alive t \<Longrightarrow> t_fsh t \<longleftrightarrow> gone t"
  by (auto simp: gone_def alive_def)

lemma scan_turn:
  assumes "pc_inv (Scan (x # rest) fsh event) L k D" and "t_done (D x) \<or> t_fsh (D x)"
    and "\<forall>d\<in>set L. gone (D d) \<or> alive (D d)"
  shows "pc_inv (Scan rest (if t_fsh (D x) then fsh + 1 else fsh) (event + 1)) L k D"
proof -
  from assms(1) obtain pre where q: "L = pre @ x # rest" "event = length pre"
      "fsh = length (filter (\<lambda>d. t_fsh (D d)) pre)"
      "\<forall>d\<in>set pre. gone (D d) \<or> (in_step k (D d) \<and> t_done (D d))"
      "\<forall>d\<in>set (x # rest). gone (D d) \<or> in_step k (D d)"
    by auto
  have "gone (D x) \<or> (in_step k (D x) \<and> t_done (D x))"
    using q(1,5) assms(2,3) gone_fsh [of "D x"] by auto
  then show ?thesis using q by (auto intro!: exI [of _ "pre @ [x]"])
qed

lemma scan_end:
  assumes "pc_inv (Scan [] fsh event) L k D" and "\<forall>d\<in>set L. gone (D d) \<or> alive (D d)"
  shows "fsh = event \<longleftrightarrow> (\<forall>d\<in>set L. gone (D d))" and "pc_inv (Release L) L (Suc k) D"
proof -
  have q: "event = length L" "fsh = length (filter (\<lambda>d. t_fsh (D d)) L)"
      "\<forall>d\<in>set L. gone (D d) \<or> (in_step k (D d) \<and> t_done (D d))"
    using assms(1) by auto
  show "fsh = event \<longleftrightarrow> (\<forall>d\<in>set L. gone (D d))"
    unfolding q(1,2) full_count using assms(2) gone_fsh by blast
  have "\<forall>d\<in>set L. gone (D d) \<or> held (Suc k) (D d)" using q(3) in_step_next by blast
  then show "pc_inv (Release L) L (Suc k) D" by simp
qed

lemma release_turn:
  assumes "pc_inv (Release (x # rest)) L k D" and "distinct L"
  shows "pc_inv (Release rest) L k (D(x := (D x)\<lparr>t_done := False\<rparr>))"
proof -
  let ?D = "D(x := (D x)\<lparr>t_done := False\<rparr>)"
  from assms(1) obtain pre where q: "L = pre @ x # rest"
      "\<forall>d\<in>set pre. gone (D d) \<or> in_step k (D d)"
      "\<forall>d\<in>set (x # rest). gone (D d) \<or> held k (D d)"
    by auto
  have "gone (?D x) \<or> in_step k (?D x)" using q(3) gone_release held_release by fastforce
  moreover have "x \<notin> set pre" "x \<notin> set rest" using q(1) assms(2) by auto
  ultimately show ?thesis using q unfolding pc_inv.simps
    by (intro exI [of _ "pre @ [x]"]) auto
qed

lemma upd_devs: "devs (upd d f s) = (devs s)(d := f (devs s d))"
  by (simp add: upd_def)

lemma timer_routine_inv:
  assumes inv: "timer_inv s" and r: "timer_routine s = Some s'"
  shows "timer_inv s'"
proof (cases "tpc s")
  case (Scan rest fsh event)
  note p = timer_invD [OF inv]
  note p5 = p(5) [unfolded Scan]
  show ?thesis
  proof (cases rest)
    case Nil
    note e = scan_end [OF p5 [unfolded Nil] p(3)]
    show ?thesis
      by (rule timer_invI)
        (use r p Scan Nil e in \<open>auto simp: timer_routine_def to_u64_Suc split: if_splits\<close>)
  next
    case (Cons x xs)
    then have x: "t_done (devs s x) \<or> t_fsh (devs s x)"
        "s' = s\<lparr>tpc := Scan xs (if t_fsh (devs s x) then fsh + 1 else fsh) (event + 1)\<rparr>"
      using r Scan by (auto simp: timer_routine_def split: if_splits)
    show ?thesis
      by (rule timer_invI) (use p x(2) scan_turn [OF p5 [unfolded Cons] x(1) p(3)] in simp_all)
  qed
next
  case (Release rest)
  note p = timer_invD [OF inv]
  show ?thesis
  proof (cases rest)
    case Nil
    then have "s' = s\<lparr>tpc := Check\<rparr>" using r Release by (simp add: timer_routine_def)
    then show ?thesis using p Release Nil by (intro timer_invI) auto
  next
    case (Cons x xs)
    then have s': "s' = upd x (\<lambda>t. t\<lparr>t_done := False\<rparr>) (s\<lparr>tpc := Release xs\<rparr>)"
      using r Release by (simp add: timer_routine_def)
    note p5 = release_turn [OF p(5) [unfolded Release Cons] p(1)]
    show ?thesis
    proof (rule timer_invI)
      show "\<forall>d\<in>set (dev_list s'). gone (devs s' d) \<or> alive (devs s' d)"
        using p(3) unfolding s' by (simp add: gone_release alive_release) (metis gone_release alive_release)
      show "timer_stop s' \<longrightarrow> (\<forall>d\<in>set (dev_list s'). gone (devs s' d))"
        using p(4) unfolding s' by (simp add: gone_release)
      show "pc_inv (tpc s') (dev_list s') (ticks s') (devs s')"
        using p5 unfolding s' by (simp add: upd_devs del: upd_sel(7))
    qed (use p s' in simp_all)
  qed
next
  case Check
  note p = timer_invD [OF inv]
  have "s' = s\<lparr>tpc := (if timer_stop s then Exited else Scan (dev_list s) 0 0)\<rparr>"
    using r Check by (simp add: timer_routine_def)
  then show ?thesis using p Check by (intro timer_invI) auto
qed (use r in \<open>simp_all add: timer_routine_def\<close>)


section \<open>Reachable states\<close>

lemma attach_n_state:
  "timer_started s = False \<Longrightarrow> dev_list s = rev [0..<m] \<Longrightarrow>
   dev_list (attach_n n s) = rev [0..<m + n] \<and> timer_started (attach_n n s) = False \<and>
   (\<forall>d. devs s d = fresh_dev \<longrightarrow> devs (attach_n n s) d = fresh_dev) \<and>
   tcount (attach_n n s) = tcount s \<and> ticks (attach_n n s) = ticks s \<and> timer_stop (attach_n n s) = timer_stop s"
proof (induction n arbitrary: s m)
  case (Suc n)
  have "dev_list (snd (attach_event s)) = rev [0..<Suc m]" using Suc.prems by (simp add: attach_event_def)
  from Suc.IH [OF _ this] Suc.prems show ?case by (simp add: attach_event_def Let_def)
qed simp

lemma timer_init_simps [simp]:
  "dev_list (timer_init n) = rev [0..<n]" "devs (timer_init n) d = fresh_dev"
  "tcount (timer_init n) = 0" "ticks (timer_init n) = 0" "tpc (timer_init n) = Check"
  "timer_stop (timer_init n) = False" "timer_started (timer_init n) = True"
  using attach_n_state [of timer0 0 n] by (simp_all add: timer_init_def start_timer_def timer0_def)

lemma timer_init_inv: "timer_inv (timer_init n)"
  by (rule timer_invI) (auto simp: to_u64_def alive_def in_step_def fresh_dev_def)

lemma tstep_inv: "tstep s s' \<Longrightarrow> timer_inv s \<Longrightarrow> timer_inv s'"
proof (induction rule: tstep.induct)
  case (finish d s)
  then show ?case unfolding next_slot_done_def by (intro dev_move_inv dev_move.intros)
next
  case (enter d s s')
  then have "s' = upd d (\<lambda>t. t\<lparr>t_place := Running, t_slots := t_slots t + 1\<rparr>) s" "\<not> t_done (devs s d)"
    by (auto simp: next_slot_enter_def split: if_splits)
  then show ?case using enter by (simp only:) (intro dev_move_inv dev_move.intros)
next
  case (detach d s)
  then show ?case unfolding detach_event_def by (intro dev_move_inv dev_move.intros)
next
  case (tick s s')
  then show ?case by (blast intro: timer_routine_inv)
next
  case (stop s)
  then have "\<forall>d\<in>set (dev_list s). gone (devs s d)"
    using timer_invD(3) alive_def by blast
  then show ?case using timer_invD [OF stop.prems]
    by (intro timer_invI) (simp_all add: stop_timer_flag_def)
qed

lemma reach_inv: "reach n s \<Longrightarrow> timer_inv s"
  by (induction rule: reach.induct) (auto intro: timer_init_inv tstep_inv)

lemma tstep_dev_list: "tstep s s' \<Longrightarrow> dev_list s' = dev_list s"
  by (induction rule: tstep.induct)
    (auto simp: next_slot_done_def next_slot_enter_def detach_event_def stop_timer_flag_def timer_routine_def
       split: if_splits timer_pc.splits list.splits)

lemma reach_dev_list: "reach n s \<Longrightarrow> dev_list s = rev [0..<n]"
  by (induction rule: reach.induct) (simp_all add: tstep_dev_list)

lemma pc_inv_slots:
  assumes "pc_inv pc L k D" and "d \<in> set L" and "alive (D d)"
  shows "t_slots (D d) = k \<or> (t_slots (D d) + 1 = k \<and> t_place (D d) = Blocked)"
    and "t_place (D d) = Running \<Longrightarrow> t_slots (D d) = k"
  using assms by (cases pc; auto simp: in_step_def held_def gone_def alive_def)+

section \<open>Properties\<close>

text \<open>C21: The timer is a barrier, whatever the interleaving of the threads: two devices that have not
  detached are never more than one slot apart, and the one that is behind has finished its slot and waits.\<close>
theorem timer_barrier:
  assumes "reach n s" and "d < n" and "e < n"
    and "t_place (devs s d) \<noteq> Detached" and "t_place (devs s e) \<noteq> Detached"
  shows "t_slots (devs s d) \<le> t_slots (devs s e) + 1 \<and>
    (t_slots (devs s d) = t_slots (devs s e) + 1 \<longrightarrow> t_place (devs s e) = Blocked)"
proof -
  note i = timer_invD [OF reach_inv [OF assms(1)]]
  have m: "d \<in> set (dev_list s)" "e \<in> set (dev_list s)" using assms reach_dev_list by auto
  then have "alive (devs s d)" "alive (devs s e)" using assms i(3) by (auto simp: gone_def)
  from pc_inv_slots(1) [OF i(5) m(1) this(1)] pc_inv_slots(1) [OF i(5) m(2) this(2)]
  show ?thesis by linarith
qed

text \<open>A running device reads the same time for as long as it works in a slot: \<open>current_time\<close> is the number
  of slots the device has entered, modulo the width of the counter.\<close>
theorem running_device_reads_its_slot:
  assumes "reach n s" and "d < n" and "t_place (devs s d) = Running"
  shows "current_time s = to_u64 (int (t_slots (devs s d)))"
proof -
  note i = timer_invD [OF reach_inv [OF assms(1)]]
  have m: "d \<in> set (dev_list s)" using assms reach_dev_list by auto
  then have "alive (devs s d)" using assms i(3) by (auto simp: gone_def)
  from pc_inv_slots(2) [OF i(5) m this assms(3)] i(2) show ?thesis by (simp add: current_time_def)
qed

text \<open>A timer thread that waits is waiting for a device that can go on.\<close>

lemma waiting_timer:
  assumes "reach n s" and "tpc s \<noteq> Exited" and "timer_routine s = None"
  shows "\<exists>d<n. t_place (devs s d) = Running \<or>
    (t_place (devs s d) = Blocked \<and> next_slot_enter d s \<noteq> None)"
proof -
  note i = timer_invD [OF reach_inv [OF assms(1)]]
  obtain x rest fsh event where pc: "tpc s = Scan (x # rest) fsh event"
      and x: "\<not> t_done (devs s x)" "\<not> t_fsh (devs s x)"
    using assms(2,3) i(5) by (auto simp: timer_routine_def split: timer_pc.splits list.splits if_splits)
  have "x \<in> set (dev_list s)" "gone (devs s x) \<or> in_step (ticks s) (devs s x)"
    using i(5) unfolding pc by auto
  then have "x < n" "t_place (devs s x) = Running \<or> t_place (devs s x) = Blocked"
    using x reach_dev_list [OF assms(1)] by (auto simp: gone_def in_step_def)
  then show ?thesis using x by (auto simp: next_slot_enter_def)
qed

text \<open>The barrier cannot deadlock: when the timer thread waits and has not ended, some device is running
  or is blocked with its flag already cleared, so that it can enter its slot.\<close>
theorem timer_no_deadlock:
  assumes "reach n s" and "tpc s \<noteq> Exited" and "timer_routine s = None"
  shows "\<exists>d<n. t_place (devs s d) = Running \<or>
    (t_place (devs s d) = Blocked \<and> next_slot_enter d s \<noteq> None)"
  using assms by (rule waiting_timer)

text \<open>C33: The timer thread ends only after every device has detached, so \<open>stop_timer\<close> never frees a container
  that a processor or the loader still uses.\<close>
theorem timer_exit_after_detach:
  assumes "reach n s" and "stop_timer_free s = Some s'" and "d < n"
  shows "t_place (devs s d) = Detached \<and> t_fsh (devs s d) \<and> dev_list s' = []"
proof -
  note i = timer_invD [OF reach_inv [OF assms(1)]]
  have "tpc s = Exited" "dev_list s' = []" using assms(2) by (auto simp: stop_timer_free_def split: if_splits)
  then show ?thesis using i(5) assms(3) reach_dev_list [OF assms(1)] by (auto simp: gone_def)
qed


section \<open>One round of the timer thread\<close>

fun timer_turns :: "nat \<Rightarrow> timer_t \<Rightarrow> timer_t option" where
  "timer_turns 0 s = Some s"
| "timer_turns (Suc k) s = (case timer_routine s of None \<Rightarrow> None | Some s' \<Rightarrow> timer_turns k s')"

lemma timer_turns_add:
  "timer_turns j s = Some s' \<Longrightarrow> timer_turns (j + k) s = timer_turns k s'"
  by (induction j arbitrary: s) (auto split: option.splits)

lemma scan_turns:
  "tpc s = Scan rest f e \<Longrightarrow> \<forall>d\<in>set rest. t_done (devs s d) \<or> t_fsh (devs s d) \<Longrightarrow>
   timer_turns (length rest) s =
     Some (s\<lparr>tpc := Scan [] (f + length (filter (\<lambda>d. t_fsh (devs s d)) rest)) (e + length rest)\<rparr>)"
  by (induction rest arbitrary: s f e) (auto simp: timer_routine_def)

lemma release_turns:
  "tpc s = Release rest \<Longrightarrow> timer_turns (length rest) s =
     Some (s\<lparr>tpc := Release [], devs := (\<lambda>d. if d \<in> set rest then (devs s d)\<lparr>t_done := False\<rparr> else devs s d)\<rparr>)"
proof (induction rest arbitrary: s)
  case Nil
  then show ?case by simp
next
  case (Cons x xs)
  let ?s = "upd x (\<lambda>t. t\<lparr>t_done := False\<rparr>) (s\<lparr>tpc := Release xs\<rparr>)"
  have "timer_turns (length (x # xs)) s = timer_turns (length xs) ?s"
    using Cons.prems by (simp add: timer_routine_def)
  moreover have "tpc ?s = Release xs" by simp
  ultimately show ?case using Cons.IH [of ?s] by (auto simp: upd_def fun_eq_iff)
qed

lemma check_scan_turns:
  assumes "tpc s = Check" and "\<not> timer_stop s"
    and "\<forall>d\<in>set (dev_list s). t_done (devs s d) \<or> t_fsh (devs s d)"
  shows "timer_turns (Suc (length (dev_list s))) s =
    Some (s\<lparr>tpc := Scan [] (length (filter (\<lambda>d. t_fsh (devs s d)) (dev_list s))) (length (dev_list s))\<rparr>)"
  using assms scan_turns [of "s\<lparr>tpc := Scan (dev_list s) 0 0\<rparr>" "dev_list s" 0 0]
  by (simp add: timer_routine_def)

text \<open>When every device has reported its slot done or detached, and one is still attached, the timer thread
  does not wait: after \<open>2 * n + 3\<close> turns it has advanced the time by one (modulo \<open>2\<^sup>6\<^sup>4\<close>), has cleared
  the flag of every device and looks at the devices again; nothing else has changed.\<close>
theorem timer_round:
  assumes "tpc s = Check" and "\<not> timer_stop s"
    and "\<forall>d\<in>set (dev_list s). t_done (devs s d) \<or> t_fsh (devs s d)"
    and "d \<in> set (dev_list s)" and "\<not> t_fsh (devs s d)"
  shows "timer_turns (2 * length (dev_list s) + 3) s =
    Some (s\<lparr>tcount := to_u64 (tcount s + 1), ticks := ticks s + 1,
      devs := (\<lambda>e. if e \<in> set (dev_list s) then (devs s e)\<lparr>t_done := False\<rparr> else devs s e)\<rparr>)"
proof -
  let ?L = "dev_list s"
  let ?f = "length (filter (\<lambda>d. t_fsh (devs s d)) ?L)"
  let ?s1 = "s\<lparr>tpc := Scan [] ?f (length ?L)\<rparr>"
  let ?s2 = "s\<lparr>tcount := to_u64 (tcount s + 1), ticks := ticks s + 1, tpc := Release ?L\<rparr>"
  have ne: "?f \<noteq> length ?L" using assms(4,5) unfolding full_count by blast
  have t1: "timer_turns (Suc (length ?L)) s = Some ?s1" by (rule check_scan_turns [OF assms(1-3)])
  have t2: "timer_turns (Suc 0) ?s1 = Some ?s2" using ne by (simp add: timer_routine_def)
  let ?s3 = "?s2\<lparr>tpc := Release [],
      devs := (\<lambda>e. if e \<in> set ?L then (devs s e)\<lparr>t_done := False\<rparr> else devs s e)\<rparr>"
  have t3: "timer_turns (length ?L) ?s2 = Some ?s3" using release_turns [of ?s2 ?L] by (simp cong: if_cong)
  have "timer_turns (Suc (length ?L) + (Suc 0 + (length ?L + Suc 0))) s = timer_turns (Suc 0) ?s3"
    unfolding timer_turns_add [OF t1] timer_turns_add [OF t2] timer_turns_add [OF t3] ..
  also have "\<dots> = Some (?s3\<lparr>tpc := Check\<rparr>)" by (simp add: timer_routine_def)
  finally show ?thesis using assms(1) by (simp add: mult_2 eval_nat_numeral)
qed

section \<open>Witnesses\<close>

datatype act = Finish nat | Enter nat | Detach nat | Tick

definition do_act :: "act \<Rightarrow> timer_t \<Rightarrow> timer_t option" where
  "do_act a s =
    (case a of
       Finish d \<Rightarrow> if d \<in> set (dev_list s) \<and> t_place (devs s d) = Running then Some (next_slot_done d s) else None
     | Enter d \<Rightarrow> if d \<in> set (dev_list s) \<and> t_place (devs s d) = Blocked then next_slot_enter d s else None
     | Detach d \<Rightarrow> if d \<in> set (dev_list s) \<and> t_place (devs s d) = Running then Some (detach_event d s) else None
     | Tick \<Rightarrow> timer_routine s)"

fun do_acts :: "act list \<Rightarrow> timer_t \<Rightarrow> timer_t option" where
  "do_acts [] s = Some s"
| "do_acts (a # as) s = (case do_act a s of None \<Rightarrow> None | Some s' \<Rightarrow> do_acts as s')"

lemma do_act_step: "do_act a s = Some s' \<Longrightarrow> tstep s s'"
  by (cases a) (auto simp: do_act_def intro: tstep.intros split: if_splits)

lemma do_acts_reach: "do_acts as s = Some s' \<Longrightarrow> reach n s \<Longrightarrow> reach n s'"
  by (induction "as" arbitrary: s) (auto split: option.splits dest!: do_act_step intro: reach.more)

lemma sample_reach: "do_acts as (timer_init n) \<noteq> None \<Longrightarrow> reach n (the (do_acts as (timer_init n)))"
  by (auto intro: do_acts_reach reach.init)

definition one_ahead :: timer_t where
  "one_ahead = the (do_acts [Finish 0, Finish 1, Tick, Tick, Tick, Tick, Tick, Tick, Enter 1] (timer_init 2))"

definition all_ended :: timer_t where
  "all_ended = the (do_acts [Detach 0, Detach 1, Tick, Tick, Tick, Tick] (timer_init 2))"

lemma sample_reach_ahead: "reach 2 one_ahead"
  unfolding one_ahead_def by (rule sample_reach) code_simp

lemma sample_reach_ended: "reach 2 all_ended"
  unfolding all_ended_def by (rule sample_reach) code_simp

theorem timer_barrier_witness:
  "t_slots (devs one_ahead 1) = 1 \<and> t_slots (devs one_ahead 0) = 0 \<and> t_place (devs one_ahead 0) = Blocked"
proof -
  have c: "t_slots (devs one_ahead 1) = 1" "t_slots (devs one_ahead 0) = 0"
      "t_place (devs one_ahead 1) \<noteq> Detached" "t_place (devs one_ahead 0) \<noteq> Detached"
    by code_simp+
  from timer_barrier [OF sample_reach_ahead, of 1 0] c show ?thesis by simp
qed

theorem running_device_reads_its_slot_witness:
  "current_time one_ahead = to_u64 (int (t_slots (devs one_ahead 1)))"
  by (rule running_device_reads_its_slot [OF sample_reach_ahead]) (simp, code_simp)

theorem timer_no_deadlock_witness:
  "\<exists>d<2. t_place (devs (the (do_acts [Tick] (timer_init 2))) d) = Running \<or>
    (t_place (devs (the (do_acts [Tick] (timer_init 2))) d) = Blocked \<and>
     next_slot_enter d (the (do_acts [Tick] (timer_init 2))) \<noteq> None)"
  by (rule timer_no_deadlock [OF sample_reach])
    (simp_all add: do_act_def timer_routine_def eval_nat_numeral fresh_dev_def)

theorem timer_exit_after_detach_witness:
  "t_place (devs all_ended 0) = Detached \<and> t_fsh (devs all_ended 0) \<and> dev_list (all_ended\<lparr>dev_list := []\<rparr>) = []"
proof (rule timer_exit_after_detach [OF sample_reach_ended])
  have "tpc all_ended = Exited" by code_simp
  then show "stop_timer_free all_ended = Some (all_ended\<lparr>dev_list := []\<rparr>)" by (simp add: stop_timer_free_def)
qed simp

theorem timer_round_witness:
  "timer_turns 5 (the (do_acts [Finish 0] (timer_init 1))) =
    Some ((the (do_acts [Finish 0] (timer_init 1)))\<lparr>tcount := 1, ticks := 1,
      devs := (\<lambda>e. if e = 0 then fresh_dev\<lparr>t_place := Blocked\<rparr> else fresh_dev)\<rparr>)"
proof -
  let ?s = "the (do_acts [Finish 0] (timer_init 1))"
  have s: "?s = upd 0 (\<lambda>t. t\<lparr>t_done := True, t_place := Blocked\<rparr>) (timer_init 1)"
    by (simp add: do_act_def next_slot_done_def fresh_dev_def)
  show ?thesis
    using timer_round [of ?s 0] unfolding s
    by (simp add: fresh_dev_def to_u64_def fun_eq_iff if_distrib [of "\<lambda>t. t\<lparr>t_done := False\<rparr>"] cong: if_cong)
qed

end
