(* ===== verification/Loader.thy ===== *)
theory Loader imports Kernel_Types "HOL-Library.Char_ord" begin

text \<open>
  The loader \<^verbatim>\<open>src/loader.c\<close>: a process description file (a string here) becomes a process control
  block.  \<open>scanf\<close> conversions are modelled on the rest of the input.  What \<open>malloc\<close> hands out is a
  parameter: \<open>pcb0\<close> for the block, \<open>text0 i\<close> for the instruction cell \<open>i\<close>; a field the loader does
  not write keeps the value it has there.  \<open>exit(1)\<close> is the result \<open>Exits 1\<close>.

  The lemmas show that loading the written form of a program gives the program back.
\<close>

section \<open>Results\<close>

datatype 'a exec = Exits int | Returns 'a

section \<open>Scanning\<close>

definition is_ws :: "char \<Rightarrow> bool" where
  "is_ws ch \<longleftrightarrow> ch \<in> {CHR '' '', CHR 0x09, CHR 0x0A, CHR 0x0B, CHR 0x0C, CHR 0x0D}"

definition is_dig :: "char \<Rightarrow> bool" where
  "is_dig ch \<longleftrightarrow> (48 :: nat) \<le> of_char ch \<and> of_char ch \<le> (57 :: nat)"

definition skip_ws :: "string \<Rightarrow> string" where
  "skip_ws s = dropWhile is_ws s"

definition dig_val :: "string \<Rightarrow> int" where
  "dig_val ds = fold (\<lambda>ch v. v * 10 + (of_char ch - 48)) ds 0"

text \<open>\<open>%s\<close>: a word, or nothing at the end of the input.\<close>

definition scan_word :: "string \<Rightarrow> (string \<times> string) option" where
  "scan_word s =
    (let s1 = skip_ws s; w = takeWhile (\<lambda>ch. \<not> is_ws ch) s1 in
     if w = [] then None else Some (w, dropWhile (\<lambda>ch. \<not> is_ws ch) s1))"

text \<open>A decimal number with an optional sign.\<close>

definition scan_num :: "string \<Rightarrow> (int \<times> string) option" where
  "scan_num s =
    (let s1 = skip_ws s;
         neg = (case s1 of ch # _ \<Rightarrow> ch = CHR ''-'' | [] \<Rightarrow> False);
         s2 = (case s1 of ch # cs \<Rightarrow> if ch = CHR ''-'' \<or> ch = CHR ''+'' then cs else s1 | [] \<Rightarrow> []);
         ds = takeWhile is_dig s2
     in if ds = [] then None
        else Some (if neg then - dig_val ds else dig_val ds, dropWhile is_dig s2))"

text \<open>\<open>%u\<close> and \<open>%d\<close> convert through \<open>unsigned long\<close> and \<open>long\<close>; both are stored in a \<open>uint32_t\<close>.\<close>

definition conv_u :: "int \<Rightarrow> int" where
  "conv_u v = to_u32 (if \<bar>v\<bar> > 18446744073709551615 then 18446744073709551615 else v)"

definition conv_d :: "int \<Rightarrow> int" where
  "conv_d v = to_u32 (max (-9223372036854775808) (min 9223372036854775807 v))"

text \<open>Up to \<open>n\<close> conversions, stopping at the first failure.\<close>

fun scan_nums :: "(int \<Rightarrow> int) \<Rightarrow> nat \<Rightarrow> string \<Rightarrow> int list \<times> string" where
  "scan_nums conv 0 s = ([], s)"
| "scan_nums conv (Suc n) s =
    (case scan_num s of
       None \<Rightarrow> ([], skip_ws s)
     | Some (v, s') \<Rightarrow> (case scan_nums conv n s' of (vs, s'') \<Rightarrow> (conv v # vs, s'')))"

text \<open>A format \<open>"%u .. %u\n"\<close>: its final newline skips white space when all conversions succeeded.\<close>

definition scan_args :: "nat \<Rightarrow> string \<Rightarrow> int list \<times> string" where
  "scan_args n s =
    (case scan_nums conv_u n s of (vs, s') \<Rightarrow> (vs, if length vs = n then skip_ws s' else s'))"

text \<open>\<open>fgets(buf, 200, file)\<close>: at most 199 characters, up to and including a newline.\<close>

definition fgets :: "nat \<Rightarrow> string \<Rightarrow> (string \<times> string) option" where
  "fgets n s =
    (if s = [] then None
     else
       let body = takeWhile (\<lambda>ch. ch \<noteq> CHR 0x0A) (take (n - 1) s);
           line = take (Suc (length body)) (take (n - 1) s)
       in Some (line, drop (length line) s))"

section \<open>The loader\<close>

definition get_opcode :: "string \<Rightarrow> ins_opcode_t option" where
  "get_opcode opt =
    (if opt = ''calc'' then Some CALC
     else if opt = ''alloc'' then Some ALLOC
     else if opt = ''free'' then Some FREE
     else if opt = ''read'' then Some READ
     else if opt = ''write'' then Some WRITE
     else if opt = ''syscall'' then Some SYSCALL
     else None)"

fun set_args :: "int list \<Rightarrow> inst_t \<Rightarrow> inst_t" where
  "set_args [] i = i"
| "set_args [a] i = i\<lparr>arg_0 := a\<rparr>"
| "set_args [a, b] i = i\<lparr>arg_0 := a, arg_1 := b\<rparr>"
| "set_args [a, b, c] i = i\<lparr>arg_0 := a, arg_1 := b, arg_2 := c\<rparr>"
| "set_args (a # b # c # d # _) i = i\<lparr>arg_0 := a, arg_1 := b, arg_2 := c, arg_3 := d\<rparr>"

text \<open>
  Reading the operands of one instruction.  When the line of a system call is missing, \<open>buf\<close> keeps
  what it held: the operands of the system call before (\<open>buf\<close> is then scanned again), or garbage.
\<close>

definition load_args :: "ins_opcode_t \<Rightarrow> string option \<Rightarrow> string \<Rightarrow> (int list \<times> string option \<times> string) res" where
  "load_args op buf s =
    (case op of
       CALC \<Rightarrow> Inr ([], buf, s)
     | ALLOC \<Rightarrow> (case scan_args 2 s of (vs, s') \<Rightarrow> Inr (vs, buf, s'))
     | FREE \<Rightarrow> (case scan_args 1 s of (vs, s') \<Rightarrow> Inr (vs, buf, s'))
     | READ \<Rightarrow> (case scan_args 3 s of (vs, s') \<Rightarrow> Inr (vs, buf, s'))
     | WRITE \<Rightarrow> (case scan_args 3 s of (vs, s') \<Rightarrow> Inr (vs, buf, s'))
     | SYSCALL \<Rightarrow>
         (case fgets 200 s of
            None \<Rightarrow> (case buf of None \<Rightarrow> Inl UninitRead | Some l \<Rightarrow> Inr (fst (scan_nums conv_d 4 l), buf, s))
          | Some (l, s') \<Rightarrow> Inr (fst (scan_nums conv_d 4 l), Some l, s')))"

text \<open>
  The loop over the instructions: \<open>n\<close> still to read, from index \<open>i\<close>.  \<open>opcode\<close> has ten cells; at the
  end of the input it keeps its last value.
\<close>

fun load_text :: "(nat \<Rightarrow> inst_t) \<Rightarrow> nat \<Rightarrow> nat \<Rightarrow> string option \<Rightarrow> string option \<Rightarrow> string \<Rightarrow>
    inst_t list exec res" where
  "load_text text0 0 i opc buf s = Inr (Returns [])"
| "load_text text0 (Suc n) i opc buf s =
    (case (case scan_word s of Some (w, s') \<Rightarrow> (Some w, s') | None \<Rightarrow> (opc, [])) of
       (None, _) \<Rightarrow> Inl UninitRead
     | (Some w, s') \<Rightarrow>
         if 10 \<le> length w then Inl OutOfBounds
         else
           case get_opcode w of
             None \<Rightarrow> Inr (Exits 1)
           | Some op \<Rightarrow>
               bindR (load_args op buf s') (\<lambda>(vs, buf', s'').
               bindR (load_text text0 n (Suc i) (Some w) buf' s'') (\<lambda>r.
                 case r of
                   Exits e \<Rightarrow> Inr (Exits e)
                 | Returns is \<Rightarrow> Inr (Returns (set_args vs ((text0 i)\<lparr>opcode := op\<rparr>) # is)))))"

text \<open>\<open>snprintf(proc->path, 2 * sizeof(path) + 1, ..)\<close>: \<open>path\<close> is a pointer, so 16 characters are kept.\<close>

definition stored_path :: "string \<Rightarrow> string" where
  "stored_path p = take 16 p"

text \<open>
  \<open>load\<close> with the process number \<open>avail_pid\<close>; \<open>file\<close> is \<open>None\<close> when the file cannot be opened.
  The number of the next process is returned too.
\<close>

definition load :: "pcb_t \<Rightarrow> (nat \<Rightarrow> inst_t) \<Rightarrow> int \<Rightarrow> string \<Rightarrow> string option \<Rightarrow> (pcb_t exec \<times> int) res" where
  "load pcb0 text0 avail_pid fname file =
    (case file of
       None \<Rightarrow> Inr (Exits 1, to_u32 (avail_pid + 1))
     | Some s \<Rightarrow>
         (case scan_nums conv_u 2 s of
            ([prio0, sz], s') \<Rightarrow>
              bindR (load_text text0 (nat sz) 0 None None s') (\<lambda>r.
                Inr (case r of
                       Exits e \<Rightarrow> Exits e
                     | Returns is \<Rightarrow>
                         Returns (pcb0\<lparr>pid := avail_pid, bp := 1024, pc := 0, path := stored_path fname,
                           priority := prio0, code := \<lparr>c_text = is, c_size = nat sz\<rparr>\<rparr>),
                     to_u32 (avail_pid + 1)))
          | _ \<Rightarrow> Inl UninitRead))"

section \<open>What a loaded process is\<close>

lemma exec_bind_Returns:
  "(case r of Exits e \<Rightarrow> Inr (Exits e) | Returns xs \<Rightarrow> Inr (Returns (f xs))) = Inr (Returns y) \<longleftrightarrow>
     (\<exists>xs. r = Returns xs \<and> y = f xs)"
  by (cases r) auto

lemma length_load_text:
  "load_text text0 n i opc buf s = Inr (Returns js) \<Longrightarrow> length js = n"
proof (induction n arbitrary: i opc buf s js)
  case (Suc n)
  then show ?case
    by (auto simp: bindR_eq_Inr exec_bind_Returns split: option.splits prod.splits if_splits)
qed simp

lemma load_Returns:
  assumes "load pcb0 text0 n fname src = Inr (Returns b, n')"
  obtains t js where "b = pcb0\<lparr>pid := n, bp := 1024, pc := 0, path := stored_path fname,
      priority := t, code := \<lparr>c_text = js, c_size = length js\<rparr>\<rparr>"
    "\<And>k. load pcb0 text0 k fname src = Inr (Returns (b\<lparr>pid := k\<rparr>), to_u32 (k + 1))"
proof -
  from assms obtain s where f: "src = Some s" by (cases src) (auto simp: load_def)
  obtain vs s' where v: "scan_nums conv_u 2 s = (vs, s')" by (cases "scan_nums conv_u 2 s")
  from assms f v obtain a c where vs: "vs = [a, c]" by (auto simp: load_def split: list.splits)
  with assms f v obtain r where r: "load_text text0 (nat c) 0 None None s' = Inr r"
    by (auto simp: load_def bindR_eq_Inr)
  show thesis
  proof (cases r)
    case (Exits e)
    with assms f v vs r show thesis by (simp add: load_def)
  next
    case (Returns js)
    with length_load_text r have "length js = nat c" by blast
    with assms f v vs r Returns that [where t = a and js = js] show thesis by (auto simp: load_def)
  qed
qed

section \<open>The written form of a program\<close>

function show_nat :: "nat \<Rightarrow> string" where
  "show_nat n = (if n < 10 then [char_of (48 + n)] else show_nat (n div 10) @ [char_of (48 + n mod 10)])"
  by pat_completeness auto
termination by (relation "measure id") auto

declare show_nat.simps [simp del]

definition opcode_word :: "ins_opcode_t \<Rightarrow> string" where
  "opcode_word op =
    (case op of CALC \<Rightarrow> ''calc'' | ALLOC \<Rightarrow> ''alloc'' | FREE \<Rightarrow> ''free'' | READ \<Rightarrow> ''read''
     | WRITE \<Rightarrow> ''write'' | SYSCALL \<Rightarrow> ''syscall'')"

definition operands :: "inst_t \<Rightarrow> int list" where
  "operands i =
    (case opcode i of CALC \<Rightarrow> [] | ALLOC \<Rightarrow> [arg_0 i, arg_1 i] | FREE \<Rightarrow> [arg_0 i]
     | READ \<Rightarrow> [arg_0 i, arg_1 i, arg_2 i] | WRITE \<Rightarrow> [arg_0 i, arg_1 i, arg_2 i]
     | SYSCALL \<Rightarrow> [arg_0 i, arg_1 i, arg_2 i, arg_3 i])"

definition show_ins :: "inst_t \<Rightarrow> string" where
  "show_ins i = opcode_word (opcode i) @ concat (map (\<lambda>a. CHR '' '' # show_nat (nat a)) (operands i)) @ [CHR 0x0A]"

definition show_prog :: "int \<Rightarrow> inst_t list \<Rightarrow> string" where
  "show_prog pr is = show_nat (nat pr) @ CHR '' '' # show_nat (length is) @ CHR 0x0A # concat (map show_ins is)"

section \<open>Numbers\<close>

lemma digit_char:
  assumes "d < 10"
  shows "is_dig (char_of (48 + d :: nat))" "(of_char (char_of (48 + d :: nat)) :: int) = 48 + int d"
proof -
  have n: "(of_char (char_of (48 + d)) :: nat) = 48 + d" using assms by (simp add: of_char_of)
  then show "is_dig (char_of (48 + d :: nat))" using assms by (simp add: is_dig_def)
  have "(of_char c :: int) = int (of_char c)" for c :: char by (simp add: of_nat_of_char)
  then show "(of_char (char_of (48 + d :: nat)) :: int) = 48 + int d" using n by (metis of_nat_add of_nat_numeral)
qed

lemma show_nat_digits: "(\<forall>ch\<in>set (show_nat n). is_dig ch) \<and> show_nat n \<noteq> []"
proof (induction n rule: show_nat.induct)
  case (1 n)
  then show ?case by (subst (1 2) show_nat.simps) (auto simp: digit_char(1))
qed

lemma dig_val_snoc: "dig_val (ds @ [ch]) = dig_val ds * 10 + (of_char ch - 48)"
  by (simp add: dig_val_def)

lemma dig_val_show_nat: "dig_val (show_nat n) = int n"
proof (induction n rule: show_nat.induct)
  case (1 n)
  show ?case
  proof (cases "n < 10")
    case True
    then show ?thesis by (subst show_nat.simps) (simp add: dig_val_def digit_char(2))
  next
    case False
    have "dig_val (show_nat n) = int (n div 10) * 10 + int (n mod 10)"
      using False 1 by (subst show_nat.simps) (simp add: dig_val_snoc digit_char(2) del: of_nat_mod of_nat_div)
    also have "\<dots> = int n" by (metis div_mult_mod_eq of_nat_add of_nat_mult of_nat_numeral)
    finally show ?thesis .
  qed
qed

lemma length_show_nat: "n < 10 ^ Suc k \<Longrightarrow> length (show_nat n) \<le> Suc k"
proof (induction k arbitrary: n)
  case 0
  then show ?case by (subst show_nat.simps) simp
next
  case (Suc k)
  then have "n div 10 < 10 ^ Suc k" by (simp add: div_less_iff_less_mult mult.commute)
  from Suc.IH [OF this] show ?case by (subst show_nat.simps) simp
qed

lemma is_dig_not: "is_dig ch \<Longrightarrow> \<not> is_ws ch \<and> ch \<noteq> CHR ''-'' \<and> ch \<noteq> CHR ''+'' \<and> ch \<noteq> CHR 0x0A \<and> ch \<noteq> CHR '' ''"
  by (auto simp: is_dig_def is_ws_def)

definition stops :: "string \<Rightarrow> bool" where
  "stops s \<longleftrightarrow> (case s of [] \<Rightarrow> True | ch # _ \<Rightarrow> \<not> is_dig ch)"

lemma scan_num_show_nat:
  assumes "\<forall>ch\<in>set w. is_ws ch" and "stops rest"
  shows "scan_num (w @ show_nat n @ rest) = Some (int n, rest)"
proof -
  obtain ch ds where d: "show_nat n = ch # ds" using show_nat_digits [of n] by (cases "show_nat n") auto
  have dig: "\<forall>x\<in>set (show_nat n). is_dig x" using show_nat_digits by blast
  with d have ch: "is_dig ch" by simp
  have s1: "skip_ws (w @ show_nat n @ rest) = show_nat n @ rest"
    using assms(1) is_dig_not [OF ch] by (simp add: skip_ws_def dropWhile_append d)
  have tw: "takeWhile is_dig (show_nat n @ rest) = show_nat n"
    using dig assms(2) by (cases rest) (auto simp: takeWhile_append stops_def)
  have dw: "dropWhile is_dig (show_nat n @ rest) = rest"
    using dig assms(2) by (cases rest) (auto simp: dropWhile_append stops_def)
  show ?thesis
    using tw dw is_dig_not [OF ch] show_nat_digits [of n] dig_val_show_nat [of n] by (simp add: scan_num_def s1 Let_def) (simp add: d)
qed

text \<open>The text of a list of operands.\<close>

definition args_text :: "int list \<Rightarrow> string" where
  "args_text as = concat (map (\<lambda>a. CHR '' '' # show_nat (nat a)) as)"

lemma stops_args_text: "stops rest \<Longrightarrow> stops (args_text as @ rest)"
  by (cases as) (auto simp: args_text_def stops_def is_dig_def)

lemma scan_nums_args_text:
  assumes "\<forall>a\<in>set as. 0 \<le> a \<and> conv a = a" and "stops rest"
  shows "scan_nums conv (length as) (args_text as @ rest) = (as, rest)"
  using assms
proof (induction as)
  case Nil
  then show ?case by (simp add: args_text_def)
next
  case (Cons a as)
  have "args_text (a # as) @ rest = [CHR '' ''] @ show_nat (nat a) @ (args_text as @ rest)"
    by (simp add: args_text_def)
  moreover have "scan_num ([CHR '' ''] @ show_nat (nat a) @ (args_text as @ rest)) = Some (int (nat a), args_text as @ rest)"
    using Cons.prems by (intro scan_num_show_nat stops_args_text) (auto simp: is_ws_def)
  ultimately show ?case using Cons by simp
qed

lemma conv_u32: "0 \<le> a \<Longrightarrow> a < 4294967296 \<Longrightarrow> conv_u a = a \<and> conv_d a = a"
  by (simp add: conv_u_def conv_d_def to_u32_id)

lemma args_text_line: "CHR 0x0A \<notin> set (args_text as)"
proof -
  have "is_dig ch \<or> ch = CHR '' ''" if "ch \<in> set (args_text as)" for ch
    using that show_nat_digits by (fastforce simp: args_text_def split: if_splits)
  moreover have "\<not> is_dig (CHR 0x0A)" by (simp add: is_dig_def)
  ultimately show ?thesis by fastforce
qed

lemma length_args_text: "\<forall>a\<in>set as. a < 4294967296 \<Longrightarrow> length (args_text as) \<le> 11 * length as"
proof (induction as)
  case (Cons a as)
  then have "nat a < 4294967296" by auto
  then have "nat a < 10 ^ Suc 9" by simp
  from length_show_nat [OF this] Cons show ?case by (simp add: args_text_def)
qed (simp add: args_text_def)

section \<open>Instructions\<close>

lemma skip_ws_idem [simp]: "skip_ws (skip_ws s) = skip_ws s"
  by (simp add: skip_ws_def)

lemma skip_ws_cons: "skip_ws (ch # s) = (if is_ws ch then skip_ws s else ch # s)"
  by (simp add: skip_ws_def)

lemma scan_word_skip: "scan_word s = scan_word (skip_ws s)"
  by (simp add: scan_word_def Let_def)

text \<open>The words of the instructions: short, without white space, and recognised.\<close>

lemma opcode_word_facts:
  "\<forall>ch\<in>set (opcode_word op). \<not> is_ws ch" "opcode_word op \<noteq> []" "length (opcode_word op) < 10"
  "get_opcode (opcode_word op) = Some op"
  by (cases op; simp add: opcode_word_def is_ws_def get_opcode_def)+

lemma scan_word_opcode:
  assumes "is_ws ch"
  shows "scan_word (opcode_word op @ ch # s) = Some (opcode_word op, ch # s)"
proof -
  note w = opcode_word_facts [of op]
  obtain x xs where x: "opcode_word op = x # xs" using w(2) by (cases "opcode_word op") auto
  have s: "skip_ws (opcode_word op @ ch # s) = opcode_word op @ ch # s"
    using w(1) x by (simp add: skip_ws_cons)
  have t: "takeWhile (\<lambda>c. \<not> is_ws c) (opcode_word op @ ch # s) = opcode_word op"
    "dropWhile (\<lambda>c. \<not> is_ws c) (opcode_word op @ ch # s) = ch # s"
    using w(1) assms by (simp_all add: takeWhile_append dropWhile_append)
  show ?thesis using w(2) by (simp add: scan_word_def s t)
qed

definition valid_ins :: "inst_t \<Rightarrow> bool" where
  "valid_ins i \<longleftrightarrow> (\<forall>a\<in>set (operands i). 0 \<le> a \<and> a < 4294967296)"

lemma show_ins_eq: "show_ins i = opcode_word (opcode i) @ args_text (operands i) @ [CHR 0x0A]"
  by (simp add: show_ins_def args_text_def)

lemma args_text_head: "\<exists>ch s. args_text as @ CHR 0x0A # rest = ch # s \<and> is_ws ch"
  by (cases as) (simp_all add: args_text_def is_ws_def)

lemma scan_nums_line:
  assumes "valid_ins i" "length (operands i) = n"
  shows "scan_nums conv_u n (args_text (operands i) @ CHR 0x0A # rest) = (operands i, CHR 0x0A # rest)"
    "scan_nums conv_d n (args_text (operands i) @ [CHR 0x0A]) = (operands i, [CHR 0x0A])"
  using assms scan_nums_args_text [of "operands i" conv_u "CHR 0x0A # rest"]
    scan_nums_args_text [of "operands i" conv_d "[CHR 0x0A]"] conv_u32
  by (auto simp: valid_ins_def stops_def is_dig_def)

lemma fgets_line:
  assumes "CHR 0x0A \<notin> set l" "Suc (length l) < k"
  shows "fgets k (l @ CHR 0x0A # rest) = Some (l @ [CHR 0x0A], rest)"
proof -
  define m where "m = k - 2 - length l"
  have n: "k - 1 = length l + Suc m" using assms(2) by (simp add: m_def)
  have t: "take (length l + Suc m) (l @ CHR 0x0A # rest) = l @ CHR 0x0A # take m rest" by simp
  have w: "takeWhile (\<lambda>ch. ch \<noteq> CHR 0x0A) (l @ CHR 0x0A # take m rest) = l"
    using assms(1) by (auto simp: takeWhile_append)
  show ?thesis unfolding fgets_def Let_def n t w by simp
qed

text \<open>The operands of one instruction; what follows is unread up to white space.\<close>

lemma load_args_line:
  assumes "valid_ins i"
  shows "\<exists>buf' s. load_args (opcode i) buf (args_text (operands i) @ CHR 0x0A # rest) = Inr (operands i, buf', s) \<and>
    skip_ws s = skip_ws rest"
proof -
  have ws: "skip_ws (CHR 0x0A # s) = skip_ws s" for s by (simp add: skip_ws_cons is_ws_def)
  show ?thesis
  proof (cases "opcode i")
    case SYSCALL
    have len: "length (operands i) = 4" using SYSCALL by (simp add: operands_def)
    have "length (args_text (operands i)) < 199"
      using length_args_text [of "operands i"] assms len by (force simp: valid_ins_def)
    with args_text_line have "fgets 200 (args_text (operands i) @ CHR 0x0A # rest) =
        Some (args_text (operands i) @ [CHR 0x0A], rest)" by (intro fgets_line) simp_all
    with scan_nums_line(2) [OF assms len] SYSCALL show ?thesis by (simp add: load_args_def)
  next
    case CALC
    then show ?thesis by (simp add: load_args_def operands_def args_text_def ws)
  next
    case ALLOC
    then have "length (operands i) = 2" by (simp add: operands_def)
    with scan_nums_line(1) [OF assms this, of rest] ALLOC show ?thesis by (simp add: load_args_def scan_args_def ws)
  next
    case FREE
    then have "length (operands i) = 1" by (simp add: operands_def)
    with scan_nums_line(1) [OF assms this, of rest] FREE show ?thesis by (simp add: load_args_def scan_args_def ws)
  next
    case READ
    then have "length (operands i) = 3" by (simp add: operands_def)
    with scan_nums_line(1) [OF assms this, of rest] READ show ?thesis by (simp add: load_args_def scan_args_def ws)
  next
    case WRITE
    then have "length (operands i) = 3" by (simp add: operands_def)
    with scan_nums_line(1) [OF assms this, of rest] WRITE show ?thesis by (simp add: load_args_def scan_args_def ws)
  qed
qed

lemma set_args_operands:
  "opcode (set_args (operands i) (j\<lparr>opcode := opcode i\<rparr>)) = opcode i"
  "operands (set_args (operands i) (j\<lparr>opcode := opcode i\<rparr>)) = operands i"
  by (cases "opcode i"; simp add: operands_def)+

text \<open>Two instructions agree on what their opcode uses.\<close>

definition same_ins :: "inst_t \<Rightarrow> inst_t \<Rightarrow> bool" where
  "same_ins i j \<longleftrightarrow> opcode i = opcode j \<and> operands i = operands j"

lemma load_text_show:
  assumes "\<forall>i\<in>set prog. valid_ins i" and "skip_ws s = concat (map show_ins prog)"
  shows "\<exists>js. load_text text0 (length prog) k opc buf s = Inr (Returns js) \<and> list_all2 same_ins js prog"
  using assms
proof (induction prog arbitrary: s k opc buf)
  case (Cons i prog)
  let ?rest = "concat (map show_ins prog)"
  have sk: "skip_ws s = opcode_word (opcode i) @ (args_text (operands i) @ CHR 0x0A # ?rest)"
    using Cons.prems(2) by (simp add: show_ins_eq [of i])
  obtain ch r where h: "args_text (operands i) @ CHR 0x0A # ?rest = ch # r" "is_ws ch"
    using args_text_head by blast
  have w: "scan_word s = Some (opcode_word (opcode i), args_text (operands i) @ CHR 0x0A # ?rest)"
    unfolding scan_word_skip [of s] sk h(1) by (rule scan_word_opcode [OF h(2)])
  obtain buf' s' where a: "load_args (opcode i) buf (args_text (operands i) @ CHR 0x0A # ?rest) = Inr (operands i, buf', s')"
    "skip_ws s' = skip_ws ?rest"
    using load_args_line [of i buf ?rest] Cons.prems(1) by auto
  have "skip_ws ?rest = ?rest"
  proof (cases prog)
    case (Cons j js)
    obtain x xs where "opcode_word (opcode j) = x # xs" "\<not> is_ws x"
      using opcode_word_facts(1,2) [of "opcode j"] by (cases "opcode_word (opcode j)") auto
    with Cons show ?thesis by (simp add: show_ins_eq skip_ws_cons)
  qed (simp add: skip_ws_def)
  with a(2) Cons.IH [of s' "Suc k" "Some (opcode_word (opcode i))" buf'] Cons.prems(1)
  obtain js where "load_text text0 (length prog) (Suc k) (Some (opcode_word (opcode i))) buf' s' = Inr (Returns js)"
    "list_all2 same_ins js prog" by auto
  moreover have "same_ins (set_args (operands i) ((text0 k)\<lparr>opcode := opcode i\<rparr>)) i"
    by (simp add: same_ins_def set_args_operands)
  ultimately show ?case
    using w a(1) opcode_word_facts(3,4) [of "opcode i"] by simp
qed simp

lemma scan_header:
  assumes "0 \<le> pr" "pr < 4294967296" "n < 4294967296"
  shows "scan_nums conv_u 2 (show_nat (nat pr) @ CHR '' '' # show_nat n @ CHR 0x0A # s) =
    ([pr, int n], CHR 0x0A # s)"
proof -
  have "scan_num ([] @ show_nat (nat pr) @ (CHR '' '' # show_nat n @ CHR 0x0A # s)) =
      Some (int (nat pr), CHR '' '' # show_nat n @ CHR 0x0A # s)"
    by (rule scan_num_show_nat) (simp_all add: stops_def is_dig_def)
  moreover have "scan_num ([CHR '' ''] @ show_nat n @ (CHR 0x0A # s)) = Some (int n, CHR 0x0A # s)"
    by (rule scan_num_show_nat) (simp_all add: stops_def is_dig_def is_ws_def)
  ultimately show ?thesis using assms conv_u32 [of pr] conv_u32 [of "int n"] by (simp add: numeral_2_eq_2)
qed

lemma load_show:
  assumes "\<forall>i\<in>set prog. valid_ins i" and "0 \<le> pr" and "pr < 4294967296" and "length prog < 4294967296"
  shows "\<exists>b js. load pcb0 text0 n fname (Some (show_prog pr prog)) = Inr (Returns b, to_u32 (n + 1)) \<and>
    code b = \<lparr>c_text = js, c_size = length prog\<rparr> \<and> list_all2 same_ins js prog \<and>
    pid b = n \<and> priority b = pr \<and> pc b = 0 \<and> path b = take 16 fname"
proof -
  have "skip_ws (concat (map show_ins prog)) = concat (map show_ins prog)"
  proof (cases prog)
    case (Cons j js)
    obtain x xs where "opcode_word (opcode j) = x # xs" "\<not> is_ws x"
      using opcode_word_facts(1,2) [of "opcode j"] by (cases "opcode_word (opcode j)") auto
    with Cons show ?thesis by (simp add: show_ins_eq skip_ws_cons)
  qed (simp add: skip_ws_def)
  then have "skip_ws (CHR 0x0A # concat (map show_ins prog)) = concat (map show_ins prog)"
    by (simp add: skip_ws_cons is_ws_def)
  from load_text_show [OF assms(1) this] obtain js where
    "load_text text0 (length prog) 0 None None (CHR 0x0A # concat (map show_ins prog)) = Inr (Returns js)"
    "list_all2 same_ins js prog" by blast
  then show ?thesis using scan_header [OF assms(2-4)]
    by (simp add: load_def show_prog_def stored_path_def)
qed

section \<open>Properties\<close>

text \<open>C30: loading the written form of a program gives the program back: the block gets the number, the
  priority and as many instructions as were written, each with its opcode and the operands that opcode
  uses, whatever the memory held before; the next process gets the next number.\<close>

theorem load_roundtrip:
  assumes "\<forall>i\<in>set prog. valid_ins i" and "0 \<le> pr" and "pr < 4294967296" and "length prog < 4294967296"
  shows "\<exists>b js. load pcb0 text0 n fname (Some (show_prog pr prog)) = Inr (Returns b, to_u32 (n + 1)) \<and>
    code b = \<lparr>c_text = js, c_size = length prog\<rparr> \<and> list_all2 same_ins js prog \<and>
    pid b = n \<and> priority b = pr \<and> pc b = 0 \<and> path b = take 16 fname"
  using assms by (rule load_show)

definition sample_prog :: "inst_t list" where
  "sample_prog = [\<lparr>opcode = ALLOC, arg_0 = 300, arg_1 = 4, arg_2 = 0, arg_3 = 0\<rparr>,
     \<lparr>opcode = WRITE, arg_0 = 80, arg_1 = 4, arg_2 = 0, arg_3 = 0\<rparr>,
     \<lparr>opcode = SYSCALL, arg_0 = 101, arg_1 = 4, arg_2 = 0, arg_3 = 0\<rparr>]"

theorem load_roundtrip_witness:
  "\<exists>b js. load undefined undefined 1 ''input/proc/sc2'' (Some (show_prog 20 sample_prog)) =
      Inr (Returns b, 2) \<and> list_all2 same_ins (c_text (code b)) sample_prog"
  using load_roundtrip [of sample_prog 20 undefined undefined 1 "''input/proc/sc2''"]
  by (auto simp: sample_prog_def valid_ins_def operands_def to_u32_def)

text \<open>An unknown instruction word ends the program with status 1, and a word of ten or more
  characters overflows the buffer for it.\<close>

theorem load_rejects_word:
  assumes "scan_word s = Some (w, s')"
  shows "(10 \<le> length w \<longrightarrow> load_text text0 (Suc n) i opc buf s = Inl OutOfBounds) \<and>
    (length w < 10 \<and> get_opcode w = None \<longrightarrow> load_text text0 (Suc n) i opc buf s = Inr (Exits 1))"
  using assms by simp

theorem load_rejects_word_witness:
  "load_text undefined 1 0 None None ''jump 3'' = Inr (Exits 1) \<and>
   load_text undefined 1 0 None None ''alloc_memory 3'' = Inl OutOfBounds"
proof -
  have "scan_word ''jump 3'' = Some (''jump'', '' 3'')"
    "scan_word ''alloc_memory 3'' = Some (''alloc_memory'', '' 3'')"
    by (simp_all add: scan_word_def skip_ws_def is_ws_def Let_def)
  from load_rejects_word [OF this(1), of undefined 0 0 None None]
    load_rejects_word [OF this(2), of undefined 0 0 None None]
  show ?thesis by (simp add: get_opcode_def)
qed

end
