(* ===== verification/Area.thy ===== *)
theory Area imports Frames begin

text \<open>
  Virtual memory areas: \<^verbatim>\<open>src/mm-vm.c\<close>, the handler \<open>__sys_memmap\<close> of \<^verbatim>\<open>src/sys_mem.c\<close>, and the printing of
  the page table and of the areas (\<^verbatim>\<open>src/mm.c\<close>).  A pointer to an area is its position in the list
  \<open>mmap\<close>.  \<open>proc_inv\<close> is the invariant of a process: frame ownership, and a heap \<open>[0, vm_end)\<close> of
  whole pages outside of which no page is online.  The lemmas show that moving the limit keeps it.
\<close>

section \<open>Finding an area\<close>

text \<open>The loop \<open>while (vmait < vmaid)\<close>: \<open>vm_id\<close> is read through the next pointer before it is tested.\<close>

fun vma_walk :: "vm_area_struct chain \<Rightarrow> int \<Rightarrow> nat \<Rightarrow> nat res" where
  "vma_walk Null vmaid k = Inl NullDeref"
| "vma_walk Wild vmaid k = Inl WildPointer"
| "vma_walk (Node pvma next) vmaid k =
    (if to_i32 (vm_id pvma) < vmaid then vma_walk next vmaid (Suc k) else Inr k)"

definition get_vma_by_num :: "mm_struct \<Rightarrow> int \<Rightarrow> nat option res" where
  "get_vma_by_num m vmaid =
    (if mmap m = Null then Inr None else bindR (vma_walk (mmap m) vmaid 0) (\<lambda>k. Inr (Some k)))"

text \<open>Reading and writing the area a position stands for.\<close>

fun vma_at :: "vm_area_struct chain \<Rightarrow> nat \<Rightarrow> vm_area_struct res" where
  "vma_at Null k = Inl NullDeref"
| "vma_at Wild k = Inl WildPointer"
| "vma_at (Node v next) 0 = Inr v"
| "vma_at (Node v next) (Suc k) = vma_at next k"

fun vma_set :: "vm_area_struct chain \<Rightarrow> nat \<Rightarrow> vm_area_struct \<Rightarrow> vm_area_struct chain" where
  "vma_set Null k v' = Null"
| "vma_set Wild k v' = Wild"
| "vma_set (Node v next) 0 v' = Node v' next"
| "vma_set (Node v next) (Suc k) v' = Node v (vma_set next k v')"

section \<open>Moving the limit\<close>

definition mm_swap_page :: "vmctx \<Rightarrow> int \<Rightarrow> int \<Rightarrow> (int \<times> vmctx) res" where
  "mm_swap_page caller vicfpn swpfpn =
    bindR (copy_to_swap vicfpn (v_active caller) swpfpn caller) (\<lambda>c'. Inr (0, c'))"

definition get_vm_area_node_at_brk :: "vmctx \<Rightarrow> int \<Rightarrow> int \<Rightarrow> int \<Rightarrow> vm_rg_struct option res" where
  "get_vm_area_node_at_brk caller vmaid sz alignedsz =
    bindR (get_vma_by_num (v_mm caller) vmaid) (\<lambda>k.
      case k of
        None \<Rightarrow> Inr None
      | Some k \<Rightarrow> bindR (vma_at (mmap (v_mm caller)) k) (\<lambda>cur_vma.
          Inr (Some \<lparr>rg_start = sbrk cur_vma, rg_end = to_u64 (sbrk cur_vma + alignedsz)\<rparr>)))"

text \<open>
  The two tests of the loop body.  \<open>vmaend - 1\<close> is an \<open>int\<close>; the rest is \<open>unsigned long\<close> arithmetic
  whose product is cut to an \<open>int\<close>.
\<close>

definition overlap_product :: "int \<Rightarrow> int \<Rightarrow> int \<Rightarrow> int \<Rightarrow> int" where
  "overlap_product a b c d = to_i32 (to_u64 (to_u64 (a - b) * to_u64 (c - d)))"

fun overlap_walk :: "vm_area_struct chain \<Rightarrow> int \<Rightarrow> int \<Rightarrow> int \<Rightarrow> int res" where
  "overlap_walk Null vmaid vmastart vmaend = Inr 0"
| "overlap_walk Wild vmaid vmastart vmaend = Inl WildPointer"
| "overlap_walk (Node vma next) vmaid vmastart vmaend =
    (if vm_id vma \<noteq> to_u64 vmaid \<and> vm_start vma \<noteq> vm_end vma then
       bindR (ck_int (vmaend - 1)) (\<lambda>e1.
         if 0 \<le> overlap_product e1 (vm_start vma) (vm_end vma - 1) vmastart then Inr (-1)
         else if 0 \<le> overlap_product vmastart (vm_start vma) (vm_end vma) vmaend then Inr (-1)
         else overlap_walk next vmaid vmastart vmaend)
     else overlap_walk next vmaid vmastart vmaend)"

definition validate_overlap_vm_area :: "mm_struct \<Rightarrow> int \<Rightarrow> int \<Rightarrow> int \<Rightarrow> int res" where
  "validate_overlap_vm_area m vmaid vmastart vmaend = overlap_walk (mmap m) vmaid vmastart vmaend"

text \<open>
  \<open>inc_vma_limit\<close>: the pointer \<open>cur_vma\<close> is followed before it is compared with NULL, so without an
  area the code dereferences NULL.
\<close>

definition inc_vma_limit :: "bool \<Rightarrow> vmctx \<Rightarrow> int \<Rightarrow> int \<Rightarrow> (int \<times> vmctx) res" where
  "inc_vma_limit zeroed caller vmaid inc_sz =
    bindR (ck_int (inc_sz + 256)) (\<lambda>_.
      let inc_amt = PAGING_PAGE_ALIGNSZ inc_sz;
          incnumpage = c_div inc_amt PAGING_PAGESZ
      in
        bindR (get_vm_area_node_at_brk caller vmaid inc_sz inc_amt) (\<lambda>area.
        bindR (get_vma_by_num (v_mm caller) vmaid) (\<lambda>k.
          case (k, area) of
            (Some k, Some area) \<Rightarrow>
              bindR (vma_at (mmap (v_mm caller)) k) (\<lambda>cur_vma.
                let old_end = to_i32 (vm_end cur_vma) in
                bindR (validate_overlap_vm_area (v_mm caller) vmaid
                         (to_i32 (rg_start area)) (to_i32 (rg_end area))) (\<lambda>st.
                  if st < 0 then Inr (-1, caller)
                  else
                    let m' = (v_mm caller)\<lparr>mmap := vma_set (mmap (v_mm caller)) k
                               (cur_vma\<lparr>sbrk := rg_end area, vm_end := rg_end area\<rparr>)\<rparr>
                    in bindR (vm_map_ram zeroed (to_i32 (rg_start area)) (to_i32 (rg_end area))
                                old_end incnumpage (caller\<lparr>v_mm := m'\<rparr>)) (\<lambda>(ret, _, c').
                         Inr (if ret < 0 then -1 else 0, c'))))
          | _ \<Rightarrow> Inl NullDeref)))"

section \<open>System call 17\<close>

text \<open>The registers a system call reads and writes (\<^verbatim>\<open>include/syscall.h\<close>), as \<open>uint32_t\<close> values.\<close>

record sc_regs =
  a1 :: int
  a2 :: int
  a3 :: int

definition SYSMEM_MAP_OP :: int where "SYSMEM_MAP_OP = 1"
definition SYSMEM_INC_OP :: int where "SYSMEM_INC_OP = 2"
definition SYSMEM_SWP_OP :: int where "SYSMEM_SWP_OP = 3"
definition SYSMEM_IO_READ :: int where "SYSMEM_IO_READ = 4"
definition SYSMEM_IO_WRITE :: int where "SYSMEM_IO_WRITE = 5"

lemmas sysmem_ops = SYSMEM_MAP_OP_def SYSMEM_INC_OP_def SYSMEM_SWP_OP_def
  SYSMEM_IO_READ_def SYSMEM_IO_WRITE_def

text \<open>
  The results of the operations are dropped: the handler always answers 0.  After \<open>SYSMEM_IO_READ\<close>
  the register \<open>a3\<close> holds the sign extended byte; a read that returns nothing leaves \<open>value\<close>
  uninitialised.
\<close>

definition sys_memmap :: "bool \<Rightarrow> vmctx \<Rightarrow> sc_regs \<Rightarrow> (int \<times> sc_regs \<times> vmctx) res" where
  "sys_memmap zeroed caller rs =
    (let memop = to_i32 (a1 rs) in
     if memop = SYSMEM_MAP_OP then Inr (0, rs, caller)
     else if memop = SYSMEM_INC_OP then
       bindR (inc_vma_limit zeroed caller (to_i32 (a2 rs)) (to_i32 (a3 rs))) (\<lambda>(_, c').
         Inr (0, rs, c'))
     else if memop = SYSMEM_SWP_OP then
       bindR (mm_swap_page caller (to_i32 (a2 rs)) (to_i32 (a3 rs))) (\<lambda>(_, c').
         Inr (0, rs, c'))
     else if memop = SYSMEM_IO_READ then
       bindR (MEMPHY_read (Some (v_mram caller)) (to_i32 (a2 rs))) (\<lambda>(_, value, mp).
         case value of
           None \<Rightarrow> Inl UninitRead
         | Some v \<Rightarrow> Inr (0, rs\<lparr>a3 := to_u32 (sint v)\<rparr>,
             (case mp of None \<Rightarrow> caller | Some ram \<Rightarrow> caller\<lparr>v_mram := ram\<rparr>)))
     else if memop = SYSMEM_IO_WRITE then
       bindR (MEMPHY_write (Some (v_mram caller)) (to_i32 (a2 rs)) (word_of_int (a3 rs)))
         (\<lambda>(_, mp). Inr (0, rs, (case mp of None \<Rightarrow> caller | Some ram \<Rightarrow> caller\<lparr>v_mram := ram\<rparr>)))
     else Inr (0, rs, caller))"

section \<open>Printing\<close>

text \<open>
  The lines of \<open>print_pgtbl\<close>: offset and entry.  An \<open>end\<close> of \<open>UINT32_MAX\<close> stands for the end of the
  area found for identifier 0.
\<close>

definition print_pgtbl :: "vmctx \<Rightarrow> int \<Rightarrow> int \<Rightarrow> (int \<times> (int \<times> u32) list) res" where
  "print_pgtbl caller start e =
    bindR (if e = 4294967295 then
             bindR (get_vma_by_num (v_mm caller) 0) (\<lambda>k. case k of
               None \<Rightarrow> Inl NullDeref
             | Some k \<Rightarrow> bindR (vma_at (mmap (v_mm caller)) k) (\<lambda>v. Inr (to_u32 (vm_end v))))
           else Inr e)
      (\<lambda>e'. Inr (0, map (\<lambda>pgit. (pgit * 4, pgd (v_mm caller) pgit)) [PAGING_PGN start..PAGING_PGN e' - 1]))"

fun chain_drop :: "nat \<Rightarrow> 'a chain \<Rightarrow> 'a chain" where
  "chain_drop (Suc k) (Node x c) = chain_drop k c"
| "chain_drop k c = c"

definition print_mem_status ::
  "vmctx \<Rightarrow> nat option \<Rightarrow> ((int \<times> int) list \<times> (int \<times> int) list \<times> int list) res" where
  "print_mem_status caller ivma =
    (case ivma of
       None \<Rightarrow> Inl NullDeref
     | Some k \<Rightarrow>
         bindR (vma_at (mmap (v_mm caller)) k) (\<lambda>v.
         bindR (print_list_rg (vm_freerg_list v)) (\<lambda>(_, rgs).
         bindR (print_list_vma (chain_drop k (mmap (v_mm caller)))) (\<lambda>(_, vmas).
         bindR (print_list_pgn (fifo_pgn (v_mm caller))) (\<lambda>(_, pgns). Inr (rgs, vmas, pgns))))))"

section \<open>The invariant of a process\<close>

text \<open>
  The heap of a process: one area with the identifier 1 that \<open>init_mm\<close> gives it, from address 0 to a
  limit that is a multiple of the page size within the 4 MB of the bus; no page above the limit is
  online; the symbol table has its 30 cells.
\<close>

definition heap_inv :: "mm_struct \<Rightarrow> bool" where
  "heap_inv m \<longleftrightarrow> (\<exists>v. mmap m = Node v Null \<and> vm_id v = 1 \<and> vm_start v = 0 \<and> sbrk v = vm_end v \<and>
     0 \<le> vm_end v \<and> vm_end v \<le> 4194304 \<and> vm_end v mod 256 = 0 \<and>
     (\<forall>p. online m p \<longrightarrow> p * 256 < vm_end v)) \<and> length (symrgtbl m) = 30"

definition heap_end :: "mm_struct \<Rightarrow> int" where
  "heap_end m = (case mmap m of Node v _ \<Rightarrow> vm_end v | _ \<Rightarrow> 0)"

definition grow :: "int \<Rightarrow> int" where
  "grow sz = (sz + 255) div 256 * 256"

definition proc_inv :: "int set \<Rightarrow> vmctx \<Rightarrow> bool" where
  "proc_inv others c \<longleftrightarrow> ctx_inv others {} c \<and> swaps_ok c \<and> heap_inv (v_mm c)"

lemma heap_invE:
  assumes "heap_inv m"
  obtains v where "mmap m = Node v Null" "vm_id v = 1" "vm_start v = 0" "sbrk v = heap_end m"
    "vm_end v = heap_end m" "0 \<le> heap_end m" "heap_end m \<le> 4194304" "heap_end m mod 256 = 0"
    "\<forall>p. online m p \<longrightarrow> p * 256 < heap_end m" "length (symrgtbl m) = 30"
proof -
  from assms obtain v where "mmap m = Node v Null" "vm_id v = 1" "vm_start v = 0" "sbrk v = vm_end v"
    "0 \<le> vm_end v" "vm_end v \<le> 4194304" "vm_end v mod 256 = 0"
    "\<forall>p. online m p \<longrightarrow> p * 256 < vm_end v" "length (symrgtbl m) = 30"
    unfolding heap_inv_def by (elim exE conjE) (rule that)
  moreover from this have "heap_end m = vm_end v" by (simp add: heap_end_def)
  ultimately show thesis by (intro that [of v]) simp_all
qed

lemma get_vma_by_num_heap:
  "heap_inv m \<Longrightarrow> vmaid \<le> 1 \<Longrightarrow> get_vma_by_num m vmaid = Inr (Some 0)"
  by (erule heap_invE) (simp add: get_vma_by_num_def to_i32_def)

lemma grow_bounds: "sz \<le> grow sz \<and> grow sz < sz + 256 \<and> grow sz mod 256 = 0"
proof -
  have "0 \<le> (sz + 255) mod 256 \<and> (sz + 255) mod 256 < 256" by simp
  then have "sz \<le> grow sz" "grow sz < sz + 256"
    using minus_mod_eq_div_mult [of "sz + 255" 256] unfolding grow_def by linarith+
  then show ?thesis by (simp add: grow_def)
qed

lemma grow_pages: "grow sz div 256 = (sz + 255) div 256"
  by (simp add: grow_def)

lemma new_page:
  assumes "0 \<le> e" "e mod 256 = 0" "e + g \<le> 4194304" "i < nat (g div 256)"
  shows "PAGING_PGN (e + int i * 256) = e div 256 + int i"
    and "e \<le> PAGING_PGN (e + int i * 256) * 256" "PAGING_PGN (e + int i * 256) * 256 < e + g"
proof -
  have i: "int i * 256 < g" using assms(4) le_div_iff_int [of 256 "int i + 1" g] by simp
  have e: "e div 256 * 256 = e" using assms(2) by auto
  have "e div 256 + int i < 16384" using i e assms(3) by linarith
  moreover have "0 \<le> e div 256" using assms(1) by simp
  ultimately show pg: "PAGING_PGN (e + int i * 256) = e div 256 + int i"
    by (simp add: PAGING_PGN_eq)
  show "e \<le> PAGING_PGN (e + int i * 256) * 256" "PAGING_PGN (e + int i * 256) * 256 < e + g"
    using e i by (simp_all add: pg algebra_simps)
qed

text \<open>The verdict on growing the heap by \<open>g\<close> bytes.\<close>

definition heap_overlap :: "int \<Rightarrow> int \<Rightarrow> int \<Rightarrow> int" where
  "heap_overlap vmaid e g =
    (if vmaid = 0 \<and> e \<noteq> 0 \<and>
        (0 \<le> overlap_product (e + g - 1) 0 (e - 1) e \<or> 0 \<le> overlap_product e 0 e (e + g)) then -1 else 0)"

lemma validate_overlap_heap:
  assumes "heap_inv m" and "vmaid \<in> {0, 1}" and "0 \<le> g" and "heap_end m + g \<le> 4194304"
  shows "validate_overlap_vm_area m vmaid (heap_end m) (heap_end m + g) =
    Inr (heap_overlap vmaid (heap_end m) g)"
  using assms(1)
proof (rule heap_invE)
  fix v assume v: "mmap m = Node v Null" "vm_id v = 1" "vm_start v = 0" "vm_end v = heap_end m"
    "0 \<le> heap_end m"
  then show ?thesis using assms(2,3,4)
    by (auto simp: validate_overlap_vm_area_def heap_overlap_def to_u64_def ck_int_id)
qed

lemma inc_vma_limit_heap:
  assumes inv: "proc_inv others c" and vid: "vmaid \<in> {0, 1}" and sz: "0 \<le> sz"
    and fits: "heap_end (v_mm c) + grow sz \<le> 4194304"
  shows "inc_vma_limit z c vmaid sz =
    (if heap_overlap vmaid (heap_end (v_mm c)) (grow sz) < 0 then Inr (-1, c)
     else
       let e' = heap_end (v_mm c) + grow sz;
           m' = (v_mm c)\<lparr>mmap := Node (case mmap (v_mm c) of Node v _ \<Rightarrow> v\<lparr>sbrk := e', vm_end := e'\<rparr>) Null\<rparr>
       in bindR (vm_map_ram z (heap_end (v_mm c)) e' (heap_end (v_mm c)) (grow sz div 256) (c\<lparr>v_mm := m'\<rparr>))
            (\<lambda>(ret, _, c'). Inr (if ret < 0 then -1 else 0, c')))"
proof -
  let ?e = "heap_end (v_mm c)"
  have h: "heap_inv (v_mm c)" using inv by (simp add: proc_inv_def)
  note g = grow_bounds [of sz]
  from h obtain v where v: "mmap (v_mm c) = Node v Null" "sbrk v = ?e" "vm_end v = ?e"
    "0 \<le> ?e" "?e \<le> 4194304" by (rule heap_invE)
  have k: "get_vma_by_num (v_mm c) vmaid = Inr (Some 0)"
    using get_vma_by_num_heap [OF h] vid by auto
  have n: "c_div (grow sz) PAGING_PAGESZ = grow sz div 256"
    using g sz by (simp add: c_div_nonneg PAGING_PAGESZ_def)
  have al: "PAGING_PAGE_ALIGNSZ sz = grow sz"
    using sz by (simp add: PAGING_PAGE_ALIGNSZ_eq grow_def)
  have i: "to_i32 ?e = ?e" "to_u64 (?e + grow sz) = ?e + grow sz" "to_i32 (?e + grow sz) = ?e + grow sz"
    using v(4,5) fits g sz by (simp_all add: to_i32_id to_u64_id)
  have "ck_int (sz + 256) = Inr (sz + 256)" using g fits v(4) sz by (intro ck_int_id) linarith+
  then show ?thesis
    using validate_overlap_heap [OF h vid _ fits] g sz
    by (simp add: inc_vma_limit_def al n Let_def get_vm_area_node_at_brk_def k v i)
qed

lemma online_mmap [simp]: "online (m\<lparr>mmap := x\<rparr>) p = online m p"
  by (simp add: online_def)

lemma frames_inv_mmap [simp]: "frames_inv others held (m\<lparr>mmap := x\<rparr>) ram = frames_inv others held m ram"
proof -
  have "online (m\<lparr>mmap := x\<rparr>) = online m" "frame_of (m\<lparr>mmap := x\<rparr>) = frame_of m"
    by (auto simp: frame_of_def fun_eq_iff)
  moreover from this have "mapped (m\<lparr>mmap := x\<rparr>) = mapped m" by (simp add: mapped_def)
  ultimately show ?thesis by (simp add: frames_inv_def fifo_inv_def)
qed

lemma swaps_ok_mm [simp]: "swaps_ok (c\<lparr>v_mm := m\<rparr>) = swaps_ok c"
  by (simp add: swaps_ok_def)

text \<open>The area list with the limit moved to \<open>e\<close>.\<close>

definition moved :: "mm_struct \<Rightarrow> int \<Rightarrow> vm_area_struct chain" where
  "moved m e = Node (case mmap m of Node v _ \<Rightarrow> v\<lparr>sbrk := e, vm_end := e\<rparr>) Null"

lemma inc_vma_limit_inv:
  assumes inv: "proc_inv others c" and vid: "vmaid \<in> {0, 1}" and sz: "0 \<le> sz"
    and fits: "heap_end (v_mm c) + grow sz \<le> 4194304"
  shows "\<exists>ret c'. inc_vma_limit z c vmaid sz = Inr (ret, c') \<and> ret \<in> {0, -1} \<and> proc_inv others c' \<and> same_dev c c' \<and>
    storage (v_mram c') = storage (v_mram c) \<and> symrgtbl (v_mm c') = symrgtbl (v_mm c) \<and>
    (if heap_overlap vmaid (heap_end (v_mm c)) (grow sz) < 0 then ret = -1 \<and> c' = c
     else mmap (v_mm c') = moved (v_mm c) (heap_end (v_mm c) + grow sz) \<and>
       (nat (grow sz div 256) \<le> length (free_frames (v_mram c)) \<longrightarrow> ret = 0)) \<and>
    (ret = 0 \<longrightarrow> heap_end (v_mm c') = heap_end (v_mm c) + grow sz \<and>
      (\<forall>p. heap_end (v_mm c) \<le> p * 256 \<and> p * 256 < heap_end (v_mm c') \<longrightarrow> online (v_mm c') p))"
proof (cases "heap_overlap vmaid (heap_end (v_mm c)) (grow sz) < 0")
  case True
  with inc_vma_limit_heap [OF assms] inv show ?thesis by simp
next
  case False
  let ?e = "heap_end (v_mm c)"
  let ?m = "(v_mm c)\<lparr>mmap := moved (v_mm c) (?e + grow sz)\<rparr>"
  note g = grow_bounds [of sz]
  have h: "heap_inv (v_mm c)" and ci: "ctx_inv others {} c" and sw: "swaps_ok c"
    using inv by (simp_all add: proc_inv_def)
  from h obtain v where v: "mmap (v_mm c) = Node v Null" "vm_id v = 1" "vm_start v = 0" "sbrk v = ?e" "vm_end v = ?e"
    "0 \<le> ?e" "?e \<le> 4194304" "?e mod 256 = 0" "\<forall>p. online (v_mm c) p \<longrightarrow> p * 256 < ?e"
    "length (symrgtbl (v_mm c)) = 30" by (rule heap_invE)
  have n: "grow sz div 256 \<le> 16384" using fits v(6) zdiv_mono1 [of "grow sz" 4194304 256] by simp
  note np = new_page [OF v(6,8) fits]
  have off: "\<forall>i<nat (grow sz div 256). \<not> online (v_mm c) (PAGING_PGN (?e + int i * 256))"
    using np(2) v(9) by fastforce
  have pre: "ctx_inv others {} (c\<lparr>v_mm := ?m\<rparr>)" "swaps_ok (c\<lparr>v_mm := ?m\<rparr>)"
    "\<forall>i<nat (grow sz div 256). \<not> online (v_mm (c\<lparr>v_mm := ?m\<rparr>)) (PAGING_PGN (?e + int i * 256))"
    using ci sw off by simp_all
  obtain ret rg c' where m: "vm_map_ram z ?e (?e + grow sz) ?e (grow sz div 256) (c\<lparr>v_mm := ?m\<rparr>) = Inr (ret, rg, c')"
    "ret \<in> {0, -1}" "ctx_inv others {} c'" "swaps_ok c'" "storage (v_mram c') = storage (v_mram c)"
    "mmap (v_mm c') = moved (v_mm c) (?e + grow sz)" "symrgtbl (v_mm c') = symrgtbl (v_mm c)"
    "ret = 0 \<longrightarrow> (\<forall>i<nat (grow sz div 256). online (v_mm c') (PAGING_PGN (?e + int i * 256)))"
    "\<forall>p. online (v_mm c') p \<longrightarrow> online (v_mm c) p \<or> (\<exists>i<nat (grow sz div 256). p = PAGING_PGN (?e + int i * 256))"
    "same_dev c c'" "nat (grow sz div 256) \<le> length (free_frames (v_mram c)) \<longrightarrow> ret = 0"
    using vm_map_ram_inv [OF pre(1,2) n pre(3), of z ?e "?e + grow sz"] by auto
  have he: "heap_end (v_mm c') = ?e + grow sz" by (simp add: heap_end_def m(6) moved_def v(1))
  have g0: "0 \<le> grow sz" using g sz by linarith
  have on: "p * 256 < ?e + grow sz" if "online (v_mm c') p" for p
    using m(9) that v(9) np(3) g0 by fastforce
  have md: "(?e + grow sz) mod 256 = 0" using v(8) g by (simp add: mod_add_eq [symmetric])
  have "heap_inv (v_mm c')"
    unfolding heap_inv_def m(6,7) moved_def using v fits g0 on md by simp
  then have pi: "proc_inv others c'" using m(3,4) by (simp add: proc_inv_def)
  have "online (v_mm c') p" if "ret = 0" "?e \<le> p * 256" "p * 256 < ?e + grow sz" for p
  proof -
    have e: "?e div 256 * 256 = ?e" using v(8) by auto
    have q: "0 \<le> p - ?e div 256" using that(2) e by linarith
    then have i: "nat (p - ?e div 256) < nat (grow sz div 256)"
      using that(3) e g le_div_iff_int [of 256 "p - ?e div 256 + 1" "grow sz"] by auto
    then have "PAGING_PGN (?e + int (nat (p - ?e div 256)) * 256) = p" using np(1) [OF i] q by simp
    with m(8) that(1) i show ?thesis by metis
  qed
  with False m pi he show ?thesis
    by (simp add: inc_vma_limit_heap [OF assms] Let_def moved_def [symmetric]) auto
qed

lemma to_i32_mod64: "to_i32 (x mod 18446744073709551616) = to_i32 x"
proof -
  have "(4294967296::int) dvd 18446744073709551616" by simp
  then have "x mod 18446744073709551616 mod 4294967296 = x mod 4294967296" by (rule mod_mod_cancel)
  then have "(x mod 18446744073709551616 + 2147483648) mod 4294967296 = (x + 2147483648) mod 4294967296"
    by (rule mod_add_cong) simp
  then show ?thesis by (simp only: to_i32_def)
qed

lemma vma_walk_chain:
  "vma_walk (chain_of vs) vmaid k =
     (if \<exists>v\<in>set vs. vmaid \<le> to_i32 (vm_id v)
      then Inr (k + length (takeWhile (\<lambda>v. to_i32 (vm_id v) < vmaid) vs)) else Inl NullDeref)"
  by (induction vs arbitrary: k) auto

lemma byte_of_u32: "(word_of_int (to_u32 x) :: byte) = word_of_int x"
  by (simp add: to_u32_def word_of_int_eq_iff take_bit_eq_mod mod_mod_cancel)

section \<open>Properties\<close>

text \<open>A process whose heap is empty, as \<open>init_mm\<close> leaves it in zeroed memory, with the free RAM frames \<open>fs\<close>.\<close>

definition new_ctx :: "int list \<Rightarrow> vmctx" where
  "new_ctx fs = (idle_ctx fs)\<lparr>v_mm := init_mm True (\<lambda>_. 0)
     (blank_mm\<lparr>symrgtbl := replicate 30 \<lparr>rg_start = 0, rg_end = 0\<rparr>\<rparr>)\<rparr>"

lemma new_ctx_simps [simp]:
  "online (v_mm (new_ctx fs)) p \<longleftrightarrow> False" "mapped (v_mm (new_ctx fs)) = {}" "heap_end (v_mm (new_ctx fs)) = 0"
  "fifo_pgn (v_mm (new_ctx fs)) = Null" "v_mram (new_ctx fs) = idle_ram fs"
  by (simp_all add: new_ctx_def init_mm_def Let_def online_def mapped_def heap_end_def blank_mm_def
      PAGING_PAGE_PRESENT_def)

lemma new_ctx_inv:
  "distinct fs \<Longrightarrow> set fs \<subseteq> {0..3} \<Longrightarrow> others \<inter> set fs = {} \<Longrightarrow> proc_inv others (new_ctx fs)"
  using idle_ctx_swaps [of fs]
  by (auto simp: proc_inv_def frames_inv_def ram_inv_def fifo_inv_def real_frames_def heap_inv_def)
    (auto simp: new_ctx_def init_mm_def Let_def to_u64_def init_vm_rg_def)

text \<open>C26: growing the heap of a process, within the 4 MB of the bus, always returns and keeps the
  invariant of the process: whether it succeeds or not no other process loses a frame and no byte of
  RAM changes.  When it reports success, the limit has moved up by the request rounded up to pages
  and every page between the old and the new limit is online.  It reports success whenever enough
  frames are free and the overlap test does not reject the request.\<close>

theorem inc_vma_limit_extends_heap:
  assumes "proc_inv others c" and "vmaid \<in> {0, 1}" and "0 \<le> sz"
    and "heap_end (v_mm c) + grow sz \<le> 4194304"
  shows "\<exists>ret c'. inc_vma_limit z c vmaid sz = Inr (ret, c') \<and> ret \<in> {0, -1} \<and> proc_inv others c' \<and>
    storage (v_mram c') = storage (v_mram c) \<and>
    (nat (grow sz div 256) \<le> length (free_frames (v_mram c)) \<and>
      0 \<le> heap_overlap vmaid (heap_end (v_mm c)) (grow sz) \<longrightarrow> ret = 0) \<and>
    (ret = 0 \<longrightarrow> heap_end (v_mm c') = heap_end (v_mm c) + grow sz \<and>
      (\<forall>p. heap_end (v_mm c) \<le> p * 256 \<and> p * 256 < heap_end (v_mm c') \<longrightarrow> online (v_mm c') p))"
  using inc_vma_limit_inv [OF assms, of z] by (auto split: if_splits)

theorem inc_vma_limit_extends_heap_witness:
  "\<exists>c'. inc_vma_limit False (new_ctx [2, 0]) 0 300 = Inr (0, c') \<and> proc_inv {1} c' \<and> heap_end (v_mm c') = 512"
  using inc_vma_limit_extends_heap [of "{1}" "new_ctx [2, 0]" 0 300 False] new_ctx_inv [of "[2, 0]" "{1}"]
  by (auto simp: grow_def heap_overlap_def)

text \<open>The overlap test rejects a request against the area being grown itself: a heap whose size is
  a positive multiple of 64 KB cannot be extended by a multiple of 64 KB, because the area has the
  identifier 1 while the callers pass 0, and the product of the two distances is cut to an \<open>int\<close>.\<close>

theorem inc_vma_limit_spurious_overlap:
  assumes "proc_inv others c" and "0 \<le> sz" and "heap_end (v_mm c) + grow sz \<le> 4194304"
    and "0 < heap_end (v_mm c)" and "65536 dvd heap_end (v_mm c)" and "65536 dvd grow sz"
  shows "inc_vma_limit z c 0 sz = Inr (-1, c)"
proof -
  let ?e = "heap_end (v_mm c)" and ?g = "grow sz"
  have "overlap_product ?e 0 ?e (?e + ?g) = to_i32 ((?e * - ?g) mod 18446744073709551616)"
    by (simp add: overlap_product_def to_u64_def mod_mult_eq)
  also have "\<dots> = to_i32 (?e * - ?g)" by (rule to_i32_mod64)
  also have "\<dots> = 0"
  proof -
    from assms(5,6) obtain a b where "?e = 65536 * a" "?g = 65536 * b" by (auto elim!: dvdE)
    then have "?e * - ?g = (- (a * b)) * 4294967296" by simp
    moreover have "to_i32 (k * 4294967296) = 0" for k by (simp add: to_i32_def)
    ultimately show ?thesis by (simp only:)
  qed
  finally have "heap_overlap 0 ?e ?g = -1" using assms(4) by (simp add: heap_overlap_def)
  then show ?thesis using inc_vma_limit_heap [OF assms(1) _ assms(2,3), of 0 z] by simp
qed

theorem inc_vma_limit_spurious_overlap_witness:
  "\<exists>c. proc_inv {} c \<and> heap_end (v_mm c) = 65536 \<and> inc_vma_limit False c 0 65536 = Inr (-1, c)"
proof -
  let ?c = "(new_ctx [0, 1])\<lparr>v_mm := (v_mm (new_ctx [0, 1]))\<lparr>mmap :=
    Node \<lparr>vm_id = 1, vm_start = 0, vm_end = 65536, sbrk = 65536, vm_freerg_list = Null\<rparr> Null\<rparr>\<rparr>"
  have "proc_inv {} (new_ctx [0, 1])" by (rule new_ctx_inv) auto
  then have "proc_inv {} ?c" by (auto simp: proc_inv_def heap_inv_def)
  moreover have "heap_end (v_mm ?c) = 65536" by (simp add: heap_end_def)
  ultimately show ?thesis
    using inc_vma_limit_spurious_overlap [of "{}" ?c 65536 False] by (auto simp: grow_def)
qed

text \<open>Searching an area by number returns the first area whose identifier is not smaller; when
  there is none, the loop runs off the list and dereferences NULL instead of answering NULL.\<close>

theorem get_vma_by_num_first:
  assumes "mmap m = chain_of vs" and "vs \<noteq> []"
  shows "if \<exists>v\<in>set vs. vmaid \<le> to_i32 (vm_id v)
    then \<exists>k<length vs. get_vma_by_num m vmaid = Inr (Some k) \<and> vmaid \<le> to_i32 (vm_id (vs ! k)) \<and>
      (\<forall>j<k. to_i32 (vm_id (vs ! j)) < vmaid)
    else get_vma_by_num m vmaid = Inl NullDeref"
proof -
  let ?P = "\<lambda>v. to_i32 (vm_id v) < vmaid"
  have "takeWhile ?P vs \<noteq> vs" if "\<exists>v\<in>set vs. vmaid \<le> to_i32 (vm_id v)"
    using that by (metis linorder_not_less takeWhile_eq_all_conv)
  then have len: "length (takeWhile ?P vs) < length vs" if "\<exists>v\<in>set vs. vmaid \<le> to_i32 (vm_id v)"
    using that by (metis le_neq_implies_less length_takeWhile_le takeWhile_eq_take take_all order_refl)
  have "vmaid \<le> to_i32 (vm_id (vs ! length (takeWhile ?P vs)))" if "\<exists>v\<in>set vs. vmaid \<le> to_i32 (vm_id v)"
    using nth_length_takeWhile [OF len [OF that]] by simp
  moreover have "?P (vs ! j)" if "j < length (takeWhile ?P vs)" for j
    using that takeWhile_nth [of j ?P vs] nth_mem [of j "takeWhile ?P vs"] by (metis set_takeWhileD)
  ultimately show ?thesis
    using assms len by (auto simp: get_vma_by_num_def vma_walk_chain)
qed

theorem get_vma_by_num_first_witness:
  "\<exists>k<1. get_vma_by_num (v_mm (new_ctx [])) 0 = Inr (Some k)"
  using get_vma_by_num_first [of "v_mm (new_ctx [])"
      "[\<lparr>vm_id = 1, vm_start = 0, vm_end = 0, sbrk = 0, vm_freerg_list = Node (init_vm_rg 0 0) Null\<rparr>]" 0]
  by (auto simp: new_ctx_def init_mm_def Let_def enlist_vm_rg_node_def to_i32_def)

text \<open>Writing a byte with the memory system call and reading the same physical address back
  returns the byte, sign extended to 32 bits, for every address of the RAM; both calls answer 0.\<close>

theorem sys_memmap_io_roundtrip:
  assumes "ram_ok (v_mram c)" and "0 \<le> a" and "a < maxsz (v_mram c)" and "a < 2147483648"
  shows "\<exists>c'. sys_memmap z c \<lparr>a1 = SYSMEM_IO_WRITE, a2 = a, a3 = to_u32 (sint (b :: byte))\<rparr> =
      Inr (0, \<lparr>a1 = SYSMEM_IO_WRITE, a2 = a, a3 = to_u32 (sint b)\<rparr>, c') \<and>
    sys_memmap z c' \<lparr>a1 = SYSMEM_IO_READ, a2 = a, a3 = x\<rparr> =
      Inr (0, \<lparr>a1 = SYSMEM_IO_READ, a2 = a, a3 = to_u32 (sint b)\<rparr>, c')"
proof -
  have "(word_of_int (to_u32 (sint b)) :: byte) = b" by (simp add: byte_of_u32)
  moreover have "to_i32 a = a" "to_i32 1 = 1" "to_i32 4 = 4" "to_i32 5 = 5"
    using assms by (simp_all add: to_i32_id)
  ultimately show ?thesis using assms
    by (auto simp: sys_memmap_def Let_def sysmem_ops MEMPHY_write_def MEMPHY_read_def load_byte_def
        store_byte_def ram_ok_def)
qed

theorem sys_memmap_io_roundtrip_witness:
  "\<exists>c'. sys_memmap False (new_ctx []) \<lparr>a1 = 5, a2 = 300, a3 = 4294967295\<rparr> =
      Inr (0, \<lparr>a1 = 5, a2 = 300, a3 = 4294967295\<rparr>, c') \<and>
    sys_memmap False c' \<lparr>a1 = 4, a2 = 300, a3 = 0\<rparr> = Inr (0, \<lparr>a1 = 4, a2 = 300, a3 = 4294967295\<rparr>, c')"
  using sys_memmap_io_roundtrip [of "new_ctx []" 300 False "-1" 0] by (simp add: sysmem_ops to_u32_def)

end
