(* ===== verification/Region.thy ===== *)
theory Region imports Area begin

text \<open>
  The memory library \<^verbatim>\<open>src/libmem.c\<close>: regions and symbols, allocation and release, access to a byte
  through the page table, and what a process calls (\<open>liballoc\<close>, \<open>libfree\<close>, \<open>libread\<close>, \<open>libwrite\<close>).
  The library reaches the kernel only by \<open>syscall(caller, 17, &regs)\<close>, which is \<open>sys_memmap\<close>
  (the theory of the system calls shows that the dispatcher takes it there).
\<close>

section \<open>Free regions and symbols\<close>

text \<open>The node is fresh from \<open>malloc\<close>: its link is only written when the list is not empty.\<close>

definition enlist_vm_freerg_list :: "bool \<Rightarrow> mm_struct \<Rightarrow> vm_rg_struct \<Rightarrow> (int \<times> mm_struct) res" where
  "enlist_vm_freerg_list zeroed m rg_elmt =
    (case mmap m of
       Null \<Rightarrow> Inl NullDeref
     | Wild \<Rightarrow> Inl WildPointer
     | Node vma next \<Rightarrow>
         if rg_end rg_elmt \<le> rg_start rg_elmt then Inr (-1, m)
         else
           let rg_node = vm_freerg_list vma;
               rg_elmt' = Node rg_elmt (if rg_node \<noteq> Null then rg_node else fresh_ptr zeroed)
           in Inr (0, m\<lparr>mmap := Node (vma\<lparr>vm_freerg_list := rg_elmt'\<rparr>) next\<rparr>))"

text \<open>The pointer into \<open>symrgtbl\<close> as an index; index 30 passes the test and lies behind the table.\<close>

definition get_symrg_byid :: "mm_struct \<Rightarrow> int \<Rightarrow> nat option" where
  "get_symrg_byid m rgid =
    (if rgid < 0 \<or> PAGING_MAX_SYMTBL_SZ < rgid then None else Some (nat rgid))"

definition load_symrg :: "mm_struct \<Rightarrow> int \<Rightarrow> vm_rg_struct res" where
  "load_symrg m rgid =
    (if 0 \<le> rgid \<and> nat rgid < length (symrgtbl m) then Inr (symrgtbl m ! nat rgid) else Inl OutOfBounds)"

definition store_symrg :: "mm_struct \<Rightarrow> int \<Rightarrow> vm_rg_struct \<Rightarrow> mm_struct res" where
  "store_symrg m rgid rg =
    (if 0 \<le> rgid \<and> nat rgid < length (symrgtbl m) then Inr (m\<lparr>symrgtbl := (symrgtbl m)[nat rgid := rg]\<rparr>)
     else Inl OutOfBounds)"

text \<open>
  The traversal of \<open>get_free_vmrg_area\<close>: the first free region of at least \<open>size\<close> bytes (end
  included) gives its first \<open>size\<close> bytes and is unlinked when nothing is left of it.
\<close>

fun carve :: "vm_rg_struct chain \<Rightarrow> int \<Rightarrow> (vm_rg_struct \<times> vm_rg_struct chain) option res" where
  "carve Null sz = Inr None"
| "carve Wild sz = Inl WildPointer"
| "carve (Node rgit next) sz =
    (if to_u64 sz \<le> to_u64 (rg_end rgit - rg_start rgit + 1) then
       let newrg = \<lparr>rg_start = rg_start rgit, rg_end = to_u64 (rg_start rgit + sz - 1)\<rparr>;
           rgit' = rgit\<lparr>rg_start := to_u64 (rg_start rgit + sz)\<rparr>
       in Inr (Some (newrg, if rg_end rgit' < rg_start rgit' then next else Node rgit' next))
     else bindR (carve next sz) (\<lambda>r.
       Inr (case r of None \<Rightarrow> None | Some (newrg, rest) \<Rightarrow> Some (newrg, Node rgit rest))))"

definition get_free_vmrg_area ::
  "vmctx \<Rightarrow> int \<Rightarrow> int \<Rightarrow> (int \<times> vm_rg_struct option \<times> vmctx) res" where
  "get_free_vmrg_area caller vmaid sz =
    bindR (get_vma_by_num (v_mm caller) vmaid) (\<lambda>k.
      case k of
        None \<Rightarrow> Inl NullDeref
      | Some k \<Rightarrow>
          bindR (vma_at (mmap (v_mm caller)) k) (\<lambda>cur_vma.
          bindR (carve (vm_freerg_list cur_vma) sz) (\<lambda>r.
            case r of
              None \<Rightarrow> Inr (-1, None, caller)
            | Some (newrg, rest) \<Rightarrow>
                Inr (0, Some newrg, caller\<lparr>v_mm := (v_mm caller)\<lparr>mmap :=
                  vma_set (mmap (v_mm caller)) k (cur_vma\<lparr>vm_freerg_list := rest\<rparr>)\<rparr>\<rparr>))))"

section \<open>Allocation and release\<close>

text \<open>
  \<open>__alloc\<close>: status, address and context.  The register values are \<open>uint32_t\<close>; \<open>old_sbrk\<close> is an
  \<open>int\<close>; the answer of the system call is its status, not that of \<open>inc_vma_limit\<close>.
\<close>

definition alloc_extend :: "bool \<Rightarrow> vmctx \<Rightarrow> int \<Rightarrow> int \<Rightarrow> int \<Rightarrow> nat \<Rightarrow> (int \<times> int option \<times> vmctx) res" where
  "alloc_extend zeroed caller vmaid rgid sz k =
    bindR (vma_at (mmap (v_mm caller)) k) (\<lambda>cur_vma.
      let old_sbrk = to_i32 (sbrk cur_vma) in
      bindR (sys_memmap zeroed caller \<lparr>a1 = SYSMEM_INC_OP, a2 = to_u32 vmaid, a3 = to_u32 sz\<rparr>) (\<lambda>(st, _, c1).
        if st \<noteq> 0 then Inr (-1, None, c1)
        else
          bindR (load_symrg (v_mm c1) rgid) (\<lambda>_.
          bindR (ck_int (old_sbrk + sz)) (\<lambda>e.
          bindR (store_symrg (v_mm c1) rgid \<lparr>rg_start = to_u64 old_sbrk, rg_end = to_u64 e\<rparr>) (\<lambda>m2.
          bindR (vma_at (mmap m2) k) (\<lambda>cur_vma'.
            if to_u64 e < vm_end cur_vma' then
              bindR (enlist_vm_freerg_list zeroed m2 \<lparr>rg_start = to_u64 e, rg_end = vm_end cur_vma'\<rparr>)
                (\<lambda>(_, m3). Inr (0, Some old_sbrk, c1\<lparr>v_mm := m3\<rparr>))
            else Inr (0, Some old_sbrk, c1\<lparr>v_mm := m2\<rparr>)))))))"

definition alloc_rg :: "bool \<Rightarrow> vmctx \<Rightarrow> int \<Rightarrow> int \<Rightarrow> int \<Rightarrow> (int \<times> int option \<times> vmctx) res" where
  "alloc_rg zeroed caller vmaid rgid sz =
    bindR (get_free_vmrg_area caller vmaid sz) (\<lambda>(st, rgnode, c1).
      if st = 0 then
        case rgnode of
          None \<Rightarrow> Inl UninitRead
        | Some rg \<Rightarrow>
            bindR (store_symrg (v_mm c1) rgid rg) (\<lambda>m'.
              Inr (0, Some (to_i32 (rg_start rg)), c1\<lparr>v_mm := m'\<rparr>))
      else
        bindR (get_vma_by_num (v_mm c1) vmaid) (\<lambda>k.
          case k of
            None \<Rightarrow> Inr (-1, None, c1)
          | Some k \<Rightarrow> alloc_extend zeroed c1 vmaid rgid sz k))"

definition free_rg :: "bool \<Rightarrow> vmctx \<Rightarrow> int \<Rightarrow> int \<Rightarrow> (int \<times> vmctx) res" where
  "free_rg zeroed caller vmaid rgid =
    (if rgid < 0 \<or> PAGING_MAX_SYMTBL_SZ < rgid then Inr (-1, caller)
     else
       bindR (load_symrg (v_mm caller) rgid) (\<lambda>rg.
       bindR (enlist_vm_freerg_list zeroed (v_mm caller) rg) (\<lambda>(_, m'). Inr (0, caller\<lparr>v_mm := m'\<rparr>))))"

section \<open>Access through the page table\<close>

text \<open>
  \<open>pg_getpage\<close>.  The status of the victim search and of the request for a swap frame is ignored:
  what they leave unwritten is then read.  The answers of system call 17 are always 0.
\<close>

definition pg_getpage :: "bool \<Rightarrow> vmctx \<Rightarrow> int \<Rightarrow> (int \<times> int option \<times> vmctx) res" where
  "pg_getpage zeroed caller pgn =
    (let pte = pgd (v_mm caller) pgn in
     if \<not> PAGING_PAGE_PRESENT pte then
       let tgtfpn = uint (PAGING_PTE_SWP pte) in
       bindR (find_victim_page (v_mm caller)) (\<lambda>(_, vp, m1).
       if v_active caller < length (v_mswp caller) then
       bindR (MEMPHY_get_freefp (v_mswp caller ! v_active caller)) (\<lambda>(_, sf, dev).
         case (vp, sf) of
           (Some vicpgn, Some swpfpn) \<Rightarrow>
             let c1 = caller\<lparr>v_mm := m1, v_mswp := (v_mswp caller)[v_active caller := dev]\<rparr>;
                 vicpte = pgd m1 vicpgn;
                 vicfpn = uint (PAGING_PTE_FPN vicpte)
             in
               bindR (sys_memmap zeroed c1 \<lparr>a1 = SYSMEM_SWP_OP, a2 = to_u32 vicfpn, a3 = to_u32 swpfpn\<rparr>)
                 (\<lambda>(st1, _, c2).
               if st1 \<noteq> 0 then Inr (-1, None, c2)
               else
               bindR (sys_memmap zeroed c2 \<lparr>a1 = SYSMEM_SWP_OP, a2 = to_u32 tgtfpn, a3 = to_u32 vicfpn\<rparr>)
                 (\<lambda>(st2, _, c3).
               if st2 \<noteq> 0 then Inr (-1, None, c3)
               else
                 let pgd1 = (pgd (v_mm c3))(vicpgn := pte_set_swap vicpte (v_active_id c3) swpfpn);
                     pte' = PAGING_PTE_SET_PRESENT (pte_set_fpn pte vicfpn)
                 in Inr (0, Some (PAGING_FPN pte'),
                      c3\<lparr>v_mm := (v_mm c3)\<lparr>pgd := pgd1(pgn := pte'),
                        fifo_pgn := enlist_pgn_node (fifo_pgn (v_mm c3)) pgn\<rparr>\<rparr>)))
         | _ \<Rightarrow> Inl UninitRead)
       else Inl OutOfBounds)
     else Inr (0, Some (PAGING_FPN pte), caller))"

definition pg_getval :: "bool \<Rightarrow> vmctx \<Rightarrow> int \<Rightarrow> (int \<times> byte option \<times> vmctx) res" where
  "pg_getval zeroed caller addr =
    (let pgn = PAGING_PGN addr; offst = PAGING_OFFST addr in
     bindR (pg_getpage zeroed caller pgn) (\<lambda>(st, fpn, c1).
       if st \<noteq> 0 then Inr (-1, None, c1)
       else
         case fpn of
           None \<Rightarrow> Inl UninitRead
         | Some f \<Rightarrow>
             bindR (sys_memmap zeroed c1 \<lparr>a1 = SYSMEM_IO_READ, a2 = to_u32 (PAGING_PHYADDR f offst), a3 = 0\<rparr>)
               (\<lambda>(st', rs, c2).
                 if st' \<noteq> 0 then Inr (-1, None, c2) else Inr (0, Some (word_of_int (a3 rs)), c2))))"

definition pg_setval :: "bool \<Rightarrow> vmctx \<Rightarrow> int \<Rightarrow> byte \<Rightarrow> (int \<times> vmctx) res" where
  "pg_setval zeroed caller addr val =
    (let pgn = PAGING_PGN addr; offst = PAGING_OFFST addr in
     bindR (pg_getpage zeroed caller pgn) (\<lambda>(st, fpn, c1).
       if st \<noteq> 0 then Inr (-1, c1)
       else
         case fpn of
           None \<Rightarrow> Inl UninitRead
         | Some f \<Rightarrow>
             bindR (sys_memmap zeroed c1
                 \<lparr>a1 = SYSMEM_IO_WRITE, a2 = to_u32 (PAGING_PHYADDR f offst), a3 = to_u32 (sint val)\<rparr>)
               (\<lambda>(st', _, c2). if st' \<noteq> 0 then Inr (-1, c2) else Inr (0, c2))))"

text \<open>
  The virtual address \<open>rg_start + offset\<close>: \<open>unsigned long\<close>, passed as \<open>int\<close>.  Neither access looks
  at \<open>rg_end\<close>.
\<close>

definition region_addr :: "vm_rg_struct \<Rightarrow> int \<Rightarrow> int" where
  "region_addr currg offset = to_i32 (to_u64 (rg_start currg + offset))"

text \<open>\<open>__read\<close>: the value returned (the byte, sign extended) and the byte itself, if one was read.\<close>

definition read_rg :: "bool \<Rightarrow> vmctx \<Rightarrow> int \<Rightarrow> int \<Rightarrow> int \<Rightarrow> (int \<times> byte option \<times> vmctx) res" where
  "read_rg zeroed caller vmaid rgid offset =
    bindR (get_vma_by_num (v_mm caller) vmaid) (\<lambda>cur_vma.
      case (get_symrg_byid (v_mm caller) rgid, cur_vma) of
        (Some i, Some _) \<Rightarrow>
          bindR (load_symrg (v_mm caller) (int i)) (\<lambda>currg.
          bindR (pg_getval zeroed caller (region_addr currg offset)) (\<lambda>(_, data, c1).
            case data of None \<Rightarrow> Inl UninitRead | Some d \<Rightarrow> Inr (sint d, Some d, c1)))
      | _ \<Rightarrow> Inr (-1, None, caller))"

definition write_rg :: "bool \<Rightarrow> vmctx \<Rightarrow> int \<Rightarrow> int \<Rightarrow> int \<Rightarrow> byte \<Rightarrow> (int \<times> vmctx) res" where
  "write_rg zeroed caller vmaid rgid offset val =
    bindR (get_vma_by_num (v_mm caller) vmaid) (\<lambda>cur_vma.
      case (get_symrg_byid (v_mm caller) rgid, cur_vma) of
        (Some i, Some _) \<Rightarrow>
          bindR (load_symrg (v_mm caller) (int i)) (\<lambda>currg.
          bindR (pg_setval zeroed caller (region_addr currg offset) val) (\<lambda>(_, c1). Inr (0, c1)))
      | _ \<Rightarrow> Inr (-1, caller))"

section \<open>What a process calls\<close>

text \<open>
  What the library prints: the page table up to the limit of the area, the pages whose entry is marked
  present with the frame the entry names, and (after an access) the non-zero bytes of the RAM.
\<close>

record mem_log =
  log_pgtbl :: "(int \<times> u32) list"
  log_pages :: "(int \<times> int) list"
  log_dump :: "(int \<times> byte) list"

definition present_pages :: "mm_struct \<Rightarrow> (int \<times> int) list" where
  "present_pages m =
    map (\<lambda>i. (i, uint (PAGING_PTE_FPN (pgd m i))))
      (filter (\<lambda>i. PAGING_PAGE_PRESENT (pgd m i)) [0..PAGING_MAX_PGN - 1])"

definition report :: "bool \<Rightarrow> vmctx \<Rightarrow> mem_log res" where
  "report with_dump c =
    bindR (print_pgtbl c 0 4294967295) (\<lambda>(_, tbl).
      Inr \<lparr>log_pgtbl = tbl, log_pages = present_pages (v_mm c),
           log_dump = (if with_dump then snd (MEMPHY_dump (Some (v_mram c))) else [])\<rparr>)"

text \<open>Arguments are \<open>uint32_t\<close>; the callees take \<open>int\<close>.\<close>

definition liballoc :: "bool \<Rightarrow> vmctx \<Rightarrow> int \<Rightarrow> int \<Rightarrow> (int \<times> mem_log \<times> vmctx) res" where
  "liballoc zeroed proc sz reg_index =
    bindR (alloc_rg zeroed proc 0 (to_i32 reg_index) (to_i32 sz)) (\<lambda>(val, addr, c').
    bindR (report False c') (\<lambda>out. Inr (val, out, c')))"

definition libfree :: "bool \<Rightarrow> vmctx \<Rightarrow> int \<Rightarrow> (int \<times> mem_log \<times> vmctx) res" where
  "libfree zeroed proc reg_index =
    bindR (free_rg zeroed proc 0 (to_i32 reg_index)) (\<lambda>(val, c').
    bindR (report False c') (\<lambda>out. Inr (val, out, c')))"

text \<open>The value stored through \<open>destination\<close> is the third component.\<close>

definition libread :: "bool \<Rightarrow> vmctx \<Rightarrow> int \<Rightarrow> int \<Rightarrow> (int \<times> mem_log \<times> int \<times> vmctx) res" where
  "libread zeroed proc source offset =
    bindR (read_rg zeroed proc 0 (to_i32 source) (to_i32 offset)) (\<lambda>(val, data, c').
      case data of
        None \<Rightarrow> Inl UninitRead
      | Some d \<Rightarrow> bindR (report True c') (\<lambda>out. Inr (val, out, to_u32 (sint d), c')))"

definition libwrite :: "bool \<Rightarrow> vmctx \<Rightarrow> byte \<Rightarrow> int \<Rightarrow> int \<Rightarrow> (int \<times> mem_log \<times> vmctx) res" where
  "libwrite zeroed proc data destination offset =
    bindR (write_rg zeroed proc 0 (to_i32 destination) (to_i32 offset) data) (\<lambda>(result, c').
    bindR (report True c') (\<lambda>out. Inr (result, out, c')))"

text \<open>\<open>free_pcb_memph\<close>, which nothing calls: the test of the present bit is the wrong way round.\<close>

definition free_page :: "vmctx \<Rightarrow> int \<Rightarrow> vmctx res" where
  "free_page caller pagenum =
    (let pte = pgd (v_mm caller) pagenum in
     if \<not> PAGING_PAGE_PRESENT pte then
       Inr (caller\<lparr>v_mram := MEMPHY_put_freefp (v_mram caller) (uint (PAGING_PTE_FPN pte))\<rparr>)
     else if v_active caller < length (v_mswp caller) then
       Inr (caller\<lparr>v_mswp := (v_mswp caller)[v_active caller :=
         MEMPHY_put_freefp (v_mswp caller ! v_active caller) (uint (PAGING_PTE_SWP pte))]\<rparr>)
     else Inl OutOfBounds)"

fun free_pages_loop :: "int list \<Rightarrow> vmctx \<Rightarrow> vmctx res" where
  "free_pages_loop [] c = Inr c"
| "free_pages_loop (p # ps) c = bindR (free_page c p) (free_pages_loop ps)"

definition free_pcb_memph :: "vmctx \<Rightarrow> (int \<times> vmctx) res" where
  "free_pcb_memph caller =
    bindR (free_pages_loop [0..PAGING_MAX_PGN - 1] caller) (\<lambda>c'. Inr (0, c'))"

section \<open>Regions\<close>

text \<open>What ownership does not depend on.\<close>

lemma online_symrg [simp]: "online (m\<lparr>symrgtbl := x\<rparr>) p = online m p"
  by (simp add: online_def)

lemma frames_inv_symrg [simp]: "frames_inv others held (m\<lparr>symrgtbl := x\<rparr>) ram = frames_inv others held m ram"
proof -
  have "online (m\<lparr>symrgtbl := x\<rparr>) = online m" "frame_of (m\<lparr>symrgtbl := x\<rparr>) = frame_of m"
    by (auto simp: frame_of_def fun_eq_iff)
  moreover from this have "mapped (m\<lparr>symrgtbl := x\<rparr>) = mapped m" by (simp add: mapped_def)
  ultimately show ?thesis by (simp add: frames_inv_def fifo_inv_def)
qed

lemma proc_inv_symrg:
  "proc_inv others (c\<lparr>v_mm := m\<rparr>) \<Longrightarrow> length x = 30 \<Longrightarrow> proc_inv others (c\<lparr>v_mm := m\<lparr>symrgtbl := x\<rparr>\<rparr>)"
  by (auto simp: proc_inv_def heap_inv_def)

lemma proc_inv_freerg:
  assumes "proc_inv others (c\<lparr>v_mm := m\<rparr>)" and "mmap m = Node v Null"
  shows "proc_inv others (c\<lparr>v_mm := m\<lparr>mmap := Node (v\<lparr>vm_freerg_list := l\<rparr>) Null\<rparr>\<rparr>)"
  using assms by (auto simp: proc_inv_def heap_inv_def)

text \<open>First fit: the regions before the one taken are too small and stay.\<close>

definition rg_size :: "vm_rg_struct \<Rightarrow> int" where
  "rg_size r = to_u64 (rg_end r - rg_start r + 1)"

lemma carve_skip:
  "\<forall>q\<in>set pre. rg_size q < to_u64 sz \<Longrightarrow>
     carve (chain_onto pre l) sz = bindR (carve l sz) (\<lambda>r.
       Inr (case r of None \<Rightarrow> None | Some (n, rest) \<Rightarrow> Some (n, chain_onto pre rest)))"
proof (induction pre)
  case Nil
  then show ?case by (cases "carve l sz") (auto split: option.splits)
next
  case (Cons q pre)
  then show ?case
    by (cases "carve l sz") (auto simp: rg_size_def not_le split: option.splits)
qed

lemma get_free_vmrg_area_heap:
  assumes "heap_inv (v_mm c)" and "mmap (v_mm c) = Node v Null"
  shows "get_free_vmrg_area c 0 sz = bindR (carve (vm_freerg_list v) sz) (\<lambda>r.
    case r of None \<Rightarrow> Inr (-1, None, c)
    | Some (rg, rest) \<Rightarrow> Inr (0, Some rg,
        c\<lparr>v_mm := (v_mm c)\<lparr>mmap := Node (v\<lparr>vm_freerg_list := rest\<rparr>) Null\<rparr>\<rparr>))"
  using get_vma_by_num_heap [OF assms(1), of 0] by (simp add: get_free_vmrg_area_def assms(2))

text \<open>The system call that extends the heap.\<close>

lemma sys_memmap_inc:
  assumes "0 \<le> sz" "sz < 2147483648"
  shows "sys_memmap z c \<lparr>a1 = SYSMEM_INC_OP, a2 = to_u32 0, a3 = to_u32 sz\<rparr> =
    bindR (inc_vma_limit z c 0 sz) (\<lambda>(_, c').
      Inr (0, \<lparr>a1 = SYSMEM_INC_OP, a2 = to_u32 0, a3 = to_u32 sz\<rparr>, c'))"
  using assms by (simp add: sys_memmap_def sysmem_ops to_i32_id to_u32_id)

text \<open>
  Allocation when no free region fits.  The status is 0 whatever \<open>inc_vma_limit\<close> answered; the page
  table is the one it left.
\<close>

lemma alloc_rg_extends:
  assumes inv: "proc_inv others c" and v: "mmap (v_mm c) = Node v Null"
    and none: "carve (vm_freerg_list v) sz = Inr None"
    and rgid: "0 \<le> rgid" "rgid < 30" and sz: "0 < sz"
    and fits: "heap_end (v_mm c) + grow sz \<le> 4194304"
    and inc: "inc_vma_limit z c 0 sz = Inr (ret, c1)"
  shows "\<exists>m'. alloc_rg z c 0 rgid sz = Inr (0, Some (heap_end (v_mm c)), c1\<lparr>v_mm := m'\<rparr>) \<and>
    proc_inv others (c1\<lparr>v_mm := m'\<rparr>) \<and> pgd m' = pgd (v_mm c1) \<and>
    symrgtbl m' = (symrgtbl (v_mm c))[nat rgid :=
      \<lparr>rg_start = heap_end (v_mm c), rg_end = heap_end (v_mm c) + sz\<rparr>] \<and>
    mmap m' = (if heap_overlap 0 (heap_end (v_mm c)) (grow sz) < 0 then Node v Null
      else Node (v\<lparr>sbrk := heap_end (v_mm c) + grow sz, vm_end := heap_end (v_mm c) + grow sz,
        vm_freerg_list := (if sz < grow sz
          then Node \<lparr>rg_start = heap_end (v_mm c) + sz, rg_end = heap_end (v_mm c) + grow sz\<rparr>
            (if vm_freerg_list v \<noteq> Null then vm_freerg_list v else fresh_ptr z)
          else vm_freerg_list v)\<rparr>) Null)"
proof -
  let ?e = "heap_end (v_mm c)"
  let ?m2 = "(v_mm c1)\<lparr>symrgtbl := (symrgtbl (v_mm c))[nat rgid := \<lparr>rg_start = ?e, rg_end = ?e + sz\<rparr>]\<rparr>"
  have h: "heap_inv (v_mm c)" using inv by (simp add: proc_inv_def)
  from h obtain v0 where "mmap (v_mm c) = Node v0 Null" and he: "sbrk v0 = ?e" "vm_end v0 = ?e" "0 \<le> ?e"
    "length (symrgtbl (v_mm c)) = 30" by (rule heap_invE)
  with v have v': "sbrk v = ?e" "vm_end v = ?e" by simp_all
  note g = grow_bounds [of sz]
  have fits': "?e + sz \<le> 4194304" using fits g by linarith
  have nv: "to_i32 ?e = ?e" "ck_int (?e + sz) = Inr (?e + sz)" "to_u64 ?e = ?e" "to_u64 (?e + sz) = ?e + sz"
    using fits' he(3) sz by (simp_all add: to_i32_id ck_int_id to_u64_id)
  from inc_vma_limit_inv [OF inv _ _ fits, of 0 z] inc sz have
    c1: "proc_inv others c1" "symrgtbl (v_mm c1) = symrgtbl (v_mm c)"
    "mmap (v_mm c1) = (if heap_overlap 0 ?e (grow sz) < 0 then mmap (v_mm c) else moved (v_mm c) (?e + grow sz))"
    by (auto split: if_splits)
  have p2: "proc_inv others (c1\<lparr>v_mm := ?m2\<rparr>)"
    using proc_inv_symrg [where c = c1 and m = "v_mm c1"] c1(1) he(4) by simp
  have st: "store_symrg (v_mm c1) rgid \<lparr>rg_start = ?e, rg_end = ?e + sz\<rparr> = Inr ?m2"
    and ld: "\<exists>r. load_symrg (v_mm c1) rgid = Inr r"
    using rgid he(4) c1(2) by (simp_all add: store_symrg_def load_symrg_def)
  have sys: "sys_memmap z c \<lparr>a1 = SYSMEM_INC_OP, a2 = to_u32 0, a3 = to_u32 sz\<rparr> =
      Inr (0, \<lparr>a1 = SYSMEM_INC_OP, a2 = to_u32 0, a3 = to_u32 sz\<rparr>, c1)"
    using sys_memmap_inc [of sz z c] inc sz fits' he(3) by simp
  have al: "alloc_rg z c 0 rgid sz = alloc_extend z c 0 rgid sz 0"
    using get_free_vmrg_area_heap [OF h v] none get_vma_by_num_heap [OF h, of 0] by (simp add: alloc_rg_def)
  show ?thesis
  proof (cases "heap_overlap 0 ?e (grow sz) < 0")
    case True
    then have "mmap ?m2 = Node v Null" using c1(3) v by simp
    then have "alloc_rg z c 0 rgid sz = Inr (0, Some ?e, c1\<lparr>v_mm := ?m2\<rparr>)"
      using ld sz by (auto simp: al alloc_extend_def Let_def v v' nv sys st)
    with p2 True c1(3) v show ?thesis by (intro exI [of _ ?m2]) simp
  next
    case False
    let ?v1 = "v\<lparr>sbrk := ?e + grow sz, vm_end := ?e + grow sz\<rparr>"
    have mm2: "mmap ?m2 = Node ?v1 Null" using False c1(3) v by (simp add: moved_def)
    show ?thesis
    proof (cases "sz < grow sz")
      case True
      let ?l = "Node \<lparr>rg_start = ?e + sz, rg_end = ?e + grow sz\<rparr>
            (if vm_freerg_list v \<noteq> Null then vm_freerg_list v else fresh_ptr z)"
      let ?m3 = "?m2\<lparr>mmap := Node (?v1\<lparr>vm_freerg_list := ?l\<rparr>) Null\<rparr>"
      have "enlist_vm_freerg_list z ?m2 \<lparr>rg_start = ?e + sz, rg_end = ?e + grow sz\<rparr> = Inr (0, ?m3)"
        using mm2 True by (simp add: enlist_vm_freerg_list_def Let_def)
      then have "alloc_rg z c 0 rgid sz = Inr (0, Some ?e, c1\<lparr>v_mm := ?m3\<rparr>)"
        using ld mm2 True by (auto simp: al alloc_extend_def Let_def v v' nv sys st)
      moreover have "proc_inv others (c1\<lparr>v_mm := ?m3\<rparr>)" using p2 mm2 by (rule proc_inv_freerg)
      ultimately show ?thesis using True False by (intro exI [of _ ?m3]) simp
    next
      case le: False
      then have "alloc_rg z c 0 rgid sz = Inr (0, Some ?e, c1\<lparr>v_mm := ?m2\<rparr>)"
        using ld mm2 by (auto simp: al alloc_extend_def Let_def v v' nv sys st)
      with p2 mm2 le False show ?thesis by (intro exI [of _ ?m2]) simp
    qed
  qed
qed

text \<open>Allocation when a free region fits.\<close>

lemma alloc_rg_carves:
  assumes inv: "proc_inv others c" and v: "mmap (v_mm c) = Node v Null"
    and l: "vm_freerg_list v = chain_onto pre (Node r T)" and small: "\<forall>q\<in>set pre. rg_size q < sz"
    and r: "0 \<le> rg_start r" "rg_end r < 2147483648" and sz: "0 < sz" "sz \<le> rg_end r - rg_start r + 1"
    and rgid: "0 \<le> rgid" "rgid < 30"
  shows "\<exists>m'. alloc_rg z c 0 rgid sz = Inr (0, Some (rg_start r), c\<lparr>v_mm := m'\<rparr>) \<and>
    proc_inv others (c\<lparr>v_mm := m'\<rparr>) \<and> pgd m' = pgd (v_mm c) \<and>
    symrgtbl m' = (symrgtbl (v_mm c))[nat rgid :=
      \<lparr>rg_start = rg_start r, rg_end = rg_start r + sz - 1\<rparr>] \<and>
    mmap m' = Node (v\<lparr>vm_freerg_list := chain_onto pre (if rg_end r < rg_start r + sz then T
      else Node \<lparr>rg_start = rg_start r + sz, rg_end = rg_end r\<rparr> T)\<rparr>) Null"
proof -
  let ?rest = "chain_onto pre (if rg_end r < rg_start r + sz then T
      else Node \<lparr>rg_start = rg_start r + sz, rg_end = rg_end r\<rparr> T)"
  let ?rg = "\<lparr>rg_start = rg_start r, rg_end = rg_start r + sz - 1\<rparr>"
  let ?m1 = "(v_mm c)\<lparr>mmap := Node (v\<lparr>vm_freerg_list := ?rest\<rparr>) Null\<rparr>"
  let ?m2 = "?m1\<lparr>symrgtbl := (symrgtbl (v_mm c))[nat rgid := ?rg]\<rparr>"
  have h: "heap_inv (v_mm c)" using inv by (simp add: proc_inv_def)
  then have len: "length (symrgtbl (v_mm c)) = 30" by (simp add: heap_inv_def)
  have u: "to_u64 sz = sz" "to_u64 (rg_end r - rg_start r + 1) = rg_end r - rg_start r + 1"
    "to_u64 (rg_start r + sz - 1) = rg_start r + sz - 1" "to_u64 (rg_start r + sz) = rg_start r + sz"
    "to_i32 (rg_start r) = rg_start r"
    using r sz by (simp_all add: to_u64_id to_i32_id)
  have upd: "r\<lparr>rg_start := a\<rparr> = \<lparr>rg_start = a, rg_end = rg_end r\<rparr>" for a by (cases r) simp
  have "carve (vm_freerg_list v) sz = Inr (Some (?rg, ?rest))"
    using carve_skip [of pre sz "Node r T"] small sz(2) u by (simp add: l Let_def upd)
  then have g: "get_free_vmrg_area c 0 sz = Inr (0, Some ?rg, c\<lparr>v_mm := ?m1\<rparr>)"
    by (simp add: get_free_vmrg_area_heap [OF h v])
  have st: "store_symrg ?m1 rgid ?rg = Inr ?m2" using rgid len by (simp add: store_symrg_def)
  have "alloc_rg z c 0 rgid sz = Inr (0, Some (rg_start r), c\<lparr>v_mm := ?m2\<rparr>)"
    using st by (simp add: alloc_rg_def g u(5))
  moreover have "proc_inv others (c\<lparr>v_mm := ?m1\<rparr>)" using proc_inv_freerg [of others "v_mm c" c, OF _ v] inv by simp
  then have "proc_inv others (c\<lparr>v_mm := ?m2\<rparr>)" by (rule proc_inv_symrg) (simp add: len)
  ultimately show ?thesis by (intro exI [of _ ?m2]) simp
qed

section \<open>Access to an online page\<close>

lemma online_pgn:
  assumes "online m p" shows "PAGING_PAGE_PRESENT (pgd m p)"
  using assms by (simp add: online_def)

lemma pg_getpage_present:
  "PAGING_PAGE_PRESENT (pgd (v_mm c) p) \<Longrightarrow> pg_getpage z c p = Inr (0, Some (frame_of (v_mm c) p), c)"
  by (simp add: pg_getpage_def frame_of_def)

text \<open>The physical address of a virtual address whose page is online.\<close>

definition phys :: "mm_struct \<Rightarrow> int \<Rightarrow> int" where
  "phys m addr = PAGING_PHYADDR (frame_of m (PAGING_PGN addr)) (PAGING_OFFST addr)"

lemma phys_in_frame:
  assumes "ctx_inv others held c" and "online (v_mm c) (PAGING_PGN addr)"
  shows "phys (v_mm c) addr div 256 = frame_of (v_mm c) (PAGING_PGN addr)" "0 \<le> phys (v_mm c) addr"
    "phys (v_mm c) addr < maxsz (v_mram c)" "phys (v_mm c) addr < 2147483648"
proof -
  let ?f = "frame_of (v_mm c) (PAGING_PGN addr)"
  have f: "?f \<in> real_frames (v_mram c)" using assms by (auto simp: frames_inv_def mapped_def)
  then have b: "0 \<le> ?f" "?f * 256 + 256 \<le> maxsz (v_mram c)" using real_frames_fit by auto
  have m: "maxsz (v_mram c) \<le> 2097152" using assms(1) by (simp add: frames_inv_def ram_inv_def)
  have o: "0 \<le> addr mod 256" "addr mod 256 < 256" by simp_all
  have p: "phys (v_mm c) addr = ?f * 256 + addr mod 256"
    by (simp add: phys_def PAGING_PHYADDR_eq PAGING_OFFST_eq)
  show "phys (v_mm c) addr div 256 = ?f" unfolding p by simp
  show "0 \<le> phys (v_mm c) addr" "phys (v_mm c) addr < maxsz (v_mram c)"
    "phys (v_mm c) addr < 2147483648" unfolding p using b m o by linarith+
qed

lemma pg_setval_online:
  assumes "ctx_inv others held c" and "online (v_mm c) (PAGING_PGN addr)"
  shows "pg_setval z c addr b = Inr (0, c\<lparr>v_mram := (v_mram c)\<lparr>storage :=
    (storage (v_mram c))(phys (v_mm c) addr := b)\<rparr>\<rparr>)"
  using assms phys_in_frame [OF assms]
  by (simp add: pg_setval_def Let_def pg_getpage_present [OF online_pgn] phys_def [symmetric] sys_memmap_def
      sysmem_ops to_u32_id to_i32_id MEMPHY_write_def frames_inv_def ram_inv_def ram_ok_def store_byte_def byte_of_u32)

lemma pg_getval_online:
  assumes "ctx_inv others held c" and "online (v_mm c) (PAGING_PGN addr)"
  shows "pg_getval z c addr = Inr (0, Some (storage (v_mram c) (phys (v_mm c) addr)), c)"
  using assms phys_in_frame [OF assms]
  by (simp add: pg_getval_def Let_def pg_getpage_present [OF online_pgn] phys_def [symmetric] sys_memmap_def
      sysmem_ops to_u32_id to_i32_id MEMPHY_read_def frames_inv_def ram_inv_def ram_ok_def load_byte_def byte_of_u32)

lemma proc_inv_store:
  "proc_inv others c \<Longrightarrow> proc_inv others (c\<lparr>v_mram := (v_mram c)\<lparr>storage := s\<rparr>\<rparr>)"
proof -
  have "ram_ok (m\<lparr>storage := s\<rparr>) = ram_ok m" "pool_ok (m\<lparr>storage := s\<rparr>) = pool_ok m"
    "free_frames (m\<lparr>storage := s\<rparr>) = free_frames m" "real_frames (m\<lparr>storage := s\<rparr>) = real_frames m" for m
    by (simp_all add: ram_ok_def pool_ok_def free_frames_def real_frames_def)
  then show "proc_inv others c \<Longrightarrow> proc_inv others (c\<lparr>v_mram := (v_mram c)\<lparr>storage := s\<rparr>\<rparr>)"
    by (simp add: proc_inv_def frames_inv_def ram_inv_def swaps_ok_def)
qed

lemma write_read_rg_online:
  assumes inv: "proc_inv others c" and rgid: "0 \<le> rgid" "rgid < 30"
    and on: "online (v_mm c) (PAGING_PGN (region_addr (symrgtbl (v_mm c) ! nat rgid) off))"
  shows "write_rg z c 0 rgid off b = Inr (0, c\<lparr>v_mram := (v_mram c)\<lparr>storage := (storage (v_mram c))
      (phys (v_mm c) (region_addr (symrgtbl (v_mm c) ! nat rgid) off) := b)\<rparr>\<rparr>)"
    and "read_rg z c 0 rgid off = (let d = storage (v_mram c)
      (phys (v_mm c) (region_addr (symrgtbl (v_mm c) ! nat rgid) off)) in Inr (sint d, Some d, c))"
proof -
  have h: "heap_inv (v_mm c)" and ci: "ctx_inv others {} c" using inv by (simp_all add: proc_inv_def)
  then have "length (symrgtbl (v_mm c)) = 30" by (simp add: heap_inv_def)
  then have l: "load_symrg (v_mm c) rgid = Inr (symrgtbl (v_mm c) ! nat rgid)"
    "get_symrg_byid (v_mm c) rgid = Some (nat rgid)"
    using rgid by (simp_all add: load_symrg_def get_symrg_byid_def PAGING_MAX_SYMTBL_SZ_def)
  note k = get_vma_by_num_heap [OF h, of 0]
  show "write_rg z c 0 rgid off b = Inr (0, c\<lparr>v_mram := (v_mram c)\<lparr>storage := (storage (v_mram c))
      (phys (v_mm c) (region_addr (symrgtbl (v_mm c) ! nat rgid) off) := b)\<rparr>\<rparr>)"
    using pg_setval_online [OF ci on] k l rgid by (simp add: write_rg_def)
  show "read_rg z c 0 rgid off = (let d = storage (v_mram c)
      (phys (v_mm c) (region_addr (symrgtbl (v_mm c) ! nat rgid) off)) in Inr (sint d, Some d, c))"
    using pg_getval_online [OF ci on] k l rgid by (simp add: read_rg_def Let_def)
qed

section \<open>Properties\<close>

text \<open>C22: a byte written to a region whose page is online is read back; the write changes exactly one
  byte of RAM, which lies in a frame of the process, so that no byte of a free frame or of a frame of
  another process changes, and it keeps the invariant of the process.\<close>

theorem write_then_read:
  assumes inv: "proc_inv others c" and rgid: "0 \<le> rgid" "rgid < 30"
    and on: "online (v_mm c) (PAGING_PGN (region_addr (symrgtbl (v_mm c) ! nat rgid) off))"
  shows "\<exists>c'. write_rg z c 0 rgid off b = Inr (0, c') \<and> read_rg z c' 0 rgid off = Inr (sint b, Some b, c') \<and>
    proc_inv others c' \<and> v_mm c' = v_mm c \<and>
    (\<forall>a. a \<noteq> phys (v_mm c) (region_addr (symrgtbl (v_mm c) ! nat rgid) off) \<longrightarrow>
      storage (v_mram c') a = storage (v_mram c) a) \<and>
    (\<forall>a. a div 256 \<in> others \<union> set (free_frames (v_mram c)) \<longrightarrow> storage (v_mram c') a = storage (v_mram c) a)"
proof -
  let ?a = "region_addr (symrgtbl (v_mm c) ! nat rgid) off"
  let ?c' = "c\<lparr>v_mram := (v_mram c)\<lparr>storage := (storage (v_mram c))(phys (v_mm c) ?a := b)\<rparr>\<rparr>"
  have ci: "ctx_inv others {} c" using inv by (simp add: proc_inv_def)
  have inv': "proc_inv others ?c'" using inv by (rule proc_inv_store)
  have on': "online (v_mm ?c') (PAGING_PGN (region_addr (symrgtbl (v_mm ?c') ! nat rgid) off))"
    using on by simp
  have "frame_of (v_mm c) (PAGING_PGN ?a) \<in> mapped (v_mm c)" using on by (simp add: mapped_def)
  then have "phys (v_mm c) ?a div 256 \<notin> others \<union> set (free_frames (v_mram c))"
    using ci phys_in_frame(1) [OF ci on] by (auto simp: frames_inv_def)
  then have other: "storage (v_mram ?c') x = storage (v_mram c) x"
    if "x div 256 \<in> others \<union> set (free_frames (v_mram c))" for x using that by auto
  have "write_rg z c 0 rgid off b = Inr (0, ?c')" by (rule write_read_rg_online [OF inv rgid on])
  moreover have "read_rg z ?c' 0 rgid off = Inr (sint b, Some b, ?c')"
    using write_read_rg_online(2) [OF inv' rgid on', of z] by (simp add: Let_def)
  ultimately show ?thesis using inv' other by (intro exI [of _ ?c']) simp
qed

text \<open>A process with one page of heap, on frame 2, and a region in it.\<close>

definition page_ctx :: vmctx where
  "page_ctx = (new_ctx [0])\<lparr>v_mm := \<lparr>pgd = (\<lambda>_. 0)(0 := pte_set_fpn 0 2),
     mmap = Node \<lparr>vm_id = 1, vm_start = 0, vm_end = 256, sbrk = 256, vm_freerg_list = Null\<rparr> Null,
     symrgtbl = replicate 30 \<lparr>rg_start = 0, rg_end = 200\<rparr>, fifo_pgn = Node 0 Null\<rparr>\<rparr>"

lemma page_ctx_online: "online (v_mm page_ctx) p \<longleftrightarrow> p = 0"
proof -
  have "\<not> PAGING_PAGE_PRESENT 0" by (simp add: PAGING_PAGE_PRESENT_def)
  then show ?thesis by (simp add: page_ctx_def online_def)
qed

lemma page_ctx_inv: "2 \<notin> others \<Longrightarrow> 0 \<notin> others \<Longrightarrow> proc_inv others page_ctx"
proof -
  have f: "frame_of (v_mm page_ctx) 0 = 2" by (simp add: frame_of_def page_ctx_def)
  have m: "mapped (v_mm page_ctx) = {2}" by (simp add: mapped_def page_ctx_online f)
  have r: "v_mram page_ctx = idle_ram [0]" by (simp add: page_ctx_def)
  have "fifo_inv (v_mm page_ctx)" unfolding fifo_inv_def by (simp add: page_ctx_online) (simp add: page_ctx_def)
  moreover have "heap_inv (v_mm page_ctx)"
    unfolding heap_inv_def by (simp add: page_ctx_online) (simp add: page_ctx_def)
  moreover have "swaps_ok page_ctx" using idle_ctx_swaps [of "[0]"] by (simp add: page_ctx_def new_ctx_def)
  ultimately show "2 \<notin> others \<Longrightarrow> 0 \<notin> others \<Longrightarrow> proc_inv others page_ctx"
    by (auto simp: proc_inv_def frames_inv_def ram_inv_def m r real_frames_def page_ctx_online)
qed

theorem write_then_read_witness:
  "\<exists>c'. write_rg False page_ctx 0 4 20 100 = Inr (0, c') \<and>
     read_rg False c' 0 4 20 = Inr (100, Some 100, c') \<and> proc_inv {1, 3} c'"
proof -
  have "symrgtbl (v_mm page_ctx) ! nat 4 = \<lparr>rg_start = 0, rg_end = 200\<rparr>"
    by (simp add: page_ctx_def nth_replicate)
  then have "region_addr (symrgtbl (v_mm page_ctx) ! nat 4) 20 = 20"
    by (simp add: region_addr_def to_u64_id to_i32_id)
  then have on: "online (v_mm page_ctx) (PAGING_PGN (region_addr (symrgtbl (v_mm page_ctx) ! nat 4) 20))"
    by (simp only: page_ctx_online) (simp add: PAGING_PGN_eq)
  have "proc_inv {1, 3} page_ctx" by (rule page_ctx_inv) auto
  from write_then_read [OF this _ _ on, of False 100] show ?thesis by auto
qed

text \<open>C23: a page that was swapped out is never brought back: its entry keeps the present bit, so an
  access takes the swap type and the low bits of the swap offset for a frame number and goes to frame
  \<open>32 * (f mod 256) + i\<close> of RAM, whoever owns it, without any transfer from the swap device.\<close>

theorem swapped_page_never_swapped_in:
  assumes "pgd (v_mm c) pgn = pte_set_swap e i f" and "0 \<le> i" and "i < 32" and "0 \<le> f"
  shows "pg_getpage z c pgn = Inr (0, Some (32 * (f mod 256) + i), c)"
proof -
  have "PAGING_FPN (pte_set_swap e i f) = 32 * (f mod 256) + i"
    using assms(2-4) by (rule PAGING_FPN_pte_set_swap)
  then show ?thesis using pg_getpage_present [of c pgn z] by (simp add: assms(1) frame_of_def)
qed

theorem swapped_page_never_swapped_in_witness:
  "pg_getpage False (page_ctx\<lparr>v_mm := (v_mm page_ctx)\<lparr>pgd := (\<lambda>_. 0)(7 := pte_set_swap 0 0 3)\<rparr>\<rparr>) 7 =
     Inr (0, Some 96, page_ctx\<lparr>v_mm := (v_mm page_ctx)\<lparr>pgd := (\<lambda>_. 0)(7 := pte_set_swap 0 0 3)\<rparr>\<rparr>)"
  using swapped_page_never_swapped_in
    [of "page_ctx\<lparr>v_mm := (v_mm page_ctx)\<lparr>pgd := (\<lambda>_. 0)(7 := pte_set_swap 0 0 3)\<rparr>\<rparr>" 7 0 0 3 False]
  by simp

text \<open>C29: first fit: when the free regions before \<open>r\<close> are too small and \<open>r\<close> has at least \<open>sz\<close> bytes, the
  allocation gives the first \<open>sz\<close> bytes of \<open>r\<close> to the symbol, leaves the rest of \<open>r\<close> in its place in
  the free list (nothing when it is used up), changes no other symbol and no page table entry, and
  keeps the invariant of the process.\<close>

theorem alloc_first_fit:
  assumes "proc_inv others c" and "mmap (v_mm c) = Node v Null"
    and "vm_freerg_list v = chain_onto pre (Node r T)" and "\<forall>q\<in>set pre. rg_size q < sz"
    and "0 \<le> rg_start r" and "rg_end r < 2147483648" and "0 < sz" and "sz \<le> rg_end r - rg_start r + 1"
    and "0 \<le> rgid" and "rgid < 30"
  shows "\<exists>m'. alloc_rg z c 0 rgid sz = Inr (0, Some (rg_start r), c\<lparr>v_mm := m'\<rparr>) \<and>
    proc_inv others (c\<lparr>v_mm := m'\<rparr>) \<and> pgd m' = pgd (v_mm c) \<and>
    symrgtbl m' = (symrgtbl (v_mm c))[nat rgid := \<lparr>rg_start = rg_start r, rg_end = rg_start r + sz - 1\<rparr>] \<and>
    mmap m' = Node (v\<lparr>vm_freerg_list := chain_onto pre (if rg_end r < rg_start r + sz then T
      else Node \<lparr>rg_start = rg_start r + sz, rg_end = rg_end r\<rparr> T)\<rparr>) Null"
  by (rule alloc_rg_carves [OF assms])

theorem alloc_first_fit_witness:
  "\<exists>c m'. alloc_rg False c 0 3 50 = Inr (0, Some 100, c\<lparr>v_mm := m'\<rparr>) \<and>
     symrgtbl m' ! 3 = \<lparr>rg_start = 100, rg_end = 149\<rparr>"
proof -
  let ?l = "chain_onto [\<lparr>rg_start = 10, rg_end = 20\<rparr>] (Node \<lparr>rg_start = 100, rg_end = 200\<rparr> Null)"
  let ?v = "\<lparr>vm_id = 1, vm_start = 0, vm_end = 256, sbrk = 256, vm_freerg_list = ?l\<rparr>"
  let ?c = "page_ctx\<lparr>v_mm := (v_mm page_ctx)\<lparr>mmap := Node ?v Null\<rparr>\<rparr>"
  have p: "proc_inv {} page_ctx" by (rule page_ctx_inv) auto
  have v0: "mmap (v_mm page_ctx) =
      Node \<lparr>vm_id = 1, vm_start = 0, vm_end = 256, sbrk = 256, vm_freerg_list = Null\<rparr> Null"
    by (simp add: page_ctx_def)
  from p have "proc_inv {} (page_ctx\<lparr>v_mm := v_mm page_ctx\<rparr>)" by simp
  from proc_inv_freerg [OF this v0, of ?l] have inv: "proc_inv {} ?c" by simp
  have mm: "mmap (v_mm ?c) = Node ?v Null" and fl: "vm_freerg_list ?v = ?l" by simp_all
  have small: "\<forall>q\<in>set [\<lparr>rg_start = 10, rg_end = 20\<rparr>]. rg_size q < 50"
    by (simp add: rg_size_def to_u64_id)
  obtain m' where "alloc_rg False ?c 0 3 50 = Inr (0, Some 100, ?c\<lparr>v_mm := m'\<rparr>)"
    "symrgtbl m' = (symrgtbl (v_mm ?c))[3 := \<lparr>rg_start = 100, rg_end = 149\<rparr>]"
    using alloc_first_fit [OF inv mm fl small, of 3 False] by auto
  moreover have "length (symrgtbl (v_mm ?c)) = 30" using p by (simp add: proc_inv_def heap_inv_def)
  ultimately show ?thesis by (intro exI [of _ ?c] exI [of _ m']) simp
qed

text \<open>The pages of a new region.\<close>

lemma region_page:
  assumes "heap_inv m" and "heap_end m \<le> a" and "a < heap_end m + sz" and "heap_end m + grow sz \<le> 4194304"
  shows "PAGING_PGN a = a div 256" "heap_end m \<le> a div 256 * 256" "a div 256 * 256 < heap_end m + grow sz"
proof -
  from assms(1) obtain v where e: "0 \<le> heap_end m" "heap_end m mod 256 = 0" by (rule heap_invE)
  note g = grow_bounds [of sz]
  have "0 \<le> a div 256" using assms(2) e(1) by simp
  moreover have "a div 256 < 16384" using assms(3,4) g div_less_iff_int [of 256 a 16384] by linarith
  ultimately show "PAGING_PGN a = a div 256" by (simp add: PAGING_PGN_eq)
  have "heap_end m div 256 \<le> a div 256" using assms(2) by (intro zdiv_mono1) auto
  moreover have "heap_end m div 256 * 256 = heap_end m" using e(2) by auto
  ultimately show "heap_end m \<le> a div 256 * 256" by linarith
  have "a div 256 * 256 \<le> a" by (simp add: minus_mod_eq_div_mult [symmetric])
  then show "a div 256 * 256 < heap_end m + grow sz" using assms(3) g by linarith
qed

lemma online_pgd: "pgd m = pgd m' \<Longrightarrow> online m p = online m' p"
  by (simp add: online_def)

text \<open>Without a free frame and without a page to evict, the heap does not grow.\<close>

lemma inc_vma_limit_no_frames:
  assumes "proc_inv others c" and "free_frames (v_mram c) = []" and "fifo_pgn (v_mm c) = Null"
    and "0 < sz" and "heap_end (v_mm c) + grow sz \<le> 4194304"
  shows "\<exists>c1. inc_vma_limit z c 0 sz = Inr (-1, c1) \<and> pgd (v_mm c1) = pgd (v_mm c)"
proof (cases "heap_overlap 0 (heap_end (v_mm c)) (grow sz) < 0")
  case True
  with inc_vma_limit_heap [OF assms(1) _ _ assms(5), of 0 z] assms(4) show ?thesis by simp
next
  case False
  have "0 < grow sz div 256" using assms(4) zdiv_mono1 [of 256 "sz + 255" 256] by (simp add: grow_pages)
  then obtain n where n: "nat (grow sz div 256) = Suc n" by (metis gr0_implies_Suc zero_less_nat_eq)
  have "pool_ok (v_mram c)" using assms(1) by (simp add: proc_inv_def frames_inv_def ram_inv_def)
  then have "MEMPHY_get_freefp (v_mram c) = Inr (-1, None, v_mram c)" using assms(2) by (rule fp.get_none)
  then have "alloc_pages_loop z (Suc n) Null (c\<lparr>v_mm := m\<rparr>) = Inr (-1, Null, c\<lparr>v_mm := m\<rparr>)"
    if "fifo_pgn m = Null" for m
    using that by (simp add: steal_frame_def find_victim_page_def)
  then show ?thesis
    using inc_vma_limit_heap [OF assms(1) _ _ assms(5), of 0 z] assms(3,4) False
    by (simp add: vm_map_ram_def alloc_pages_range_def n Let_def)
qed

text \<open>C27: when no free region fits, allocation places the region at the end of the heap and answers
  0 with that address; the invariant holds, no byte of RAM changes and the other symbols keep their
  regions.  Unless the overlap test rejects the request, which leaves the area as it was, the end of the heap moves up by the
  size in whole pages, and what the region leaves of them is put in front of the free regions (a full last page leaves
  nothing).  When the pages could be mapped as well (\<open>ret = 0\<close>), which holds with enough free frames unless the
  overlap test rejects the request, every byte of the new region is on an online page, so it can be
  read and written.\<close>

theorem alloc_extends_heap:
  assumes inv: "proc_inv others c" and v: "mmap (v_mm c) = Node v Null"
    and none: "carve (vm_freerg_list v) sz = Inr None" and rgid: "0 \<le> rgid" "rgid < 30"
    and sz: "0 < sz" and fits: "heap_end (v_mm c) + grow sz \<le> 4194304"
  shows "\<exists>ret c1 c'. inc_vma_limit z c 0 sz = Inr (ret, c1) \<and>
    alloc_rg z c 0 rgid sz = Inr (0, Some (heap_end (v_mm c)), c') \<and> proc_inv others c' \<and>
    storage (v_mram c') = storage (v_mram c) \<and>
    symrgtbl (v_mm c') = (symrgtbl (v_mm c))[nat rgid :=
      \<lparr>rg_start = heap_end (v_mm c), rg_end = heap_end (v_mm c) + sz\<rparr>] \<and>
    (if heap_overlap 0 (heap_end (v_mm c)) (grow sz) < 0 then ret = -1 \<and> mmap (v_mm c') = Node v Null
     else \<exists>v'. mmap (v_mm c') = Node v' Null \<and> vm_id v' = vm_id v \<and> vm_start v' = vm_start v \<and>
       sbrk v' = heap_end (v_mm c) + grow sz \<and> vm_end v' = heap_end (v_mm c) + grow sz \<and>
       vm_freerg_list v' = (if sz < grow sz
         then Node \<lparr>rg_start = heap_end (v_mm c) + sz, rg_end = heap_end (v_mm c) + grow sz\<rparr>
           (if vm_freerg_list v \<noteq> Null then vm_freerg_list v else fresh_ptr z)
         else vm_freerg_list v)) \<and>
    (nat (grow sz div 256) \<le> length (free_frames (v_mram c)) \<and>
      0 \<le> heap_overlap 0 (heap_end (v_mm c)) (grow sz) \<longrightarrow> ret = 0) \<and>
    (ret = 0 \<longrightarrow> heap_end (v_mm c') = heap_end (v_mm c) + grow sz \<and>
      (\<forall>a. heap_end (v_mm c) \<le> a \<and> a < heap_end (v_mm c) + sz \<longrightarrow> online (v_mm c') (PAGING_PGN a)))"
proof -
  have h: "heap_inv (v_mm c)" using inv by (simp add: proc_inv_def)
  obtain ret c1 where i: "inc_vma_limit z c 0 sz = Inr (ret, c1)" "storage (v_mram c1) = storage (v_mram c)"
    "ret = 0 \<longrightarrow> heap_end (v_mm c1) = heap_end (v_mm c) + grow sz \<and>
      (\<forall>p. heap_end (v_mm c) \<le> p * 256 \<and> p * 256 < heap_end (v_mm c1) \<longrightarrow> online (v_mm c1) p)"
    "nat (grow sz div 256) \<le> length (free_frames (v_mram c)) \<and>
      0 \<le> heap_overlap 0 (heap_end (v_mm c)) (grow sz) \<longrightarrow> ret = 0"
    using inc_vma_limit_inv [OF inv _ _ fits, of 0 z] sz by (auto split: if_splits)
  have rej: "ret = -1" if "heap_overlap 0 (heap_end (v_mm c)) (grow sz) < 0"
    using inc_vma_limit_inv [OF inv _ _ fits, of 0 z] sz i(1) that by simp
  obtain m' where m': "alloc_rg z c 0 rgid sz = Inr (0, Some (heap_end (v_mm c)), c1\<lparr>v_mm := m'\<rparr>)"
    "proc_inv others (c1\<lparr>v_mm := m'\<rparr>)" "pgd m' = pgd (v_mm c1)"
    "symrgtbl m' = (symrgtbl (v_mm c))[nat rgid :=
      \<lparr>rg_start = heap_end (v_mm c), rg_end = heap_end (v_mm c) + sz\<rparr>]"
    and mp: "mmap m' = (if heap_overlap 0 (heap_end (v_mm c)) (grow sz) < 0 then Node v Null
      else Node (v\<lparr>sbrk := heap_end (v_mm c) + grow sz, vm_end := heap_end (v_mm c) + grow sz,
        vm_freerg_list := (if sz < grow sz
          then Node \<lparr>rg_start = heap_end (v_mm c) + sz, rg_end = heap_end (v_mm c) + grow sz\<rparr>
            (if vm_freerg_list v \<noteq> Null then vm_freerg_list v else fresh_ptr z)
          else vm_freerg_list v)\<rparr>) Null)"
    using alloc_rg_extends [OF inv v none rgid sz fits i(1)] by blast
  have he: "heap_end m' = heap_end (v_mm c) + grow sz" if "ret = 0"
    using that rej mp by (cases "heap_overlap 0 (heap_end (v_mm c)) (grow sz) < 0") (simp_all add: heap_end_def)
  have "online m' (PAGING_PGN a)"
    if "ret = 0" "heap_end (v_mm c) \<le> a" "a < heap_end (v_mm c) + sz" for a
    using region_page [OF h that(2,3) fits] that(1) i(3) online_pgd [OF m'(3)] by simp
  with i(1,2,4) rej m' mp he show ?thesis by (intro exI [of _ ret] exI [of _ c1] exI [of _ "c1\<lparr>v_mm := m'\<rparr>"]) simp
qed

lemma new_ctx_mmap:
  "mmap (v_mm (new_ctx fs)) = Node \<lparr>vm_id = 1, vm_start = 0, vm_end = 0, sbrk = 0,
     vm_freerg_list = Node \<lparr>rg_start = 0, rg_end = 0\<rparr> Null\<rparr> Null"
  by (simp add: new_ctx_def init_mm_def Let_def init_vm_rg_def to_u64_def enlist_vm_rg_node_def)

theorem alloc_extends_heap_witness:
  "\<exists>c' v'. alloc_rg False (new_ctx [2, 0]) 0 3 300 = Inr (0, Some 0, c') \<and> proc_inv {1} c' \<and>
     online (v_mm c') (PAGING_PGN 299) \<and> heap_end (v_mm c') = 512 \<and> mmap (v_mm c') = Node v' Null \<and>
     vm_freerg_list v' = Node \<lparr>rg_start = 300, rg_end = 512\<rparr> (Node \<lparr>rg_start = 0, rg_end = 0\<rparr> Null)"
proof -
  have e: "heap_end (v_mm (new_ctx [2, 0])) = 0" by (simp add: heap_end_def new_ctx_mmap)
  have g: "grow 300 = 512" by (simp add: grow_def)
  obtain ret c' where a: "alloc_rg False (new_ctx [2, 0]) 0 3 300 = Inr (0, Some 0, c')" "proc_inv {1} c'" "ret = 0"
    "\<exists>v'. mmap (v_mm c') = Node v' Null \<and>
       vm_freerg_list v' = Node \<lparr>rg_start = 300, rg_end = 512\<rparr> (Node \<lparr>rg_start = 0, rg_end = 0\<rparr> Null)"
    "ret = 0 \<longrightarrow> heap_end (v_mm c') = 512 \<and> (\<forall>a. 0 \<le> a \<and> a < 300 \<longrightarrow> online (v_mm c') (PAGING_PGN a))"
    using alloc_extends_heap [OF new_ctx_inv new_ctx_mmap, of "[2, 0]" "{1}" 300 3 False]
    by (simp add: e g to_u64_def heap_overlap_def) blast
  then have "online (v_mm c') (PAGING_PGN 299)" by simp
  with a show ?thesis by blast
qed

text \<open>Allocation reports success although it got no memory: without a free frame and without a page
  to evict, the status is 0, the symbol names the new region, and not one of its bytes is on an
  online page.  The failure of \<open>inc_vma_limit\<close> is dropped by the system call handler.\<close>

theorem alloc_hides_failure:
  assumes inv: "proc_inv others c" and v: "mmap (v_mm c) = Node v Null"
    and none: "carve (vm_freerg_list v) sz = Inr None" and rgid: "0 \<le> rgid" "rgid < 30"
    and sz: "0 < sz" and fits: "heap_end (v_mm c) + grow sz \<le> 4194304"
    and mem: "free_frames (v_mram c) = []" "fifo_pgn (v_mm c) = Null"
  shows "\<exists>c'. alloc_rg z c 0 rgid sz = Inr (0, Some (heap_end (v_mm c)), c') \<and>
    load_symrg (v_mm c') rgid = Inr \<lparr>rg_start = heap_end (v_mm c), rg_end = heap_end (v_mm c) + sz\<rparr> \<and>
    (\<forall>a. heap_end (v_mm c) \<le> a \<and> a < heap_end (v_mm c) + sz \<longrightarrow> \<not> online (v_mm c') (PAGING_PGN a))"
proof -
  have h: "heap_inv (v_mm c)" using inv by (simp add: proc_inv_def)
  then have len: "length (symrgtbl (v_mm c)) = 30" by (simp add: heap_inv_def)
  obtain c1 where i: "inc_vma_limit z c 0 sz = Inr (-1, c1)" "pgd (v_mm c1) = pgd (v_mm c)"
    using inc_vma_limit_no_frames [OF inv mem sz fits] by blast
  obtain m' where m': "alloc_rg z c 0 rgid sz = Inr (0, Some (heap_end (v_mm c)), c1\<lparr>v_mm := m'\<rparr>)"
    "pgd m' = pgd (v_mm c1)" "symrgtbl m' = (symrgtbl (v_mm c))[nat rgid :=
      \<lparr>rg_start = heap_end (v_mm c), rg_end = heap_end (v_mm c) + sz\<rparr>]"
    using alloc_rg_extends [OF inv v none rgid sz fits i(1)] by blast
  have "\<not> online m' (PAGING_PGN a)" if "heap_end (v_mm c) \<le> a" "a < heap_end (v_mm c) + sz" for a
  proof -
    from h obtain w where "\<forall>p. online (v_mm c) p \<longrightarrow> p * 256 < heap_end (v_mm c)" by (rule heap_invE)
    then have "\<not> online (v_mm c) (a div 256)" using region_page(2) [OF h that fits] by force
    then show ?thesis using region_page(1) [OF h that fits] online_pgd [of m' "v_mm c"] m'(2) i(2) by simp
  qed
  with m' len rgid show ?thesis by (auto simp: load_symrg_def)
qed

theorem alloc_hides_failure_witness:
  "\<exists>c'. alloc_rg False (new_ctx []) 0 3 300 = Inr (0, Some 0, c') \<and> \<not> online (v_mm c') 0"
  using alloc_hides_failure [OF new_ctx_inv new_ctx_mmap, of "[]" "{}" 300 3 False]
  by (fastforce simp: grow_def to_u64_def free_frames_def idle_ram_def PAGING_PGN_eq)

text \<open>C39: the first allocation of a process depends on what \<open>malloc\<close> returned: \<open>init_mm\<close> pushes the region
  \<open>[0, 0]\<close> onto a list head it never set, so unless that memory held zeros, every request of two bytes or
  more follows a wild pointer.\<close>

theorem first_allocation_wild:
  assumes "v_mm c = init_mm False pgd0 mm0" and "1 < sz" and "sz < 2147483648" and "vmaid \<le> 1"
  shows "alloc_rg z c vmaid rgid sz = Inl WildPointer"
proof -
  have "to_u64 0 = 0" by (simp add: to_u64_def)
  moreover have "carve (Node \<lparr>rg_start = 0, rg_end = 0\<rparr> Wild) sz = Inl WildPointer"
    using assms(2,3) by (simp add: to_u64_def)
  ultimately show ?thesis using assms(1,4)
    by (simp add: alloc_rg_def get_free_vmrg_area_def get_vma_by_num_def init_mm_def Let_def init_vm_rg_def
        enlist_vm_rg_node_def to_i32_def del: carve.simps)
qed

theorem first_allocation_wild_witness:
  "alloc_rg False ((new_ctx [0, 1])\<lparr>v_mm := init_mm False (\<lambda>_. 0) blank_mm\<rparr>) 0 3 300 = Inl WildPointer"
  by (rule first_allocation_wild) simp_all

text \<open>C28: two live regions can share a byte: the free list takes the end of a region for its last
  byte, while \<open>__alloc\<close> puts the first byte behind it there.  In a new process the allocations of
  200, 57 and 300 bytes get the addresses 0, 200 and 256, although the second one ends at 256.\<close>

theorem alloc_regions_overlap:
  "\<exists>c1 c2 c3. alloc_rg z (new_ctx [0, 1, 2, 3]) 0 0 200 = Inr (0, Some 0, c1) \<and>
     alloc_rg z c1 0 1 57 = Inr (0, Some 200, c2) \<and> alloc_rg z c2 0 2 300 = Inr (0, Some 256, c3) \<and>
     symrgtbl (v_mm c3) ! 1 = \<lparr>rg_start = 200, rg_end = 256\<rparr> \<and>
     symrgtbl (v_mm c3) ! 2 = \<lparr>rg_start = 256, rg_end = 556\<rparr> \<and> 200 + (57 :: int) > 256"
proof -
  let ?c = "new_ctx [0, 1, 2, 3]" and ?z0 = "\<lparr>rg_start = 0, rg_end = 0\<rparr>"
  have inv: "proc_inv {} ?c" by (rule new_ctx_inv) auto
  have ov: "heap_overlap 0 0 (grow 200) = 0" by (simp add: heap_overlap_def)
  obtain ret c1 where i1: "inc_vma_limit z ?c 0 200 = Inr (ret, c1)"
    using inc_vma_limit_inv [OF inv, of 0 200 z] by (auto simp: grow_def)
  have "\<exists>m'. alloc_rg z ?c 0 0 200 = Inr (0, Some 0, c1\<lparr>v_mm := m'\<rparr>) \<and> proc_inv {} (c1\<lparr>v_mm := m'\<rparr>) \<and>
    mmap m' = Node \<lparr>vm_id = 1, vm_start = 0, vm_end = 256, sbrk = 256,
      vm_freerg_list = Node \<lparr>rg_start = 200, rg_end = 256\<rparr> (Node ?z0 Null)\<rparr> Null"
    using alloc_rg_extends [OF inv new_ctx_mmap _ _ _ _ _ i1, of 0] ov
    by (auto simp: grow_def to_u64_def)
  then obtain m1 where a1: "alloc_rg z ?c 0 0 200 = Inr (0, Some 0, c1\<lparr>v_mm := m1\<rparr>)"
    "proc_inv {} (c1\<lparr>v_mm := m1\<rparr>)" "mmap m1 = Node \<lparr>vm_id = 1, vm_start = 0, vm_end = 256, sbrk = 256,
      vm_freerg_list = Node \<lparr>rg_start = 200, rg_end = 256\<rparr> (Node ?z0 Null)\<rparr> Null" by blast
  let ?v2 = "\<lparr>vm_id = 1, vm_start = 0, vm_end = 256, sbrk = 256, vm_freerg_list = Node ?z0 Null\<rparr>"
  obtain m2 where a2: "alloc_rg z (c1\<lparr>v_mm := m1\<rparr>) 0 1 57 = Inr (0, Some 200, c1\<lparr>v_mm := m2\<rparr>)"
    "proc_inv {} (c1\<lparr>v_mm := m2\<rparr>)" "symrgtbl m2 = (symrgtbl m1)[1 := \<lparr>rg_start = 200, rg_end = 256\<rparr>]"
    "mmap m2 = Node ?v2 Null"
    using alloc_rg_carves [OF a1(2), of _ "[]" "\<lparr>rg_start = 200, rg_end = 256\<rparr>" "Node ?z0 Null" 57 1 z] a1(3)
    by auto
  have e2: "heap_end m2 = 256" by (simp add: heap_end_def a2(4))
  have mm2: "mmap (v_mm (c1\<lparr>v_mm := m2\<rparr>)) = Node ?v2 Null" by (simp add: a2(4))
  obtain ret3 c3 where i3: "inc_vma_limit z (c1\<lparr>v_mm := m2\<rparr>) 0 300 = Inr (ret3, c3)"
    using inc_vma_limit_inv [OF a2(2), of 0 300 z] by (auto simp: grow_def e2)
  obtain m3 where a3: "alloc_rg z (c1\<lparr>v_mm := m2\<rparr>) 0 2 300 = Inr (0, Some 256, c3\<lparr>v_mm := m3\<rparr>)"
    "symrgtbl m3 = (symrgtbl m2)[2 := \<lparr>rg_start = 256, rg_end = 556\<rparr>]"
    using alloc_rg_extends [OF a2(2) mm2 _ _ _ _ _ i3, of 2] by (auto simp: grow_def to_u64_def e2)
  have "length (symrgtbl m1) = 30" using a1(2) by (simp add: proc_inv_def heap_inv_def)
  with a1(1) a2(1,3) a3 show ?thesis by auto
qed

lemma free_rg_heap:
  fixes z :: bool
  assumes inv: "proc_inv others c" and v: "mmap (v_mm c) = Node v Null"
    and r: "load_symrg (v_mm c) rgid = Inr r" "rg_start r < rg_end r"
  defines "l \<equiv> Node r (if vm_freerg_list v \<noteq> Null then vm_freerg_list v else fresh_ptr z)"
  shows "free_rg z c 0 rgid = Inr (0, c\<lparr>v_mm := (v_mm c)\<lparr>mmap := Node (v\<lparr>vm_freerg_list := l\<rparr>) Null\<rparr>\<rparr>) \<and>
    proc_inv others (c\<lparr>v_mm := (v_mm c)\<lparr>mmap := Node (v\<lparr>vm_freerg_list := l\<rparr>) Null\<rparr>\<rparr>)"
proof -
  have "length (symrgtbl (v_mm c)) = 30" using inv by (simp add: proc_inv_def heap_inv_def)
  with r(1) have "0 \<le> rgid" "rgid < 30" by (simp_all add: load_symrg_def split: if_splits)
  with r v have "free_rg z c 0 rgid = Inr (0, c\<lparr>v_mm := (v_mm c)\<lparr>mmap := Node (v\<lparr>vm_freerg_list := l\<rparr>) Null\<rparr>\<rparr>)"
    by (simp add: free_rg_def enlist_vm_freerg_list_def Let_def l_def PAGING_MAX_SYMTBL_SZ_def)
  moreover from inv have "proc_inv others (c\<lparr>v_mm := v_mm c\<rparr>)" by simp
  from proc_inv_freerg [OF this v] have
    "proc_inv others (c\<lparr>v_mm := (v_mm c)\<lparr>mmap := Node (v\<lparr>vm_freerg_list := l\<rparr>) Null\<rparr>\<rparr>)" .
  ultimately show ?thesis by blast
qed

text \<open>What is freed is reused first: after \<open>__free\<close> of a symbol, an allocation of at most the size of
  its region gets the address of that region again, whatever else the free list holds.\<close>

theorem free_then_alloc:
  assumes inv: "proc_inv others c" and v: "mmap (v_mm c) = Node v Null"
    and r: "load_symrg (v_mm c) rgid = Inr r" "rg_start r < rg_end r" "0 \<le> rg_start r" "rg_end r < 2147483648"
    and sz: "0 < sz" "sz \<le> rg_end r - rg_start r + 1" and rgid': "0 \<le> rgid'" "rgid' < 30"
  shows "\<exists>c1 c2. free_rg z c 0 rgid = Inr (0, c1) \<and> proc_inv others c1 \<and>
    alloc_rg z c1 0 rgid' sz = Inr (0, Some (rg_start r), c2) \<and> proc_inv others c2"
proof -
  let ?l = "Node r (if vm_freerg_list v \<noteq> Null then vm_freerg_list v else fresh_ptr z)"
  let ?c1 = "c\<lparr>v_mm := (v_mm c)\<lparr>mmap := Node (v\<lparr>vm_freerg_list := ?l\<rparr>) Null\<rparr>\<rparr>"
  from free_rg_heap [OF inv v r(1,2), of z] have f: "free_rg z c 0 rgid = Inr (0, ?c1)" "proc_inv others ?c1"
    by simp_all
  have "\<exists>m'. alloc_rg z ?c1 0 rgid' sz = Inr (0, Some (rg_start r), ?c1\<lparr>v_mm := m'\<rparr>) \<and>
    proc_inv others (?c1\<lparr>v_mm := m'\<rparr>)"
    using alloc_rg_carves [OF f(2), of "v\<lparr>vm_freerg_list := ?l\<rparr>" "[]" r _ sz rgid' z] r sz rgid' by auto
  with f show ?thesis by blast
qed

theorem free_then_alloc_witness:
  "\<exists>c1 c2. free_rg False page_ctx 0 4 = Inr (0, c1) \<and> alloc_rg False c1 0 9 120 = Inr (0, Some 0, c2)"
proof -
  have p: "proc_inv {} page_ctx" by (rule page_ctx_inv) auto
  have v0: "mmap (v_mm page_ctx) =
      Node \<lparr>vm_id = 1, vm_start = 0, vm_end = 256, sbrk = 256, vm_freerg_list = Null\<rparr> Null"
    and r: "load_symrg (v_mm page_ctx) 4 = Inr \<lparr>rg_start = 0, rg_end = 200\<rparr>"
    by (simp_all add: page_ctx_def load_symrg_def nth_replicate)
  from free_then_alloc [OF p v0 r, of 120 9 False] show ?thesis by auto
qed

text \<open>\<open>__free\<close> does not forget the symbol, so it can be freed twice; two later allocations of more than
  half its size are then given the same address, and the two live symbols share their bytes.\<close>

theorem double_free_aliases:
  assumes inv: "proc_inv others c" and v: "mmap (v_mm c) = Node v Null"
    and r: "load_symrg (v_mm c) rgid = Inr r" "rg_start r < rg_end r" "0 \<le> rg_start r" "rg_end r < 2147483648"
    and sz: "0 < sz" "sz \<le> rg_end r - rg_start r + 1" "rg_end r - rg_start r + 1 < 2 * sz"
    and x: "0 \<le> x" "x < 30" and y: "0 \<le> y" "y < 30"
  shows "\<exists>c1 c2 c3 c4. free_rg z c 0 rgid = Inr (0, c1) \<and> free_rg z c1 0 rgid = Inr (0, c2) \<and>
    alloc_rg z c2 0 x sz = Inr (0, Some (rg_start r), c3) \<and>
    alloc_rg z c3 0 y sz = Inr (0, Some (rg_start r), c4)"
proof -
  let ?l = "Node r (if vm_freerg_list v \<noteq> Null then vm_freerg_list v else fresh_ptr z)"
  let ?v1 = "v\<lparr>vm_freerg_list := ?l\<rparr>"
  let ?c1 = "c\<lparr>v_mm := (v_mm c)\<lparr>mmap := Node ?v1 Null\<rparr>\<rparr>"
  have f1: "free_rg z c 0 rgid = Inr (0, ?c1)" "proc_inv others ?c1"
    using free_rg_heap [OF inv v r(1,2), of z] by simp_all
  let ?v2 = "v\<lparr>vm_freerg_list := Node r ?l\<rparr>"
  let ?c2 = "c\<lparr>v_mm := (v_mm c)\<lparr>mmap := Node ?v2 Null\<rparr>\<rparr>"
  have r1: "load_symrg (v_mm ?c1) rgid = Inr r" "mmap (v_mm ?c1) = Node ?v1 Null"
    using r(1) by (simp_all add: load_symrg_def split: if_splits)
  have f2: "free_rg z ?c1 0 rgid = Inr (0, ?c2)" "proc_inv others ?c2"
    using free_rg_heap [OF f1(2) r1(2,1) r(2), of z] by simp_all
  let ?rem = "\<lparr>rg_start = rg_start r + sz, rg_end = rg_end r\<rparr>"
  let ?pre = "if rg_end r < rg_start r + sz then [] else [?rem]"
  obtain m3 where a1: "alloc_rg z ?c2 0 x sz = Inr (0, Some (rg_start r), ?c2\<lparr>v_mm := m3\<rparr>)"
    "proc_inv others (?c2\<lparr>v_mm := m3\<rparr>)"
    "mmap m3 = Node (v\<lparr>vm_freerg_list := chain_onto ?pre ?l\<rparr>) Null"
    using alloc_rg_carves [OF f2(2), of ?v2 "[]" r ?l sz x z] r sz x by (auto split: if_splits)
  have small: "\<forall>q\<in>set ?pre. rg_size q < sz" using r sz by (simp add: rg_size_def to_u64_id)
  obtain m4 where "alloc_rg z (?c2\<lparr>v_mm := m3\<rparr>) 0 y sz = Inr (0, Some (rg_start r), ?c2\<lparr>v_mm := m4\<rparr>)"
    using alloc_rg_carves [OF a1(2) _ _ small r(3,4) sz(1,2) y, of "v\<lparr>vm_freerg_list := chain_onto ?pre ?l\<rparr>"]
      a1(3) by auto
  with f1(1) f2(1) a1(1) show ?thesis by blast
qed

theorem double_free_aliases_witness:
  "\<exists>c1 c2 c3 c4. free_rg False page_ctx 0 4 = Inr (0, c1) \<and> free_rg False c1 0 4 = Inr (0, c2) \<and>
    alloc_rg False c2 0 5 150 = Inr (0, Some 0, c3) \<and> alloc_rg False c3 0 6 150 = Inr (0, Some 0, c4)"
proof -
  have p: "proc_inv {} page_ctx" by (rule page_ctx_inv) auto
  have v0: "mmap (v_mm page_ctx) =
      Node \<lparr>vm_id = 1, vm_start = 0, vm_end = 256, sbrk = 256, vm_freerg_list = Null\<rparr> Null"
    and r: "load_symrg (v_mm page_ctx) 4 = Inr \<lparr>rg_start = 0, rg_end = 200\<rparr>"
    by (simp_all add: page_ctx_def load_symrg_def nth_replicate)
  from double_free_aliases [OF p v0 r, of 150 5 6 False] show ?thesis by auto
qed

text \<open>The empty region \<open>[0, 0]\<close> that \<open>init_mm\<close> puts on the free list counts as one byte: the first
  allocation of a single byte succeeds with address 0 and maps no page, and writing that byte then
  uses a victim page number that was never set.\<close>

theorem one_byte_allocation_unmapped:
  assumes "0 \<le> rgid" and "rgid < 30"
  shows "\<exists>c'. alloc_rg z (new_ctx [0, 1, 2, 3]) 0 rgid 1 = Inr (0, Some 0, c') \<and>
    (\<forall>p. \<not> online (v_mm c') p) \<and> write_rg z c' 0 rgid 0 b = Inl UninitRead"
proof -
  let ?c = "new_ctx [0, 1, 2, 3]"
  let ?r = "\<lparr>rg_start = 0, rg_end = 0\<rparr>"
  have inv: "proc_inv {} ?c" by (rule new_ctx_inv) auto
  have pt: "pgd (v_mm ?c) = (\<lambda>_. 0)" by (simp add: new_ctx_def init_mm_def Let_def)
  have "\<not> PAGING_PAGE_PRESENT 0" by (simp add: PAGING_PAGE_PRESENT_def)
  obtain m' where a: "alloc_rg z ?c 0 rgid 1 = Inr (0, Some 0, ?c\<lparr>v_mm := m'\<rparr>)"
    "proc_inv {} (?c\<lparr>v_mm := m'\<rparr>)" "pgd m' = (\<lambda>_. 0)" "symrgtbl m' = (symrgtbl (v_mm ?c))[nat rgid := ?r]"
    using alloc_rg_carves [OF inv new_ctx_mmap, of "[]" ?r Null 1 rgid z] assms pt by auto
  have off: "\<not> online m' p" for p using a(3) \<open>\<not> PAGING_PAGE_PRESENT 0\<close> by (simp add: online_def)
  have h: "heap_inv (v_mm (?c\<lparr>v_mm := m'\<rparr>))" and t: "terminated (fifo_pgn m')"
    and nf: "set (nodes (fifo_pgn m')) = {}"
    using a(2) off by (auto simp: proc_inv_def frames_inv_def fifo_inv_def)
  from t have fv: "find_victim_page m' = Inr (-1, None, m')"
    by (cases rule: find_victim_page_cases) (use nf in auto)
  have "\<exists>s f d. MEMPHY_get_freefp (v_mswp ?c ! v_active ?c) = Inr (s, f, d)" "v_active ?c < length (v_mswp ?c)"
    by (simp_all add: new_ctx_def idle_ctx_def idle_ram_def MEMPHY_get_freefp_def)
  then have "pg_getpage z (?c\<lparr>v_mm := m'\<rparr>) 0 = Inl UninitRead"
    using a(3) \<open>\<not> PAGING_PAGE_PRESENT 0\<close> fv by (auto simp: pg_getpage_def Let_def)
  moreover have "length (symrgtbl (v_mm ?c)) = 30" using inv by (simp add: proc_inv_def heap_inv_def)
  then have "load_symrg m' rgid = Inr ?r" using a(4) assms by (simp add: load_symrg_def)
  ultimately have "write_rg z (?c\<lparr>v_mm := m'\<rparr>) 0 rgid 0 b = Inl UninitRead"
    using get_vma_by_num_heap [OF h, of 0] assms
    by (simp add: write_rg_def get_symrg_byid_def PAGING_MAX_SYMTBL_SZ_def region_addr_def to_u64_def to_i32_def
        pg_setval_def PAGING_PGN_eq Let_def)
  with a(1) off show ?thesis by (intro exI [of _ "?c\<lparr>v_mm := m'\<rparr>"]) simp
qed

theorem one_byte_allocation_unmapped_witness:
  "\<exists>c'. alloc_rg False (new_ctx [0, 1, 2, 3]) 0 5 1 = Inr (0, Some 0, c') \<and>
     write_rg False c' 0 5 0 65 = Inl UninitRead"
  using one_byte_allocation_unmapped [of 5 False 65] by auto

end
