(* ===== verification/Dispatch.thy ===== *)
theory Dispatch imports Prelude begin

text \<open>
  What a scheduler promises to the threads that use it, as the locale \<open>dispatcher\<close>, and what follows for
  the ownership of processes: if a thread takes processes only with \<open>get\<close>, gives back only what it
  holds, and frees only what it holds, then every process has at most one holder, and holders
  and queues refer to allocated blocks only.
\<close>

text \<open>
  \<open>waits s i\<close> lists the processes that wait at level \<open>i\<close>.  \<open>get\<close> always returns; it takes the front of one level,
  or nothing if nothing waits.  \<open>put\<close> may append one process to one level, and \<open>charge\<close> moves none.
\<close>

locale dispatcher =
  fixes get :: "'s \<Rightarrow> ('p option \<times> 's) option" and put :: "'p \<Rightarrow> nat \<Rightarrow> 's \<Rightarrow> 's"
    and charge :: "nat \<Rightarrow> int \<Rightarrow> 's \<Rightarrow> 's res" and waits :: "'s \<Rightarrow> nat \<Rightarrow> 'p list"
    and ok :: "'s \<Rightarrow> bool" and levels :: nat
  assumes get_returns: "ok s \<Longrightarrow> \<exists>r s'. get s = Some (r, s')"
    and get_none: "ok s \<Longrightarrow> get s = Some (None, s') \<Longrightarrow> s' = s \<and> (\<forall>i<levels. waits s i = [])"
    and get_some: "ok s \<Longrightarrow> get s = Some (Some p, s') \<Longrightarrow>
      ok s' \<and> (\<exists>i<levels. waits s i = p # waits s' i \<and> (\<forall>j. j \<noteq> i \<longrightarrow> waits s' j = waits s j))"
    and waits_distinct: "ok s \<Longrightarrow> i < levels \<Longrightarrow> distinct (waits s i)"
    and put_ok: "ok s \<Longrightarrow> i < levels \<Longrightarrow> ok (put p i s)"
    and put_waits: "ok s \<Longrightarrow> i < levels \<Longrightarrow>
      waits (put p i s) j = waits s j \<or> (j = i \<and> waits (put p i s) j = waits s j @ [p])"
    and charge_ok: "ok s \<Longrightarrow> charge i n s = Inr s' \<Longrightarrow> ok s' \<and> waits s' j = waits s j"
begin

definition queued :: "'s \<Rightarrow> 'p set" where
  "queued s = (\<Union>i<levels. set (waits s i))"

lemma queued_iff: "p \<in> queued s \<longleftrightarrow> (\<exists>i<levels. p \<in> set (waits s i))"
  by (auto simp: queued_def)

text \<open>Whether \<open>get\<close> finds a process.\<close>

lemma get_cases:
  assumes "ok s"
  obtains (none) "get s = Some (None, s)" "queued s = {}"
    | (some) p s' where "get s = Some (Some p, s')" "ok s'" "p \<in> queued s"
proof -
  obtain r s' where g: "get s = Some (r, s')" using get_returns [OF assms] by blast
  show thesis
  proof (cases r)
    case None
    with get_none [OF assms] g none show thesis by (auto simp: queued_def)
  next
    case (Some p)
    with g have "get s = Some (Some p, s')" by simp
    moreover from get_some [OF assms this] obtain i where i: "i < levels" "ok s'" "waits s i = p # waits s' i" by blast
    moreover have "p \<in> queued s" unfolding queued_iff by (rule exI [of _ i]) (simp add: i)
    ultimately show thesis by (intro some)
  qed
qed

text \<open>
  \<open>own d\<close> is the process that thread \<open>d\<close> holds, \<open>h\<close> the allocated blocks, \<open>lvl\<close> the level of a block and
  \<open>good\<close> a property all blocks have.
\<close>

definition own_inv :: "('b \<Rightarrow> nat) \<Rightarrow> ('b \<Rightarrow> bool) \<Rightarrow> 's \<Rightarrow> ('p \<rightharpoonup> 'b) \<Rightarrow> (nat \<Rightarrow> 'p option) \<Rightarrow> bool" where
  "own_inv lvl good sc h own \<longleftrightarrow> ok sc \<and>
     (\<forall>p b. h p = Some b \<longrightarrow> lvl b < levels \<and> good b) \<and>
     (\<forall>i<levels. \<forall>p\<in>set (waits sc i). \<exists>b. h p = Some b \<and> lvl b = i) \<and>
     (\<forall>d p. own d = Some p \<longrightarrow> p \<in> dom h \<and> p \<notin> queued sc) \<and>
     (\<forall>d e p. own d = Some p \<longrightarrow> own e = Some p \<longrightarrow> d = e)"

lemma own_invD:
  assumes "own_inv lvl good sc h own"
  shows "ok sc" "h p = Some b \<Longrightarrow> lvl b < levels \<and> good b"
    "i < levels \<Longrightarrow> p \<in> set (waits sc i) \<Longrightarrow> \<exists>b. h p = Some b \<and> lvl b = i"
    "own d = Some p \<Longrightarrow> p \<in> dom h \<and> p \<notin> queued sc"
    "own d = Some p \<Longrightarrow> own e = Some p \<Longrightarrow> d = e"
  using assms unfolding own_inv_def by blast+

lemma own_invI:
  assumes "ok sc" "\<And>p b. h p = Some b \<Longrightarrow> lvl b < levels \<and> good b"
    "\<And>i p. i < levels \<Longrightarrow> p \<in> set (waits sc i) \<Longrightarrow> \<exists>b. h p = Some b \<and> lvl b = i"
    "\<And>d p. own d = Some p \<Longrightarrow> p \<in> dom h \<and> p \<notin> queued sc"
    "\<And>d e p. own d = Some p \<Longrightarrow> own e = Some p \<Longrightarrow> d = e"
  shows "own_inv lvl good sc h own"
  using assms unfolding own_inv_def by blast

lemma own_queued: "own_inv lvl good sc h own \<Longrightarrow> p \<in> queued sc \<Longrightarrow> p \<in> dom h"
  by (metis queued_iff domI own_invD(3))

text \<open>Taking a process from the queues.\<close>

lemma own_take:
  assumes inv: "own_inv lvl good sc h own" and g: "get sc = Some (Some p, sc')"
  shows "own_inv lvl good sc' h (own(d := Some p))" and "p \<in> queued sc" and "queued sc' \<subseteq> queued sc"
proof -
  note v = own_invD [OF inv]
  from get_some [OF v(1) g] obtain i where wf: "ok sc'" and i: "i < levels"
      and ri: "waits sc i = p # waits sc' i" and ro: "\<forall>j. j \<noteq> i \<longrightarrow> waits sc' j = waits sc j"
    by blast
  have sub: "set (waits sc' j) \<subseteq> set (waits sc j)" for j using ri ro by (cases "j = i") auto
  then show s: "queued sc' \<subseteq> queued sc" unfolding queued_def by blast
  show p: "p \<in> queued sc" using i ri by (auto simp: queued_iff)
  have "distinct (waits sc i)" using waits_distinct [OF v(1) i] .
  then have pi: "p \<notin> set (waits sc' i)" using ri by simp
  obtain b where b: "h p = Some b" "lvl b = i" using v(3) [OF i, of p] ri by auto
  have np: "p \<notin> queued sc'"
  proof
    assume "p \<in> queued sc'"
    then obtain j where j: "j < levels" "p \<in> set (waits sc' j)" by (auto simp: queued_iff)
    with v(3) [OF j(1), of p] sub b have "j = i" by auto
    with j pi show False by simp
  qed
  show "own_inv lvl good sc' h (own(d := Some p))"
  proof (rule own_invI)
    show "\<exists>b. h q = Some b \<and> lvl b = j" if "j < levels" "q \<in> set (waits sc' j)" for j q
      using v(3) [OF that(1)] sub that(2) by blast
    show "q \<in> dom h \<and> q \<notin> queued sc'" if "(own(d := Some p)) e = Some q" for e q
      using that v(4) [of e q] s np b by (auto split: if_splits)
    show "e = e'" if "(own(d := Some p)) e = Some q" "(own(d := Some p)) e' = Some q" for e e' q
      using that v(4) [of e q] v(4) [of e' q] v(5) [of e q e'] p by (auto split: if_splits)
  qed (use wf v(2) in auto)
qed

text \<open>Giving a process back, or handing a new one to the scheduler.\<close>

lemma own_put:
  assumes inv: "own_inv lvl good sc h own" and d: "own d = Some p" and h: "h p = Some b"
    and b': "lvl b' = lvl b" "good b'"
  shows "own_inv lvl good (put p (lvl b) sc) (h(p \<mapsto> b')) (own(d := None))"
    and "queued (put p (lvl b) sc) \<subseteq> insert p (queued sc)"
proof -
  note v = own_invD [OF inv]
  have pr: "lvl b < levels" "good b" using v(2) h by auto
  have ra: "set (waits (put p (lvl b) sc) j) \<subseteq> set (waits sc j) \<union> (if j = lvl b then {p} else {})" for j
    using put_waits [OF v(1) pr(1), of p j] by auto
  then show s: "queued (put p (lvl b) sc) \<subseteq> insert p (queued sc)"
    unfolding queued_def by (fastforce split: if_splits)
  show "own_inv lvl good (put p (lvl b) sc) (h(p \<mapsto> b')) (own(d := None))"
  proof (rule own_invI)
    show "ok (put p (lvl b) sc)" using v(1) pr(1) by (rule put_ok)
    show "lvl c < levels \<and> good c" if "(h(p \<mapsto> b')) q = Some c" for q c
      using that v(2) [of q c] pr b' by (auto split: if_splits)
    show "\<exists>c. (h(p \<mapsto> b')) q = Some c \<and> lvl c = j"
      if "j < levels" "q \<in> set (waits (put p (lvl b) sc) j)" for j q
      using that ra [of j] v(3) [of j q] b' h by (auto split: if_splits)
    show "q \<in> dom (h(p \<mapsto> b')) \<and> q \<notin> queued (put p (lvl b) sc)" if "(own(d := None)) e = Some q" for e q
      using that v(4) [of e q] v(5) [of e q d] d s by (auto split: if_splits)
    show "e = e'" if "(own(d := None)) e = Some q" "(own(d := None)) e' = Some q" for e e' q
      using that v(5) [of e q e'] by (auto split: if_splits)
  qed
qed

text \<open>Freeing what one holds, a new block, a step of one's own block, and a step that only charges slots.\<close>

lemma own_free:
  assumes inv: "own_inv lvl good sc h own" and d: "own d = Some p"
  shows "own_inv lvl good sc (h(p := None)) (own(d := None))"
proof (rule own_invI)
  note v = own_invD [OF inv]
  show "\<exists>b. (h(p := None)) q = Some b \<and> lvl b = j" if "j < levels" "q \<in> set (waits sc j)" for j q
    using v(3) [OF that] v(4) [OF d] that by (auto simp: queued_iff)
  show "q \<in> dom (h(p := None)) \<and> q \<notin> queued sc" if "(own(d := None)) e = Some q" for e q
    using that v(4) [of e q] v(5) [of e q d] d by (auto split: if_splits)
qed (use own_invD [OF inv] in \<open>auto split: if_splits\<close>)

lemma own_new:
  assumes inv: "own_inv lvl good sc h own" and p: "p \<notin> dom h" and d: "own d = None"
    and b: "lvl b < levels" "good b"
  shows "own_inv lvl good sc (h(p \<mapsto> b)) (own(d := Some p))"
proof (rule own_invI)
  note v = own_invD [OF inv]
  have q: "p \<notin> queued sc" using own_queued [OF inv] p by blast
  show "\<exists>c. (h(p \<mapsto> b)) q = Some c \<and> lvl c = j" if "j < levels" "q \<in> set (waits sc j)" for j q
    using v(3) [OF that] p by (auto split: if_splits)
  show "q' \<in> dom (h(p \<mapsto> b)) \<and> q' \<notin> queued sc" if "(own(d := Some p)) e = Some q'" for e q'
    using that v(4) [of e q'] q by (auto split: if_splits)
  show "e = e'" if "(own(d := Some p)) e = Some q'" "(own(d := Some p)) e' = Some q'" for e e' q'
    using that v(4) [of e q'] v(4) [of e' q'] v(5) [of e q' e'] p by (auto split: if_splits)
  show "lvl c < levels \<and> good c" if "(h(p \<mapsto> b)) q' = Some c" for q' c
    using that v(2) [of q' c] b by (auto split: if_splits)
qed (use own_invD [OF inv] in auto)

lemma own_same:
  assumes inv: "own_inv lvl good sc h own" and h: "h p = Some b"
    and b': "lvl b' = lvl b" "good b'"
  shows "own_inv lvl good sc (h(p \<mapsto> b')) own"
proof (rule own_invI)
  note v = own_invD [OF inv]
  show "\<exists>c. (h(p \<mapsto> b')) q = Some c \<and> lvl c = j" if "j < levels" "q \<in> set (waits sc j)" for j q
    using v(3) [OF that] h b' by (auto split: if_splits)
  show "lvl c < levels \<and> good c" if "(h(p \<mapsto> b')) q = Some c" for q c
    using that v(2) [of q c] v(2) [OF h] b' by (auto split: if_splits)
qed (use own_invD [OF inv] in auto)

lemma own_charge:
  assumes inv: "own_inv lvl good sc h own" and u: "charge k n sc = Inr sc'"
  shows "own_inv lvl good sc' h own" and "queued sc' = queued sc"
proof -
  note k = charge_ok [OF own_invD(1) [OF inv] u]
  have r: "waits sc' j = waits sc j" for j using k by blast
  then show a: "queued sc' = queued sc" by (simp add: queued_def)
  have "ok sc'" using k by blast
  then show "own_inv lvl good sc' h own" using inv unfolding own_inv_def r a by blast
qed

end

end
