(* ===== verification/Sched.thy ===== *)
theory Sched imports Kernel_Types Dispatch begin

text \<open>
  The multi-level queue scheduler of \<^verbatim>\<open>src/sched.c\<close> in the configuration the headers fix
  (\<open>MLQ_SCHED\<close>): one bounded queue and one slot budget for each of the 140 priorities.  Every
  operation runs between \<open>pthread_mutex_lock\<close> and \<open>pthread_mutex_unlock\<close> of the scheduler lock, so
  each is one atomic state transformer here.

  The loop of \<open>get_mlq_proc\<close> has no bound in the code; it is a \<open>partial_function\<close> whose value
  \<open>None\<close> would mean that it does not return.  The main lemma shows that it always returns what the
  direct description \<open>mlq_pick\<close> says: the front of the first queue that is non-empty and has slots
  left, or, when no such queue exists, the front of the first non-empty queue after all budgets were
  reset.
\<close>

section \<open>State\<close>

definition MAX_PRIO :: nat where
  "MAX_PRIO = 140"

record sched_t =
  ready_queue :: queue_t
  run_queue :: queue_t
  running_list :: queue_t
  mlq_ready_queue :: "queue_t list"
  slot :: "int list"

section \<open>Operations\<close>

text \<open>\<open>for (prio = 0; prio < MAX_PRIO; prio++) if (!empty(..)) return 0; return 1\<close>\<close>

function queue_empty_from :: "sched_t \<Rightarrow> nat \<Rightarrow> bool" where
  "queue_empty_from s i =
    (if i < MAX_PRIO then
       if \<not> empty (Some (mlq_ready_queue s ! i)) then False else queue_empty_from s (Suc i)
     else True)"
  by pat_completeness auto
termination by (relation "measure (\<lambda>(s, i). MAX_PRIO - i)") auto

declare queue_empty_from.simps [simp del]

definition queue_empty :: "sched_t \<Rightarrow> bool" where
  "queue_empty s = queue_empty_from s 0"

text \<open>\<open>slot[i] = MAX_PRIO - i\<close> for every priority.\<close>

definition full_slots :: "int list" where
  "full_slots = map (\<lambda>i. int MAX_PRIO - int i) [0..<MAX_PRIO]"

definition init_scheduler :: "sched_t \<Rightarrow> sched_t" where
  "init_scheduler s =
    s\<lparr>mlq_ready_queue := map (\<lambda>q. q\<lparr>q_size := 0\<rparr>) (mlq_ready_queue s), slot := full_slots,
      ready_queue := (ready_queue s)\<lparr>q_size := 0\<rparr>,
      run_queue := (run_queue s)\<lparr>q_size := 0\<rparr>,
      running_list := (running_list s)\<lparr>q_size := 0\<rparr>\<rparr>"

abbreviation cleared :: "queue_t \<Rightarrow> queue_t" where
  "cleared q \<equiv> (clear_loop q)\<lparr>q_size := 0\<rparr>"

definition finish_scheduler :: "sched_t \<Rightarrow> sched_t" where
  "finish_scheduler s =
    s\<lparr>ready_queue := cleared (ready_queue s), run_queue := cleared (run_queue s),
      running_list := cleared (running_list s),
      mlq_ready_queue := map cleared (mlq_ready_queue s)\<rparr>"

definition update_slot :: "nat \<Rightarrow> int \<Rightarrow> sched_t \<Rightarrow> sched_t res" where
  "update_slot p used_time s =
    (if p < MAX_PRIO then Inr (s\<lparr>slot := (slot s)[p := slot s ! p - used_time]\<rparr>)
     else Inl OutOfBounds)"

definition reset_slot :: "sched_t \<Rightarrow> sched_t" where
  "reset_slot s = s\<lparr>slot := full_slots\<rparr>"

definition get_slot :: "nat \<Rightarrow> sched_t \<Rightarrow> int res" where
  "get_slot p s = (if p < MAX_PRIO then Inr (slot s ! p) else Inl OutOfBounds)"

text \<open>\<open>dequeue(&mlq_ready_queue[i])\<close>\<close>

definition dequeue_prio :: "nat \<Rightarrow> sched_t \<Rightarrow> pcb_ref option \<times> sched_t" where
  "dequeue_prio i s =
    (case dequeue_at (mlq_ready_queue s ! i) of
       (p, q) \<Rightarrow> (p, s\<lparr>mlq_ready_queue := (mlq_ready_queue s)[i := q]\<rparr>))"

text \<open>The \<open>while (1)\<close> loop; its variables are \<open>curr_prio\<close> and \<open>count_empty\<close>.\<close>

partial_function (option) get_mlq_loop ::
  "sched_t \<Rightarrow> nat \<Rightarrow> nat \<Rightarrow> (pcb_ref option \<times> sched_t) option" where
  "get_mlq_loop s curr_prio count_empty =
    (if \<not> empty (Some (mlq_ready_queue s ! curr_prio)) then
       if slot s ! curr_prio > 0 then Some (dequeue_prio curr_prio s)
       else
         let next_prio = (curr_prio + 1) mod MAX_PRIO in
         if next_prio = 0 then get_mlq_loop (reset_slot s) next_prio 0
         else get_mlq_loop s next_prio count_empty
     else if count_empty + 1 = MAX_PRIO then Some (None, s)
     else
       let next_prio = (curr_prio + 1) mod MAX_PRIO in
       if next_prio = 0 then get_mlq_loop (reset_slot s) next_prio 0
       else get_mlq_loop s next_prio (count_empty + 1))"

definition get_mlq_proc :: "sched_t \<Rightarrow> (pcb_ref option \<times> sched_t) option" where
  "get_mlq_proc s = get_mlq_loop s 0 0"

definition get_proc :: "sched_t \<Rightarrow> (pcb_ref option \<times> sched_t) option" where
  "get_proc s = get_mlq_proc s"

text \<open>\<open>enqueue(&mlq_ready_queue[proc->prio], proc)\<close>; the array has \<open>MAX_PRIO\<close> cells.\<close>

definition put_mlq_proc :: "pcb_ref \<Rightarrow> pcbs \<Rightarrow> sched_t \<Rightarrow> sched_t res" where
  "put_mlq_proc p h s =
    bindR (deref h p) (\<lambda>b.
      if prio b < MAX_PRIO then
        Inr (s\<lparr>mlq_ready_queue :=
          (mlq_ready_queue s)[prio b := enqueue_at (mlq_ready_queue s ! prio b) p]\<rparr>)
      else Inl OutOfBounds)"

definition add_mlq_proc :: "pcb_ref \<Rightarrow> pcbs \<Rightarrow> sched_t \<Rightarrow> sched_t res" where
  "add_mlq_proc p h s =
    bindR (deref h p) (\<lambda>b.
      if prio b < MAX_PRIO then
        Inr (s\<lparr>mlq_ready_queue :=
          (mlq_ready_queue s)[prio b := enqueue_at (mlq_ready_queue s ! prio b) p]\<rparr>)
      else Inl OutOfBounds)"

text \<open>The three queue pointers of the block are set, then the process enters the running list.\<close>

definition put_proc :: "pcb_ref \<Rightarrow> pcbs \<Rightarrow> sched_t \<Rightarrow> (pcbs \<times> sched_t) res" where
  "put_proc p h s =
    bindR (deref h p) (\<lambda>b.
      let h' = h(p \<mapsto> b\<lparr>queues_set := True\<rparr>);
          s' = s\<lparr>running_list := enqueue_at (running_list s) p\<rparr>
      in bindR (put_mlq_proc p h' s') (\<lambda>s''. Inr (h', s'')))"

definition add_proc :: "pcb_ref \<Rightarrow> pcbs \<Rightarrow> sched_t \<Rightarrow> (pcbs \<times> sched_t) res" where
  "add_proc p h s =
    bindR (deref h p) (\<lambda>b.
      let h' = h(p \<mapsto> b\<lparr>queues_set := True\<rparr>);
          s' = s\<lparr>running_list := enqueue_at (running_list s) p\<rparr>
      in bindR (add_mlq_proc p h' s') (\<lambda>s''. Inr (h', s'')))"

subsection \<open>The branch without \<open>MLQ_SCHED\<close>\<close>

text \<open>Two queues; the headers do not select this branch.  The names get the suffix \<open>_plain\<close>.\<close>

definition queue_empty_plain :: "sched_t \<Rightarrow> bool" where
  "queue_empty_plain s \<longleftrightarrow> empty (Some (ready_queue s)) \<and> empty (Some (run_queue s))"

definition get_proc_plain :: "sched_t \<Rightarrow> pcb_ref option \<times> sched_t" where
  "get_proc_plain s =
    (if \<not> empty (Some (ready_queue s)) then
       (case dequeue_at (ready_queue s) of (p, q) \<Rightarrow> (p, s\<lparr>ready_queue := q\<rparr>))
     else (None, s))"

definition put_proc_plain :: "pcb_ref \<Rightarrow> sched_t \<Rightarrow> sched_t" where
  "put_proc_plain p s = s\<lparr>running_list := enqueue_at (running_list s) p, run_queue := enqueue_at (run_queue s) p\<rparr>"

definition add_proc_plain :: "pcb_ref \<Rightarrow> sched_t \<Rightarrow> sched_t" where
  "add_proc_plain p s = s\<lparr>running_list := enqueue_at (running_list s) p, ready_queue := enqueue_at (ready_queue s) p\<rparr>"

section \<open>Invariant and abstract view\<close>

definition sched_wf :: "sched_t \<Rightarrow> bool" where
  "sched_wf s \<longleftrightarrow> length (mlq_ready_queue s) = MAX_PRIO \<and> length (slot s) = MAX_PRIO \<and>
     list_all q_wf (mlq_ready_queue s) \<and>
     q_wf (ready_queue s) \<and> q_wf (run_queue s) \<and> q_wf (running_list s)"

text \<open>The processes waiting at one priority, and at any priority.\<close>

definition ready_at :: "sched_t \<Rightarrow> nat \<Rightarrow> pcb_ref list" where
  "ready_at s i = q_list (mlq_ready_queue s ! i)"

definition all_ready :: "sched_t \<Rightarrow> pcb_ref set" where
  "all_ready s = (\<Union>i<MAX_PRIO. set (ready_at s i))"

text \<open>Budgets never exceed the share of their priority.\<close>

definition slots_bounded :: "sched_t \<Rightarrow> bool" where
  "slots_bounded s \<longleftrightarrow> (\<forall>i<MAX_PRIO. slot s ! i \<le> int MAX_PRIO - int i)"

definition zero_sched :: sched_t where
  "zero_sched = \<lparr>ready_queue = zero_queue, run_queue = zero_queue, running_list = zero_queue,
     mlq_ready_queue = replicate MAX_PRIO zero_queue, slot = replicate MAX_PRIO 0\<rparr>"

section \<open>The policy, stated directly\<close>

definition pick_prio :: "sched_t \<Rightarrow> nat option" where
  "pick_prio s = find (\<lambda>i. ready_at s i \<noteq> [] \<and> slot s ! i > 0) [0..<MAX_PRIO]"

definition mlq_pick :: "sched_t \<Rightarrow> pcb_ref option \<times> sched_t" where
  "mlq_pick s =
    (case pick_prio s of
       Some i \<Rightarrow> dequeue_prio i s
     | None \<Rightarrow>
         (case pick_prio (reset_slot s) of
            Some i \<Rightarrow> dequeue_prio i (reset_slot s)
          | None \<Rightarrow> (None, s)))"

section \<open>The loop meets the policy\<close>

lemma sched_wf_queue: "sched_wf s \<Longrightarrow> i < MAX_PRIO \<Longrightarrow> q_wf (mlq_ready_queue s ! i)"
  by (simp add: sched_wf_def list_all_length)

lemma sched_wf_reset [simp]: "sched_wf (reset_slot s) \<longleftrightarrow>
    sched_wf (s\<lparr>slot := full_slots\<rparr>)"
  by (simp add: reset_slot_def)

lemma length_full_slots [simp]: "length full_slots = MAX_PRIO"
  by (simp add: full_slots_def)

lemma full_slots_nth [simp]: "i < MAX_PRIO \<Longrightarrow> full_slots ! i = int MAX_PRIO - int i"
  by (simp add: full_slots_def)

lemma reset_slot_simps [simp]:
  "mlq_ready_queue (reset_slot s) = mlq_ready_queue s" "slot (reset_slot s) = full_slots"
  "running_list (reset_slot s) = running_list s" "ready_queue (reset_slot s) = ready_queue s"
  "run_queue (reset_slot s) = run_queue s" "ready_at (reset_slot s) i = ready_at s i"
  by (simp_all add: reset_slot_def ready_at_def)

lemma nonempty_iff: "sched_wf s \<Longrightarrow> i < MAX_PRIO \<Longrightarrow>
    empty (Some (mlq_ready_queue s ! i)) \<longleftrightarrow> ready_at s i = []"
  using pq.isempty_iff [OF sched_wf_queue] by (simp add: ready_at_def)

text \<open>One turn of the loop, on a well-formed state.\<close>

lemma get_mlq_loop_turn:
  assumes "sched_wf s" and "c < MAX_PRIO"
  shows "get_mlq_loop s c n =
    (if ready_at s c \<noteq> [] \<and> slot s ! c > 0 then Some (dequeue_prio c s)
     else if ready_at s c = [] \<and> n + 1 = MAX_PRIO then Some (None, s)
     else if Suc c = MAX_PRIO then get_mlq_loop (reset_slot s) 0 0
     else get_mlq_loop s (Suc c) (if ready_at s c = [] then n + 1 else n))"
proof (cases "Suc c = MAX_PRIO")
  case True
  then have "Suc c mod MAX_PRIO = 0" by simp
  with True show ?thesis
    by (subst get_mlq_loop.simps) (simp add: nonempty_iff assms Let_def)
next
  case False
  with assms(2) have "Suc c mod MAX_PRIO = Suc c" by simp
  with False show ?thesis
    by (subst get_mlq_loop.simps) (simp add: nonempty_iff assms Let_def)
qed

text \<open>Invariant of the scan: \<open>count_empty\<close> never exceeds \<open>curr_prio\<close>.\<close>

lemma get_mlq_loop_finds:
  assumes "sched_wf s" and "j < MAX_PRIO" and "c \<le> j" and "n \<le> c"
    and "ready_at s j \<noteq> []" and "slot s ! j > 0"
    and "\<And>i. c \<le> i \<Longrightarrow> i < j \<Longrightarrow> ready_at s i = [] \<or> slot s ! i \<le> 0"
  shows "get_mlq_loop s c n = Some (dequeue_prio j s)"
  using assms
proof (induction "j - c" arbitrary: c n)
  case 0
  then show ?case by (simp add: get_mlq_loop_turn)
next
  case (Suc d)
  then have "c < j" "c < MAX_PRIO" "Suc c \<noteq> MAX_PRIO" by simp_all
  with Suc.prems(7) [of c] have miss: "ready_at s c = [] \<or> slot s ! c \<le> 0" by simp
  have "get_mlq_loop s (Suc c) (if ready_at s c = [] then n + 1 else n) = Some (dequeue_prio j s)"
    using Suc.hyps(2) Suc.prems \<open>c < j\<close> by (intro Suc.hyps(1)) auto
  moreover have "\<not> (ready_at s c \<noteq> [] \<and> slot s ! c > 0)" using miss by auto
  ultimately show ?case
    using \<open>c < MAX_PRIO\<close> \<open>Suc c \<noteq> MAX_PRIO\<close> Suc.prems(1,4) by (subst get_mlq_loop_turn) auto
qed

lemma get_mlq_loop_wraps:
  assumes "sched_wf s" and "c < MAX_PRIO" and "n \<le> c"
    and "n < c \<or> (\<exists>i. c \<le> i \<and> i < MAX_PRIO \<and> ready_at s i \<noteq> [])"
    and "\<And>i. c \<le> i \<Longrightarrow> i < MAX_PRIO \<Longrightarrow> ready_at s i = [] \<or> slot s ! i \<le> 0"
  shows "get_mlq_loop s c n = get_mlq_loop (reset_slot s) 0 0"
  using assms
proof (induction "MAX_PRIO - Suc c" arbitrary: c n)
  case 0
  then have c: "Suc c = MAX_PRIO" by simp
  have "ready_at s c = [] \<Longrightarrow> n < c"
    using 0(5) c by (metis less_antisym not_less)
  with 0 c show ?case by (subst get_mlq_loop_turn) fastforce+
next
  case (Suc d)
  then have c: "Suc c < MAX_PRIO" by simp
  have "ready_at s c = [] \<Longrightarrow> n < c \<or> (\<exists>i. Suc c \<le> i \<and> i < MAX_PRIO \<and> ready_at s i \<noteq> [])"
    using Suc.prems(4) by (metis le_eq_less_or_eq Suc_le_eq)
  then have "get_mlq_loop s (Suc c) (if ready_at s c = [] then n + 1 else n) =
      get_mlq_loop (reset_slot s) 0 0"
    using Suc.hyps(2) Suc.prems c by (intro Suc.hyps(1)) auto
  moreover have "ready_at s c = [] \<Longrightarrow> n + 1 \<noteq> MAX_PRIO" using Suc.prems(3) c by simp
  ultimately show ?case
    using Suc.prems(1,2) Suc.prems(5) [of c] c by (subst get_mlq_loop_turn) auto
qed

lemma get_mlq_loop_all_empty:
  assumes "sched_wf s" and "c < MAX_PRIO" and "\<And>i. c \<le> i \<Longrightarrow> i < MAX_PRIO \<Longrightarrow> ready_at s i = []"
  shows "get_mlq_loop s c c = Some (None, s)"
  using assms
proof (induction "MAX_PRIO - Suc c" arbitrary: c)
  case 0
  then show ?case by (subst get_mlq_loop_turn) auto
next
  case (Suc d)
  then have "get_mlq_loop s (Suc c) (Suc c) = Some (None, s)" by (intro Suc.hyps(1)) auto
  with Suc show ?case by (subst get_mlq_loop_turn) auto
qed

lemma pick_prio_Some_iff: "pick_prio s = Some i \<longleftrightarrow>
    i < MAX_PRIO \<and> ready_at s i \<noteq> [] \<and> slot s ! i > 0 \<and>
    (\<forall>j<i. ready_at s j = [] \<or> slot s ! j \<le> 0)"
  unfolding pick_prio_def find_Some_iff
  by (auto simp: not_less) (metis add.left_neutral less_trans nth_upt)+

lemma pick_prio_None_iff: "pick_prio s = None \<longleftrightarrow>
    (\<forall>i<MAX_PRIO. ready_at s i = [] \<or> slot s ! i \<le> 0)"
  by (simp add: pick_prio_def find_None_iff not_less) (meson not_le)

lemma get_mlq_proc_eq:
  assumes wf: "sched_wf s"
  shows "get_mlq_proc s = Some (mlq_pick s)"
proof (cases "pick_prio s")
  case (Some i)
  then have "get_mlq_loop s 0 0 = Some (dequeue_prio i s)"
    using wf by (intro get_mlq_loop_finds) (auto simp: pick_prio_Some_iff)
  with Some show ?thesis by (simp add: get_mlq_proc_def mlq_pick_def)
next
  case None
  note none = this
  have wf': "sched_wf (reset_slot s)" using wf by (simp add: sched_wf_def)
  show ?thesis
  proof (cases "pick_prio (reset_slot s)")
    case None
    then have "\<And>i. i < MAX_PRIO \<Longrightarrow> ready_at s i = []"
      by (force simp: pick_prio_None_iff)
    then have "get_mlq_loop s 0 0 = Some (None, s)"
      using wf by (intro get_mlq_loop_all_empty) (auto simp: MAX_PRIO_def)
    with none None show ?thesis by (simp add: get_mlq_proc_def mlq_pick_def)
  next
    case (Some i)
    then have i: "i < MAX_PRIO" "ready_at s i \<noteq> []" "\<forall>j<i. ready_at s j = []"
      by (auto simp: pick_prio_Some_iff)
    have "get_mlq_loop s 0 0 = get_mlq_loop (reset_slot s) 0 0"
      using wf none i by (intro get_mlq_loop_wraps) (auto simp: pick_prio_None_iff)
    also have "\<dots> = Some (dequeue_prio i (reset_slot s))"
      using wf' i by (intro get_mlq_loop_finds) auto
    finally show ?thesis using none Some by (simp add: get_mlq_proc_def mlq_pick_def)
  qed
qed


section \<open>Effect of the operations on the abstract view\<close>

lemma queue_empty_iff: "sched_wf s \<Longrightarrow> queue_empty s \<longleftrightarrow> (\<forall>i<MAX_PRIO. ready_at s i = [])"
proof -
  assume wf: "sched_wf s"
  have "queue_empty_from s k \<longleftrightarrow> (\<forall>i. k \<le> i \<and> i < MAX_PRIO \<longrightarrow> ready_at s i = [])" for k
  proof (induction "MAX_PRIO - k" arbitrary: k)
    case 0
    then show ?case by (subst queue_empty_from.simps) auto
  next
    case (Suc d)
    then have "queue_empty_from s (Suc k) \<longleftrightarrow>
        (\<forall>i. Suc k \<le> i \<and> i < MAX_PRIO \<longrightarrow> ready_at s i = [])" by simp
    moreover have "(\<forall>i. k \<le> i \<and> i < MAX_PRIO \<longrightarrow> ready_at s i = []) \<longleftrightarrow>
        ready_at s k = [] \<and> (\<forall>i. Suc k \<le> i \<and> i < MAX_PRIO \<longrightarrow> ready_at s i = [])"
      using Suc.hyps(2) by (metis Suc_leD Suc_leI le_eq_less_or_eq zero_less_Suc zero_less_diff)
    moreover have "k < MAX_PRIO" using Suc.hyps(2) by linarith
    ultimately show ?case
      using wf by (subst queue_empty_from.simps) (simp add: nonempty_iff)
  qed
  then show ?thesis by (simp add: queue_empty_def)
qed

lemma dequeue_prio_frame [simp]:
  "slot (snd (dequeue_prio i s)) = slot s" "running_list (snd (dequeue_prio i s)) = running_list s"
  by (simp_all add: dequeue_prio_def split: prod.split)

lemma dequeue_prio_spec:
  assumes wf: "sched_wf s" and i: "i < MAX_PRIO" and ne: "ready_at s i \<noteq> []"
  shows "fst (dequeue_prio i s) = Some (hd (ready_at s i))"
    and "sched_wf (snd (dequeue_prio i s))"
    and "ready_at (snd (dequeue_prio i s)) j = (if j = i then tl (ready_at s i) else ready_at s j)"
proof -
  let ?q = "mlq_ready_queue s ! i"
  have q: "q_wf ?q" "q_list ?q \<noteq> []" using wf i ne by (simp_all add: sched_wf_queue ready_at_def)
  have s': "snd (dequeue_prio i s) =
      s\<lparr>mlq_ready_queue := (mlq_ready_queue s)[i := snd (dequeue_at ?q)]\<rparr>"
    by (simp add: dequeue_prio_def split: prod.split)
  show "fst (dequeue_prio i s) = Some (hd (ready_at s i))"
    using pq.front [OF q] by (auto simp: dequeue_prio_def ready_at_def split: prod.split)
  show "sched_wf (snd (dequeue_prio i s))"
    using wf pq.good_deq [OF q(1)] i unfolding s'
    by (auto simp: sched_wf_def list_all_length nth_list_update)
  show "ready_at (snd (dequeue_prio i s)) j =
      (if j = i then tl (ready_at s i) else ready_at s j)"
    using wf i pq.items_deq [OF q(1)] unfolding s' by (simp add: ready_at_def sched_wf_def)
qed

text \<open>Placing a process: the common body of \<open>put_proc\<close> and \<open>add_proc\<close>.\<close>

definition placed :: "pcb_ref \<Rightarrow> nat \<Rightarrow> sched_t \<Rightarrow> sched_t" where
  "placed p i s = s\<lparr>running_list := enqueue_at (running_list s) p,
     mlq_ready_queue := (mlq_ready_queue s)[i := enqueue_at (mlq_ready_queue s ! i) p]\<rparr>"

lemma add_proc_placed:
  "h p = Some b \<Longrightarrow> prio b < MAX_PRIO \<Longrightarrow>
     add_proc p h s = Inr (h(p \<mapsto> b\<lparr>queues_set := True\<rparr>), placed p (prio b) s)"
  by (simp add: add_proc_def add_mlq_proc_def deref_Some placed_def Let_def)

lemma put_proc_placed:
  "h p = Some b \<Longrightarrow> prio b < MAX_PRIO \<Longrightarrow>
     put_proc p h s = Inr (h(p \<mapsto> b\<lparr>queues_set := True\<rparr>), placed p (prio b) s)"
  by (simp add: put_proc_def put_mlq_proc_def deref_Some placed_def Let_def)

lemma placed_wf: "sched_wf s \<Longrightarrow> i < MAX_PRIO \<Longrightarrow> sched_wf (placed p i s)"
  by (auto simp: sched_wf_def placed_def list_all_length nth_list_update pq.good_enq)

lemma placed_ready:
  "sched_wf s \<Longrightarrow> i < MAX_PRIO \<Longrightarrow> ready_at (placed p i s) j =
     (if j = i \<and> length (ready_at s i) < MAX_QUEUE_SIZE \<and> p \<notin> set (ready_at s i)
      then ready_at s i @ [p] else ready_at s j)"
  using pq.items_enq [OF sched_wf_queue, of s i p]
  by (cases "j = i") (auto simp: placed_def ready_at_def sched_wf_def)

lemma placed_running:
  "sched_wf s \<Longrightarrow> q_list (running_list (placed p i s)) =
     (if length (q_list (running_list s)) < MAX_QUEUE_SIZE \<and> p \<notin> set (q_list (running_list s))
      then q_list (running_list s) @ [p] else q_list (running_list s))"
  by (auto simp: placed_def sched_wf_def pq.items_enq)

lemma placed_slot [simp]: "slot (placed p i s) = slot s"
  by (simp add: placed_def)


lemma put_proc_InrE:
  assumes "put_proc p h s = Inr (h', s')"
  obtains b where "h p = Some b" "prio b < MAX_PRIO" "h' = h(p \<mapsto> b\<lparr>queues_set := True\<rparr>)"
    "s' = placed p (prio b) s"
  using assms
  by (auto simp: put_proc_def put_mlq_proc_def bindR_eq_Inr placed_def Let_def split: if_splits)

lemma add_proc_InrE:
  assumes "add_proc p h s = Inr (h', s')"
  obtains b where "h p = Some b" "prio b < MAX_PRIO" "h' = h(p \<mapsto> b\<lparr>queues_set := True\<rparr>)"
    "s' = placed p (prio b) s"
  using assms
  by (auto simp: add_proc_def add_mlq_proc_def bindR_eq_Inr placed_def Let_def split: if_splits)

lemma mlq_pick_served:
  assumes wf: "sched_wf s" and pick: "mlq_pick s = (Some p, s')"
  obtains i s0 where "i < MAX_PRIO" "s0 = s \<or> s0 = reset_slot s" "sched_wf s0"
    "pick_prio s0 = Some i" "s0 = s \<or> pick_prio s = None" "s' = snd (dequeue_prio i s0)"
    "hd (ready_at s i) = p" "ready_at s i \<noteq> []"
proof (cases "pick_prio s")
  case (Some i)
  with pick have d: "dequeue_prio i s = (Some p, s')" by (simp add: mlq_pick_def)
  have "i < MAX_PRIO" "ready_at s i \<noteq> []" using Some by (simp_all add: pick_prio_Some_iff)
  with that [of i s] Some d wf dequeue_prio_spec(1) [of s i] show thesis by simp
next
  case None
  with pick obtain i where i: "pick_prio (reset_slot s) = Some i"
    and d: "dequeue_prio i (reset_slot s) = (Some p, s')"
    by (auto simp: mlq_pick_def split: option.splits)
  have wf': "sched_wf (reset_slot s)" using wf by (simp add: sched_wf_def)
  have "i < MAX_PRIO" "ready_at s i \<noteq> []" using i by (simp_all add: pick_prio_Some_iff)
  with that [of i "reset_slot s"] i d wf' None dequeue_prio_spec(1) [of "reset_slot s" i]
  show thesis by simp
qed

lemma served_front:
  assumes wf: "sched_wf s" and got: "get_mlq_proc s = Some (Some p, s')"
  shows "sched_wf s' \<and> (\<exists>i<MAX_PRIO. ready_at s i = p # ready_at s' i \<and> slot s' ! i > 0 \<and>
    (\<forall>j. j \<noteq> i \<longrightarrow> ready_at s' j = ready_at s j) \<and>
    (\<forall>j<i. ready_at s j = [] \<or> slot s ! j \<le> 0) \<and>
    (slot s' = slot s \<or> slot s' = full_slots \<and> (\<forall>j<MAX_PRIO. ready_at s j = [] \<or> slot s ! j \<le> 0)))"
proof -
  have "mlq_pick s = (Some p, s')" using wf got get_mlq_proc_eq by simp
  with wf obtain i s0 where i: "i < MAX_PRIO" and s0: "s0 = s \<or> s0 = reset_slot s"
    and wf0: "sched_wf s0" and pk: "pick_prio s0 = Some i" and none: "s0 = s \<or> pick_prio s = None"
    and s': "s' = snd (dequeue_prio i s0)" and p: "hd (ready_at s i) = p" "ready_at s i \<noteq> []"
    by (rule mlq_pick_served)
  have r0: "ready_at s0 j = ready_at s j" for j using s0 by auto
  have ne0: "ready_at s0 i \<noteq> []" using p(2) r0 by simp
  note d = dequeue_prio_spec [OF wf0 i ne0]
  have "ready_at s i = p # ready_at s' i"
    using p by (cases "ready_at s i") (simp_all add: s' d r0)
  moreover have "slot s' = slot s0" by (simp add: s')
  moreover have "slot s' ! i > 0" using pk by (simp add: s' pick_prio_Some_iff)
  moreover have "\<forall>j<i. ready_at s j = [] \<or> slot s ! j \<le> 0"
  proof (cases "s0 = s")
    case True
    with pk show ?thesis by (simp add: pick_prio_Some_iff)
  next
    case False
    with none i show ?thesis by (simp add: pick_prio_None_iff)
  qed
  moreover have "s0 = s \<or> slot s0 = full_slots \<and>
      (\<forall>j<MAX_PRIO. ready_at s j = [] \<or> slot s ! j \<le> 0)"
    using s0 none by (auto simp: pick_prio_None_iff)
  moreover have "\<forall>j. j \<noteq> i \<longrightarrow> ready_at s' j = ready_at s j" by (simp add: s' d r0)
  moreover have "sched_wf s'" by (simp add: s' d)
  ultimately show ?thesis using i by auto
qed

lemma get_proc_returns:
  assumes wf: "sched_wf s"
  shows "\<exists>p s'. get_proc s = Some (p, s') \<and> (p = None \<longleftrightarrow> queue_empty s) \<and>
    (p = None \<longrightarrow> s' = s)"
proof -
  have wf': "sched_wf (reset_slot s)" using wf by (simp add: sched_wf_def)
  have eq: "get_proc s = Some (mlq_pick s)" using wf by (simp add: get_proc_def get_mlq_proc_eq)
  show ?thesis
  proof (cases "queue_empty s")
    case True
    then have "pick_prio s = None" "pick_prio (reset_slot s) = None"
      using wf by (auto simp: queue_empty_iff pick_prio_None_iff)
    then show ?thesis using True eq by (simp add: mlq_pick_def)
  next
    case False
    then obtain i where i: "i < MAX_PRIO" "ready_at s i \<noteq> []" using wf by (auto simp: queue_empty_iff)
    then have "pick_prio (reset_slot s) \<noteq> None"
      by (simp add: pick_prio_None_iff del: not_None_eq) (metis full_slots_nth diff_gt_0_iff_gt not_le of_nat_less_iff)
    moreover have "fst (dequeue_prio k s) \<noteq> None" if "pick_prio s = Some k" for k
      using that dequeue_prio_spec(1) [OF wf] by (simp add: pick_prio_Some_iff)
    moreover have "fst (dequeue_prio k (reset_slot s)) \<noteq> None"
      if "pick_prio (reset_slot s) = Some k" for k
      using that dequeue_prio_spec(1) [OF wf'] by (simp add: pick_prio_Some_iff)
    ultimately have "fst (mlq_pick s) \<noteq> None"
      by (auto simp: mlq_pick_def split: option.splits)
    with False eq show ?thesis by (cases "mlq_pick s") auto
  qed
qed

lemma get_proc_cases:
  assumes wf: "sched_wf s" and g: "get_proc s = Some (r, s')"
  obtains (idle) "r = None" "s' = s" "queue_empty s"
  | (serve) p i where "r = Some p" "sched_wf s'" "i < MAX_PRIO" "ready_at s i = p # ready_at s' i"
      "\<And>j. j \<noteq> i \<Longrightarrow> ready_at s' j = ready_at s j" "slot s' ! i > 0"
      "slot s' = slot s \<or> slot s' = full_slots"
proof (cases r)
  case None
  with get_proc_returns [OF wf] g idle show thesis by auto
next
  case (Some p)
  with g have "get_mlq_proc s = Some (Some p, s')" by (simp add: get_proc_def)
  from served_front [OF wf this] obtain i where "sched_wf s'" "i < MAX_PRIO"
    "ready_at s i = p # ready_at s' i" "\<forall>j. j \<noteq> i \<longrightarrow> ready_at s' j = ready_at s j"
    "slot s' ! i > 0" "slot s' = slot s \<or> slot s' = full_slots" by blast
  with serve Some show thesis by blast
qed

section \<open>The plain branch forgets what is put back\<close>

datatype plain_op = PlainGet | PlainPut pcb_ref | PlainAdd pcb_ref

fun plain_run :: "plain_op list \<Rightarrow> sched_t \<Rightarrow> pcb_ref list \<times> sched_t" where
  "plain_run [] s = ([], s)"
| "plain_run (PlainGet # ops) s =
    (case get_proc_plain s of (r, s') \<Rightarrow>
       case plain_run ops s' of (ps, s'') \<Rightarrow> ((case r of None \<Rightarrow> ps | Some p \<Rightarrow> p # ps), s''))"
| "plain_run (PlainPut p # ops) s = plain_run ops (put_proc_plain p s)"
| "plain_run (PlainAdd p # ops) s = plain_run ops (add_proc_plain p s)"

lemma get_proc_plain_facts:
  assumes "q_wf (ready_queue s)" and "get_proc_plain s = (r, s')"
  shows "q_wf (ready_queue s')" and "r = Some p \<Longrightarrow> p \<in> set (q_list (ready_queue s))"
    and "set (q_list (ready_queue s')) \<subseteq> set (q_list (ready_queue s))"
proof -
  have "q_wf (ready_queue s') \<and> (r = Some p \<longrightarrow> p \<in> set (q_list (ready_queue s))) \<and>
      set (q_list (ready_queue s')) \<subseteq> set (q_list (ready_queue s))"
  proof (cases "q_list (ready_queue s)")
    case Nil
    with assms have "r = None" "s' = s" by (simp_all add: get_proc_plain_def pq.isempty_iff)
    with assms(1) show ?thesis by simp
  next
    case (Cons x xs)
    then have ne: "q_list (ready_queue s) \<noteq> []" by simp
    from assms Cons have "r = fst (dequeue_at (ready_queue s))" "ready_queue s' = snd (dequeue_at (ready_queue s))"
      by (auto simp: get_proc_plain_def pq.isempty_iff split: prod.splits)
    with dequeue_at_spec [OF assms(1) ne] Cons show ?thesis by auto
  qed
  then show "q_wf (ready_queue s')" "r = Some p \<Longrightarrow> p \<in> set (q_list (ready_queue s))"
    "set (q_list (ready_queue s')) \<subseteq> set (q_list (ready_queue s))" by blast+
qed

text \<open>A process that is not in the ready queue is never handed out again, however often it is put back.\<close>

lemma plain_never_again:
  "q_wf (ready_queue s) \<Longrightarrow> p \<notin> set (q_list (ready_queue s)) \<Longrightarrow> PlainAdd p \<notin> set ops \<Longrightarrow>
   p \<notin> set (fst (plain_run ops s))"
proof (induction ops arbitrary: s)
  case (Cons a ops)
  show ?case
  proof (cases a)
    case PlainGet
    obtain r s' where g: "get_proc_plain s = (r, s')" by (cases "get_proc_plain s")
    note f = get_proc_plain_facts [OF Cons.prems(1) g]
    have "p \<notin> set (fst (plain_run ops s'))" using f(1,3) Cons.prems by (intro Cons.IH) auto
    with f(2) [of p] Cons.prems(2) g PlainGet show ?thesis by (auto split: prod.splits option.splits)
  next
    case (PlainPut q)
    with Cons show ?thesis by (simp add: put_proc_plain_def)
  next
    case (PlainAdd q)
    have "q_wf (ready_queue (add_proc_plain q s))" "p \<notin> set (q_list (ready_queue (add_proc_plain q s)))"
      using enqueue_at_spec [OF Cons.prems(1), of q] Cons.prems PlainAdd by (auto simp: add_proc_plain_def)
    with Cons PlainAdd show ?thesis by simp
  qed
qed simp

section \<open>The promise to the processors\<close>

lemma update_slot_facts:
  "update_slot p n s = Inr s' \<Longrightarrow> sched_wf s \<Longrightarrow> sched_wf s' \<and> ready_at s' j = ready_at s j"
  by (auto simp: update_slot_def ready_at_def sched_wf_def split: if_splits)

interpretation ds: dispatcher get_proc placed update_slot ready_at sched_wf MAX_PRIO
proof unfold_locales
  fix s assume wf: "sched_wf s"
  show "\<exists>r s'. get_proc s = Some (r, s')" using get_proc_returns [OF wf] by blast
  show "s' = s \<and> (\<forall>i<MAX_PRIO. ready_at s i = [])" if "get_proc s = Some (None, s')" for s'
    using get_proc_returns [OF wf] that queue_empty_iff [OF wf] by auto
  show "sched_wf s' \<and> (\<exists>i<MAX_PRIO. ready_at s i = p # ready_at s' i \<and> (\<forall>j. j \<noteq> i \<longrightarrow> ready_at s' j = ready_at s j))"
    if "get_proc s = Some (Some p, s')" for p s'
    using served_front [OF wf, of p s'] that by (auto simp: get_proc_def)
  show "distinct (ready_at s i)" if "i < MAX_PRIO" for i
    using sched_wf_queue [OF wf that] by (simp add: ready_at_def q_wf_def)
  show "sched_wf (placed p i s)" if "i < MAX_PRIO" for p i using wf that by (rule placed_wf)
  show "ready_at (placed p i s) j = ready_at s j \<or> (j = i \<and> ready_at (placed p i s) j = ready_at s j @ [p])"
    if "i < MAX_PRIO" for p i j
    using placed_ready [OF wf that, of p j] by auto
  show "sched_wf s' \<and> ready_at s' j = ready_at s j" if "update_slot i n s = Inr s'" for i n s' j
    using update_slot_facts [OF that wf] .
qed

lemma queued_eq: "ds.queued = all_ready"
  by (simp add: fun_eq_iff ds.queued_def all_ready_def)

section \<open>Properties\<close>

text \<open>C20: the loop of \<open>get_mlq_proc\<close> returns from every well-formed scheduler state, and what it
  returns is the policy: the front of the first priority that has a waiting process and slots left;
  if there is none, all budgets are reset first; NULL and an unchanged state if nothing waits.\<close>

theorem get_mlq_proc_is_policy:
  assumes "sched_wf s"
  shows "get_mlq_proc s = Some (mlq_pick s)"
  using assms by (rule get_mlq_proc_eq)

lemma zero_sched_wf [simp]: "sched_wf zero_sched"
  by (simp add: sched_wf_def zero_sched_def list_all_iff)

lemma zero_sched_simps [simp]:
  "i < MAX_PRIO \<Longrightarrow> ready_at zero_sched i = []" "i < MAX_PRIO \<Longrightarrow> slot zero_sched ! i = 0"
  by (simp_all add: ready_at_def zero_sched_def)

lemma placed_zero_ready:
  "i < MAX_PRIO \<Longrightarrow> j < MAX_PRIO \<Longrightarrow> ready_at (placed p i zero_sched) j = (if j = i then [p] else [])"
  by (simp add: placed_ready MAX_QUEUE_SIZE_def)

theorem get_mlq_proc_is_policy_witness: "get_mlq_proc zero_sched = Some (mlq_pick zero_sched)"
  by (rule get_mlq_proc_is_policy [OF zero_sched_wf])

text \<open>The process \<open>get_mlq_proc\<close> hands out was the front of one priority queue with slots left,
  leaves exactly that queue, every other queue is untouched, and every more urgent priority was
  empty or out of slots.  The scheduler stays well-formed.\<close>

theorem get_mlq_proc_serves_front:
  assumes wf: "sched_wf s" and got: "get_mlq_proc s = Some (Some p, s')"
  shows "sched_wf s' \<and> (\<exists>i<MAX_PRIO. ready_at s i = p # ready_at s' i \<and> slot s' ! i > 0 \<and>
    (\<forall>j. j \<noteq> i \<longrightarrow> ready_at s' j = ready_at s j) \<and>
    (\<forall>j<i. ready_at s j = [] \<or> slot s ! j \<le> 0) \<and>
    (slot s' = slot s \<or> slot s' = full_slots \<and> (\<forall>j<MAX_PRIO. ready_at s j = [] \<or> slot s ! j \<le> 0)))"
  using assms by (rule served_front)

text \<open>C34: work conservation: \<open>get_proc\<close> always returns, it returns NULL exactly when
  \<open>queue_empty\<close> holds, and then nothing changes.\<close>

theorem get_proc_work_conserving:
  assumes wf: "sched_wf s"
  shows "\<exists>p s'. get_proc s = Some (p, s') \<and> (p = None \<longleftrightarrow> queue_empty s) \<and>
    (p = None \<longrightarrow> s' = s)"
  using assms by (rule get_proc_returns)

theorem get_proc_work_conserving_witness:
  "\<exists>s'. get_proc (placed 4 15 zero_sched) = Some (Some 4, s')"
proof -
  let ?s = "placed 4 15 zero_sched"
  have p15: "15 < MAX_PRIO" by (simp add: MAX_PRIO_def)
  then have wf: "sched_wf ?s" by (simp add: placed_wf)
  have r: "ready_at ?s j = (if j = 15 then [4] else [])" if "j < MAX_PRIO" for j
    using that p15 by (simp add: placed_zero_ready)
  with p15 have "\<not> queue_empty ?s" using wf by (metis queue_empty_iff not_Cons_self2)
  then obtain p s' where g: "get_proc ?s = Some (Some p, s')"
    using get_proc_work_conserving [OF wf] by auto
  moreover from g obtain i where "i < MAX_PRIO" "ready_at ?s i = p # ready_at s' i"
    using served_front [OF wf] by (auto simp: get_proc_def)
  ultimately show ?thesis using r by (auto split: if_splits)
qed

theorem get_mlq_proc_serves_front_witness:
  "\<exists>s'. get_mlq_proc (placed 4 15 zero_sched) = Some (Some 4, s') \<and> ready_at s' 15 = []"
proof -
  let ?s = "placed 4 15 zero_sched"
  have p15: "15 < MAX_PRIO" by (simp add: MAX_PRIO_def)
  then have wf: "sched_wf ?s" by (simp add: placed_wf)
  have r: "ready_at ?s j = (if j = 15 then [4] else [])" if "j < MAX_PRIO" for j
    using that p15 by (simp add: placed_zero_ready)
  have "pick_prio (reset_slot ?s) = Some 15"
    using r p15 by (simp add: pick_prio_Some_iff)
  moreover have "pick_prio ?s = None"
    by (simp add: pick_prio_None_iff)
  ultimately have "mlq_pick ?s = dequeue_prio 15 (reset_slot ?s)"
    by (simp add: mlq_pick_def)
  moreover have "fst (dequeue_prio 15 (reset_slot ?s)) = Some 4"
    using wf r [of 15] p15 by (subst dequeue_prio_spec) (simp_all add: sched_wf_def)
  ultimately obtain s' where g: "get_mlq_proc ?s = Some (Some 4, s')"
    using get_mlq_proc_eq [OF wf] by (metis prod.collapse)
  from get_mlq_proc_serves_front [OF wf g] r
  obtain i where "i < MAX_PRIO" "ready_at ?s i = 4 # ready_at s' i" by blast
  with g r show ?thesis by (auto split: if_splits)
qed


text \<open>C35: \<open>add_proc\<close> and \<open>put_proc\<close> never touch a queue of another priority or a budget; the process
  ends up at the back of its own priority queue and of the running list, unless it is there already
  or that queue is full, in which case the code drops it without telling the caller.\<close>

theorem add_and_put_proc_effect:
  assumes wf: "sched_wf s" and b: "h p = Some b" and prio: "prio b < MAX_PRIO"
  shows "\<exists>h' s'. add_proc p h s = Inr (h', s') \<and> put_proc p h s = Inr (h', s') \<and>
    sched_wf s' \<and> h' = h(p \<mapsto> b\<lparr>queues_set := True\<rparr>) \<and> slot s' = slot s \<and>
    (\<forall>j. j \<noteq> prio b \<longrightarrow> ready_at s' j = ready_at s j) \<and>
    ready_at s' (prio b) =
      (if length (ready_at s (prio b)) < 10 \<and> p \<notin> set (ready_at s (prio b))
       then ready_at s (prio b) @ [p] else ready_at s (prio b)) \<and>
    q_list (running_list s') =
      (if length (q_list (running_list s)) < 10 \<and> p \<notin> set (q_list (running_list s))
       then q_list (running_list s) @ [p] else q_list (running_list s))"
  using assms
  by (simp add: add_proc_placed put_proc_placed placed_wf placed_ready placed_running
      MAX_QUEUE_SIZE_def)

definition sample_pcb :: pcb_t where
  "sample_pcb = \<lparr>pid = 1, priority = 1, path = ''input/proc/p0s'',
     code = \<lparr>c_text = [], c_size = 0\<rparr>, regs = [], pc = 0, queues_set = False, prio = 15,
     mm = None, active_mswp = 0, active_mswp_id = 0, bp = 1024\<rparr>"

theorem add_and_put_proc_effect_witness:
  "\<exists>h' s'. add_proc 4 [4 \<mapsto> sample_pcb] zero_sched = Inr (h', s') \<and> ready_at s' 15 = [4]"
  using add_and_put_proc_effect [OF zero_sched_wf, of "[4 \<mapsto> sample_pcb]" 4 sample_pcb]
  by (auto simp: sample_pcb_def MAX_PRIO_def)

lemma init_scheduler_wf:
  assumes "length (mlq_ready_queue s) = MAX_PRIO"
    and "\<And>q. q \<in> set (mlq_ready_queue s) \<union> {ready_queue s, run_queue s, running_list s} \<Longrightarrow>
      length (q_proc q) = MAX_QUEUE_SIZE"
  shows "sched_wf (init_scheduler s)" and "\<And>i. i < MAX_PRIO \<Longrightarrow> ready_at (init_scheduler s) i = []"
    and "q_list (running_list (init_scheduler s)) = []"
proof -
  show "sched_wf (init_scheduler s)"
    using assms by (auto simp: sched_wf_def init_scheduler_def q_wf_def list_all_iff)
  show "\<And>i. i < MAX_PRIO \<Longrightarrow> ready_at (init_scheduler s) i = []"
    using assms(1) by (simp add: ready_at_def init_scheduler_def)
  show "q_list (running_list (init_scheduler s)) = []" by (simp add: init_scheduler_def)
qed

text \<open>Whatever the arrays held before, \<open>init_scheduler\<close> leaves a well-formed scheduler with no
  process in any queue and the budget \<open>MAX_PRIO - i\<close> for priority \<open>i\<close>, so that the first call of
  \<open>get_proc\<close> returns NULL and changes nothing.\<close>

theorem init_scheduler_idle:
  assumes "length (mlq_ready_queue s) = MAX_PRIO"
    and "list_all (\<lambda>q. length (q_proc q) = MAX_QUEUE_SIZE)
      (ready_queue s # run_queue s # running_list s # mlq_ready_queue s)"
  shows "sched_wf (init_scheduler s) \<and> all_ready (init_scheduler s) = {} \<and>
    q_list (running_list (init_scheduler s)) = [] \<and>
    slot (init_scheduler s) = map (\<lambda>i. 140 - int i) [0..<140] \<and>
    get_proc (init_scheduler s) = Some (None, init_scheduler s)"
proof -
  have l: "q \<in> set (mlq_ready_queue s) \<union> {ready_queue s, run_queue s, running_list s} \<Longrightarrow>
      length (q_proc q) = MAX_QUEUE_SIZE" for q
    using assms(2) by (auto simp: list_all_iff)
  note i = init_scheduler_wf [OF assms(1) l]
  have "queue_empty (init_scheduler s)" using i by (simp add: queue_empty_iff)
  with i show ?thesis
    using get_proc_returns [OF i(1)]
    by (auto simp: all_ready_def init_scheduler_def full_slots_def MAX_PRIO_def)
qed

theorem init_scheduler_idle_witness:
  "get_proc (init_scheduler zero_sched) = Some (None, init_scheduler zero_sched)"
  using init_scheduler_idle [of zero_sched] by (simp add: zero_sched_def zero_queue_def list_all_iff)

section \<open>Sequences of operations\<close>

text \<open>One operation of a thread on the scheduler.  The control blocks \<open>h\<close> are not part of the state: they
  may change in any way between two operations.\<close>

inductive sched_step :: "sched_t \<Rightarrow> sched_t \<Rightarrow> bool" where
  put: "put_proc p h s = Inr (h', s') \<Longrightarrow> sched_step s s'"
| add: "add_proc p h s = Inr (h', s') \<Longrightarrow> sched_step s s'"
| get: "get_proc s = Some (r, s') \<Longrightarrow> sched_step s s'"
| charge: "0 \<le> used \<Longrightarrow> update_slot i used s = Inr s' \<Longrightarrow> sched_step s s'"
| reset: "sched_step s (reset_slot s)"

lemma sched_step_inv:
  assumes "sched_step s s'" and wf: "sched_wf s" and b: "slots_bounded s"
  shows "sched_wf s' \<and> slots_bounded s'"
  using assms(1)
proof cases
  case (put p h h')
  with wf b show ?thesis by (auto elim!: put_proc_InrE simp: slots_bounded_def placed_wf)
next
  case (add p h h')
  with wf b show ?thesis by (auto elim!: add_proc_InrE simp: slots_bounded_def placed_wf)
next
  case (get r)
  then have "s' = s \<or> sched_wf s' \<and> (slot s' = slot s \<or> slot s' = full_slots)"
    by (rule get_proc_cases [OF wf]) auto
  with wf b show ?thesis by (auto simp: slots_bounded_def)
next
  case (charge used i)
  then have "i < MAX_PRIO" "s' = s\<lparr>slot := (slot s)[i := slot s ! i - used]\<rparr>" "0 \<le> used"
    by (simp_all add: update_slot_def split: if_splits)
  moreover have "slot s ! i - used \<le> int MAX_PRIO - int i"
    using b calculation by (fastforce simp: slots_bounded_def)
  ultimately show ?thesis using wf b by (auto simp: slots_bounded_def sched_wf_def nth_list_update)
next
  case reset
  with wf show ?thesis by (simp add: slots_bounded_def sched_wf_def)
qed

lemma start_inv: "sched_wf (init_scheduler zero_sched)" "slots_bounded (init_scheduler zero_sched)"
proof -
  show "sched_wf (init_scheduler zero_sched)"
    by (rule init_scheduler_wf) (auto simp: zero_sched_def zero_queue_def)
  show "slots_bounded (init_scheduler zero_sched)" by (simp add: slots_bounded_def init_scheduler_def)
qed

text \<open>C36: the type of the scheduler: whatever the threads do to it after \<open>init_scheduler\<close>, in whatever
  order, it keeps 140 well-formed queues (at most ten processes each, none twice), the budget of
  priority \<open>i\<close> never exceeds \<open>MAX_PRIO - i\<close> as long as no negative time is charged, and the loop of
  \<open>get_proc\<close> returns.\<close>

theorem scheduler_keeps_its_type:
  assumes "sched_step\<^sup>*\<^sup>* (init_scheduler zero_sched) s"
  shows "length (mlq_ready_queue s) = MAX_PRIO \<and> (\<forall>i<MAX_PRIO. q_wf (mlq_ready_queue s ! i)) \<and>
    length (slot s) = MAX_PRIO \<and> (\<forall>i<MAX_PRIO. slot s ! i \<le> int MAX_PRIO - int i) \<and>
    q_wf (running_list s) \<and> get_proc s \<noteq> None"
proof -
  have "sched_wf s \<and> slots_bounded s"
    using assms
  proof induction
    case base
    show ?case using start_inv by simp
  next
    case (step s s')
    then show ?case by (blast dest: sched_step_inv)
  qed
  then show ?thesis using get_proc_returns [of s]
    by (auto simp: sched_wf_queue slots_bounded_def) (simp_all add: sched_wf_def)
qed

theorem scheduler_keeps_its_type_witness:
  "\<exists>s s'. add_proc 4 [4 \<mapsto> sample_pcb] (init_scheduler zero_sched) = Inr ([4 \<mapsto> sample_pcb\<lparr>queues_set := True\<rparr>], s) \<and>
     update_slot 15 3 s = Inr s' \<and> (\<forall>i<MAX_PRIO. q_wf (mlq_ready_queue s' ! i)) \<and> get_proc s' \<noteq> None"
proof -
  have "prio sample_pcb < MAX_PRIO" by (simp add: sample_pcb_def MAX_PRIO_def)
  then obtain s where s: "add_proc 4 [4 \<mapsto> sample_pcb] (init_scheduler zero_sched) =
      Inr ([4 \<mapsto> sample_pcb\<lparr>queues_set := True\<rparr>], s)"
    by (simp add: add_proc_placed [of "[4 \<mapsto> sample_pcb]" 4 sample_pcb])
  obtain s' where s': "update_slot 15 3 s = Inr s'" by (simp add: update_slot_def MAX_PRIO_def)
  have "sched_step (init_scheduler zero_sched) s" "sched_step s s'"
    using sched_step.add [OF s] sched_step.charge [OF _ s'] by simp_all
  then have "sched_step\<^sup>*\<^sup>* (init_scheduler zero_sched) s'" by (meson converse_rtranclp_into_rtranclp rtranclp.rtrancl_refl)
  from scheduler_keeps_its_type [OF this] s s' show ?thesis by blast
qed

end
