(* ===== verification/Syscall.thy ===== *)
theory Syscall imports Region Sched begin

text \<open>
  System calls: the dispatcher of \<^verbatim>\<open>src/syscall.c\<close> over the table \<^verbatim>\<open>src/syscalltbl.lst\<close>, the handlers
  \<^verbatim>\<open>src/sys_listsyscall.c\<close>, \<^verbatim>\<open>src/sys_xxxhandler.c\<close> and \<^verbatim>\<open>src/sys_killall.c\<close>, and the wrapper
  \<open>libsyscall\<close> of \<^verbatim>\<open>src/libstd.c\<close>.  \<open>kernel\<close> joins what the handlers reach: the scheduler, the
  process control blocks, the RAM and the swap devices.

  \<open>killall\<close> works on the queues of the scheduler without its lock; the model runs it as one step.
\<close>

section \<open>State\<close>

record kernel =
  k_sched :: sched_t
  k_pcbs :: pcbs
  k_mram :: memphy_struct
  k_mswp :: "memphy_struct list"

text \<open>
  Running an operation of the memory library for process \<open>p\<close>: its descriptor and the devices are
  put together, and written back afterwards.  A process whose \<open>mm\<close> was never set has a wild pointer.
\<close>

definition ctx_of :: "kernel \<Rightarrow> pcb_t \<Rightarrow> mm_struct \<Rightarrow> vmctx" where
  "ctx_of k b m = \<lparr>v_mm = m, v_mram = k_mram k, v_mswp = k_mswp k, v_active = active_mswp b,
     v_active_id = active_mswp_id b\<rparr>"

definition put_ctx :: "kernel \<Rightarrow> pcb_ref \<Rightarrow> pcb_t \<Rightarrow> vmctx \<Rightarrow> kernel" where
  "put_ctx k p b c = k\<lparr>k_pcbs := (k_pcbs k)(p \<mapsto> b\<lparr>mm := Some (v_mm c)\<rparr>), k_mram := v_mram c,
     k_mswp := v_mswp c\<rparr>"

definition with_ctx :: "(vmctx \<Rightarrow> ('a \<times> vmctx) res) \<Rightarrow> pcb_ref \<Rightarrow> kernel \<Rightarrow> ('a \<times> kernel) res" where
  "with_ctx f p k =
    bindR (deref (k_pcbs k) p) (\<lambda>b.
      case mm b of
        None \<Rightarrow> Inl WildPointer
      | Some m \<Rightarrow> bindR (f (ctx_of k b m)) (\<lambda>(x, c). Inr (x, put_ctx k p b c)))"

section \<open>Handlers\<close>

text \<open>What a handler prints.\<close>

datatype sc_out =
    Silent
  | Lines "string list"
  | Param int
  | Killing int "byte list" "mem_log list"

definition sys_call_table :: "string list" where
  "sys_call_table =
    [''0-sys_listsyscall'', ''17-sys_memmap'', ''101-sys_killall'', ''440-sys_xxxhandler'']"

definition syscall_table_size :: nat where
  "syscall_table_size = length sys_call_table"

definition sys_listsyscall :: "int \<times> sc_out" where
  "sys_listsyscall = (0, Lines (map (\<lambda>i. sys_call_table ! i) [0..<syscall_table_size]))"

definition sys_xxxhandler :: "sc_regs \<Rightarrow> int \<times> sc_out" where
  "sys_xxxhandler reg = (0, Param (to_i32 (a1 reg)))"

definition sys_ni_syscall :: int where
  "sys_ni_syscall = -1"

text \<open>
  Reading the name: bytes of the region until one sign extends to \<open>0xFFFFFFFF\<close>.  The buffer has 100
  cells and its index is not tested, so the write at index 100 is out of bounds.
\<close>

function read_name :: "bool \<Rightarrow> int \<Rightarrow> nat \<Rightarrow> byte list \<Rightarrow> mem_log list \<Rightarrow> vmctx \<Rightarrow>
    ((byte list \<times> mem_log list) \<times> vmctx) res" where
  "read_name zeroed memrg i acc logs c =
    bindR (libread zeroed c memrg (int i)) (\<lambda>(_, out, data, c').
      if i < 100 then
        if data = 4294967295 then Inr ((acc, logs @ [out]), c')
        else read_name zeroed memrg (Suc i) (acc @ [word_of_int data]) (logs @ [out]) c'
      else Inl OutOfBounds)"
  by pat_completeness auto
termination by (relation "measure (\<lambda>(z, m, i, a, l, c). 100 - i)") auto

declare read_name.simps [simp del]

text \<open>\<open>strrchr(path, '/')\<close> and the comparison with the name, which ends at its first NUL byte.\<close>

definition base_name :: "string \<Rightarrow> string" where
  "base_name p = rev (takeWhile (\<lambda>ch. ch \<noteq> CHR ''/'') (rev p))"

definition has_name :: "byte list \<Rightarrow> pcb_t \<Rightarrow> bool" where
  "has_name name b \<longleftrightarrow> map of_char (base_name (path b)) = takeWhile (\<lambda>x. x \<noteq> 0) name"

lemma dequeue_less: "(x, q') = dequeue_at q \<Longrightarrow> 0 < q_size q \<Longrightarrow> q_size q' < q_size q"
  using q_size_dequeue_at [of q] by (cases "dequeue_at q") simp

text \<open>\<open>while (!empty(queue))\<close>: processes with the name are freed, the others move to \<open>tmp\<close>.\<close>

function kill_in_queue :: "byte list \<Rightarrow> queue_t \<Rightarrow> queue_t \<Rightarrow> pcbs \<Rightarrow> (queue_t \<times> pcbs) res" where
  "kill_in_queue name q tmp h =
    (if empty (Some q) then Inr (tmp, h)
     else
       case dequeue_at q of
         (None, q') \<Rightarrow> Inl NullDeref
       | (Some p, q') \<Rightarrow>
           bindR (deref h p) (\<lambda>b.
             if has_name name b then kill_in_queue name q' tmp (h(p := None))
             else kill_in_queue name q' (enqueue_at tmp p) h))"
  by pat_completeness auto
termination
  by (relation "measure (\<lambda>(n, q, t, h). q_size q)") (auto simp: empty_def intro: dequeue_less)

declare kill_in_queue.simps [simp del]

text \<open>
  The loop over the priorities, by the priorities still to do.  The pointer to the queues is read
  from the control block of the caller in every turn, and again for the running list.
\<close>

definition queue_ptrs :: "pcbs \<Rightarrow> pcb_ref \<Rightarrow> unit res" where
  "queue_ptrs h caller = bindR (deref h caller) (\<lambda>b. if queues_set b then Inr () else Inl WildPointer)"

fun kill_levels :: "pcb_ref \<Rightarrow> byte list \<Rightarrow> nat list \<Rightarrow> sched_t \<Rightarrow> pcbs \<Rightarrow> (sched_t \<times> pcbs) res" where
  "kill_levels caller name [] s h = Inr (s, h)"
| "kill_levels caller name (p # ps) s h =
    bindR (queue_ptrs h caller) (\<lambda>_.
      if empty (Some (mlq_ready_queue s ! p)) then kill_levels caller name ps s h
      else bindR (kill_in_queue name (mlq_ready_queue s ! p) zero_queue h) (\<lambda>(q, h').
        kill_levels caller name ps (s\<lparr>mlq_ready_queue := (mlq_ready_queue s)[p := q]\<rparr>) h'))"

definition kill_processes :: "pcb_ref \<Rightarrow> byte list \<Rightarrow> sched_t \<Rightarrow> pcbs \<Rightarrow> (sched_t \<times> pcbs) res" where
  "kill_processes caller name s h =
    bindR (kill_levels caller name [0..<MAX_PRIO] s h) (\<lambda>(s', h').
    bindR (queue_ptrs h' caller) (\<lambda>_.
      if empty (Some (running_list s')) then Inr (s', h')
      else bindR (kill_in_queue name (running_list s') zero_queue h') (\<lambda>(q, h'').
        Inr (s'\<lparr>running_list := q\<rparr>, h''))))"

definition sys_killall :: "bool \<Rightarrow> pcb_ref \<Rightarrow> sc_regs \<Rightarrow> kernel \<Rightarrow> (int \<times> sc_out \<times> kernel) res" where
  "sys_killall zeroed caller rs k =
    bindR (with_ctx (read_name zeroed (a1 rs) 0 [] []) caller k) (\<lambda>((name, logs), k').
    bindR (kill_processes caller name (k_sched k') (k_pcbs k')) (\<lambda>(s, h).
      Inr (0, Killing (to_i32 (a1 rs)) name logs, k'\<lparr>k_sched := s, k_pcbs := h\<rparr>)))"

section \<open>Dispatch\<close>

definition syscall :: "bool \<Rightarrow> pcb_ref \<Rightarrow> int \<Rightarrow> sc_regs \<Rightarrow> kernel \<Rightarrow> (int \<times> sc_out \<times> sc_regs \<times> kernel) res" where
  "syscall zeroed caller nr rs k =
    (if nr = 0 then case sys_listsyscall of (st, out) \<Rightarrow> Inr (st, out, rs, k)
     else if nr = 17 then
       bindR (with_ctx (\<lambda>c. bindR (sys_memmap zeroed c rs) (\<lambda>(st, rs', c'). Inr ((st, rs'), c'))) caller k)
         (\<lambda>((st, rs'), k'). Inr (st, Silent, rs', k'))
     else if nr = 101 then
       bindR (sys_killall zeroed caller rs k) (\<lambda>(st, out, k'). Inr (st, out, rs, k'))
     else if nr = 440 then case sys_xxxhandler rs of (st, out) \<Rightarrow> Inr (st, out, rs, k)
     else Inr (sys_ni_syscall, Silent, rs, k))"

text \<open>The registers are a local variable of the wrapper: what the handler leaves there is lost.\<close>

definition libsyscall ::
  "bool \<Rightarrow> pcb_ref \<Rightarrow> int \<Rightarrow> int \<Rightarrow> int \<Rightarrow> int \<Rightarrow> kernel \<Rightarrow> (int \<times> sc_out \<times> kernel) res" where
  "libsyscall zeroed caller syscall_idx x1 x2 x3 k =
    bindR (syscall zeroed caller syscall_idx \<lparr>a1 = x1, a2 = x2, a3 = x3\<rparr> k) (\<lambda>(st, out, _, k').
      Inr (st, out, k'))"

section \<open>What killing does to a queue\<close>

definition named :: "pcbs \<Rightarrow> byte list \<Rightarrow> pcb_ref \<Rightarrow> bool" where
  "named h name p \<longleftrightarrow> (case h p of None \<Rightarrow> False | Some b \<Rightarrow> has_name name b)"

text \<open>The store without the processes of \<open>S\<close> that have the name.\<close>

definition killed :: "pcbs \<Rightarrow> byte list \<Rightarrow> pcb_ref set \<Rightarrow> pcbs" where
  "killed h name S = (\<lambda>p. if p \<in> S \<and> named h name p then None else h p)"

lemma killed_empty [simp]: "killed h name {} = h"
  by (simp add: killed_def)

lemma named_killed: "p \<notin> S \<Longrightarrow> named (killed h name S) name p = named h name p"
  by (simp add: named_def killed_def)

lemma killed_killed: "killed (killed h name S) name T = killed h name (S \<union> T)"
  by (auto simp: killed_def named_def fun_eq_iff split: option.splits)

lemma killed_live: "\<forall>p\<in>S. \<not> named h name p \<Longrightarrow> killed h name S = h"
  by (auto simp: killed_def fun_eq_iff)

lemma kill_in_queue_turn:
  assumes "q_wf q"
  obtains (over) "q_list q = []" "\<And>t h. kill_in_queue name q t h = Inr (t, h)"
  | (turn) p ps q' where "q_list q = p # ps" "q_list q' = ps" "q_wf q'"
      "\<And>t h. kill_in_queue name q t h = bindR (deref h p) (\<lambda>b.
         if has_name name b then kill_in_queue name q' t (h(p := None))
         else kill_in_queue name q' (enqueue_at t p) h)"
  using assms
proof (cases rule: pq.deq_cases)
  case none
  then have "kill_in_queue name q t h = Inr (t, h)" for t h
    using pq.isempty_iff [OF assms] by (subst kill_in_queue.simps) simp
  with none show thesis by (intro over)
next
  case (some p ps q')
  then have "kill_in_queue name q t h = bindR (deref h p) (\<lambda>b.
      if has_name name b then kill_in_queue name q' t (h(p := None))
      else kill_in_queue name q' (enqueue_at t p) h)" for t h
    using pq.isempty_iff [OF assms] by (subst kill_in_queue.simps) simp
  with some show thesis by (intro turn)
qed

lemma kill_in_queue_spec:
  assumes "q_wf q" "q_wf t" "distinct (q_list t @ q_list q)" "length (q_list t @ q_list q) \<le> MAX_QUEUE_SIZE"
    "set (q_list q) \<subseteq> dom h"
  shows "\<exists>q'. kill_in_queue name q t h = Inr (q', killed h name (set (q_list q))) \<and> q_wf q' \<and>
    q_list q' = q_list t @ filter (\<lambda>p. \<not> named h name p) (q_list q)"
  using assms
proof (induction "length (q_list q)" arbitrary: q t h)
  case 0
  then have "q_list q = []" by simp
  with "0.prems"(1) show ?case
    by (cases rule: kill_in_queue_turn [of q name]) (use "0.prems" in auto)
next
  case (Suc n)
  from Suc.prems(1) show ?case
  proof (cases rule: kill_in_queue_turn [of q name])
    case over
    with Suc show ?thesis by simp
  next
    case (turn p ps q')
    with Suc.prems obtain b where b: "h p = Some b" by auto
    have p: "p \<notin> set ps" "p \<notin> set (q_list t)" using Suc.prems(3) turn(1) by auto
    show ?thesis
    proof (cases "has_name name b")
      case True
      have "\<exists>q2. kill_in_queue name q' t (h(p := None)) =
          Inr (q2, killed (h(p := None)) name (set (q_list q'))) \<and> q_wf q2 \<and>
          q_list q2 = q_list t @ filter (\<lambda>x. \<not> named (h(p := None)) name x) (q_list q')"
        using Suc.hyps(2) Suc.prems turn p by (intro Suc.hyps(1)) auto
      moreover have "killed (h(p := None)) name (set ps) = killed h name (insert p (set ps))"
        using True b by (auto simp: killed_def named_def fun_eq_iff)
      moreover have "filter (\<lambda>x. \<not> named (h(p := None)) name x) ps = filter (\<lambda>x. \<not> named h name x) ps"
        using p by (intro filter_cong) (auto simp: named_def)
      moreover have "named h name p" using True b by (simp add: named_def)
      ultimately show ?thesis using turn True b by (simp add: deref_Some)
    next
      case False
      have et: "q_list (enqueue_at t p) = q_list t @ [p]" "q_wf (enqueue_at t p)"
        using enqueue_at_spec [OF Suc.prems(2), of p] p Suc.prems(4) turn(1) by auto
      have "\<exists>q2. kill_in_queue name q' (enqueue_at t p) h = Inr (q2, killed h name (set (q_list q'))) \<and> q_wf q2 \<and>
          q_list q2 = q_list (enqueue_at t p) @ filter (\<lambda>x. \<not> named h name x) (q_list q')"
        using Suc.hyps(2) Suc.prems turn et by (intro Suc.hyps(1)) auto
      moreover have nn: "\<not> named h name p" using False b by (simp add: named_def)
      moreover have "killed h name (insert p (set ps)) = killed h name (set ps)"
        using nn by (auto simp: killed_def fun_eq_iff)
      ultimately show ?thesis using turn False b et by (simp add: deref_Some)
    qed
  qed
qed

text \<open>A process that was freed before is followed all the same.\<close>

lemma kill_in_queue_dead:
  "q_wf q \<Longrightarrow> \<exists>p\<in>set (q_list q). h p = None \<Longrightarrow> kill_in_queue name q t h = Inl UseAfterFree"
proof (induction "length (q_list q)" arbitrary: q t h)
  case (Suc n)
  from Suc.prems(1) show ?case
  proof (cases rule: kill_in_queue_turn [of q name])
    case over
    with Suc show ?thesis by simp
  next
    case (turn p ps q')
    show ?thesis
    proof (cases "h p")
      case None
      with turn show ?thesis by (simp add: deref_None)
    next
      case (Some b)
      with Suc.prems(2) turn(1,2) have "\<exists>x\<in>set (q_list q'). h x = None" by auto
      moreover from this have "\<exists>x\<in>set (q_list q'). (h(p := None)) x = None" by auto
      ultimately show ?thesis
        using Suc.hyps(2) turn Some Suc.hyps(1) [of q'] by (simp add: deref_Some)
    qed
  qed
qed simp

section \<open>What killing does to the levels\<close>

text \<open>The running caller and the processes waiting: alive, each at one level only.\<close>

definition kill_ready :: "pcb_ref \<Rightarrow> sched_t \<Rightarrow> pcbs \<Rightarrow> bool" where
  "kill_ready caller s h \<longleftrightarrow> sched_wf s \<and> queue_ptrs h caller = Inr () \<and> caller \<notin> all_ready s \<and>
     all_ready s \<subseteq> dom h \<and>
     (\<forall>i<MAX_PRIO. \<forall>j<MAX_PRIO. i \<noteq> j \<longrightarrow> set (ready_at s i) \<inter> set (ready_at s j) = {})"

lemma queue_ptrs_killed: "queue_ptrs h caller = Inr () \<Longrightarrow> caller \<notin> S \<Longrightarrow> queue_ptrs (killed h name S) caller = Inr ()"
  by (auto simp: queue_ptrs_def bindR_eq_Inr killed_def)

lemma kill_levels_spec:
  assumes "sched_wf s" and "queue_ptrs h caller = Inr ()" and "distinct ps" and "\<forall>i\<in>set ps. i < MAX_PRIO"
    and "\<forall>i\<in>set ps. set (ready_at s i) \<subseteq> dom h \<and> caller \<notin> set (ready_at s i)"
    and "\<forall>i\<in>set ps. \<forall>j\<in>set ps. i \<noteq> j \<longrightarrow> set (ready_at s i) \<inter> set (ready_at s j) = {}"
  shows "\<exists>s'. kill_levels caller name ps s h = Inr (s', killed h name (\<Union>i\<in>set ps. set (ready_at s i))) \<and>
    sched_wf s' \<and> running_list s' = running_list s \<and> slot s' = slot s \<and>
    (\<forall>i. ready_at s' i = (if i \<in> set ps then filter (\<lambda>p. \<not> named h name p) (ready_at s i) else ready_at s i))"
  using assms
proof (induction ps arbitrary: s h)
  case (Cons k ps)
  let ?q = "mlq_ready_queue s ! k"
  have k: "k < MAX_PRIO" "k \<notin> set ps" and wf: "q_wf ?q" and kl: "k < length (mlq_ready_queue s)"
    using Cons.prems sched_wf_queue by (auto simp: sched_wf_def)
  have "set (q_list ?q) \<subseteq> dom h" "distinct (q_list ?q)" "length (q_list ?q) \<le> MAX_QUEUE_SIZE"
    using Cons.prems(5) wf length_q_list [OF wf] by (auto simp: ready_at_def q_wf_def)
  then obtain q1 where q1: "kill_in_queue name ?q zero_queue h = Inr (q1, killed h name (set (q_list ?q)))"
    "q_wf q1" "q_list q1 = filter (\<lambda>p. \<not> named h name p) (q_list ?q)"
    using kill_in_queue_spec [of ?q zero_queue h name] wf by auto
  define s1 where "s1 = (if empty (Some ?q) then s else s\<lparr>mlq_ready_queue := (mlq_ready_queue s)[k := q1]\<rparr>)"
  let ?h1 = "killed h name (set (ready_at s k))"
  have e: "empty (Some ?q) \<longleftrightarrow> ready_at s k = []" using pq.isempty_iff [OF wf] by (simp add: ready_at_def)
  have turn: "kill_levels caller name (k # ps) s h = kill_levels caller name ps s1 ?h1"
    using Cons.prems(2) q1(1) e by (simp add: s1_def ready_at_def)
  have s1: "sched_wf s1" "running_list s1 = running_list s" "slot s1 = slot s"
    "ready_at s1 i = (if i = k then filter (\<lambda>p. \<not> named h name p) (ready_at s k) else ready_at s i)" for i
    using Cons.prems(1) q1(2,3) e kl
    by (auto simp: s1_def sched_wf_def ready_at_def list_all_length nth_list_update)
  have r1: "ready_at s1 i = ready_at s i" if "i \<in> set ps" for i using that k s1(4) by auto
  have nm: "named ?h1 name p = named h name p" if "i \<in> set ps" "p \<in> set (ready_at s i)" for i p
    using that k Cons.prems(6) by (intro named_killed) auto
  have liv: "set (ready_at s i) \<subseteq> dom ?h1" if "i \<in> set ps" for i
  proof
    fix p assume p: "p \<in> set (ready_at s i)"
    then have "p \<notin> set (ready_at s k)" using that k Cons.prems(6) by auto
    moreover have "p \<in> dom h" using Cons.prems(5) that p by (meson list.set_intros(2) subsetD)
    ultimately show "p \<in> dom ?h1" by (auto simp: killed_def)
  qed
  have "\<exists>s'. kill_levels caller name ps s1 ?h1 = Inr (s', killed ?h1 name (\<Union>i\<in>set ps. set (ready_at s1 i))) \<and>
    sched_wf s' \<and> running_list s' = running_list s1 \<and> slot s' = slot s1 \<and>
    (\<forall>i. ready_at s' i = (if i \<in> set ps then filter (\<lambda>p. \<not> named ?h1 name p) (ready_at s1 i) else ready_at s1 i))"
    using Cons.prems s1(1) r1 liv queue_ptrs_killed by (intro Cons.IH) auto
  then obtain s' where s': "kill_levels caller name ps s1 ?h1 = Inr (s', killed ?h1 name (\<Union>i\<in>set ps. set (ready_at s1 i)))"
    "sched_wf s'" "running_list s' = running_list s1" "slot s' = slot s1"
    "\<And>i. ready_at s' i = (if i \<in> set ps then filter (\<lambda>p. \<not> named ?h1 name p) (ready_at s1 i) else ready_at s1 i)"
    by blast
  have "killed ?h1 name (\<Union>i\<in>set ps. set (ready_at s1 i)) = killed h name (\<Union>i\<in>set (k # ps). set (ready_at s i))"
    using r1 by (simp add: killed_killed)
  moreover have "ready_at s' i = (if i \<in> set (k # ps) then filter (\<lambda>p. \<not> named h name p) (ready_at s i)
      else ready_at s i)" for i
    using s'(5) [of i] s1(4) [of i] r1 [of i] k nm [of i] by (auto intro!: filter_cong)
  ultimately show ?case using turn s' s1 by auto
qed simp

lemma kill_levels_all:
  assumes "kill_ready caller s h"
  shows "\<exists>s'. kill_levels caller name [0..<MAX_PRIO] s h = Inr (s', killed h name (all_ready s)) \<and>
    sched_wf s' \<and> running_list s' = running_list s \<and> slot s' = slot s \<and>
    (\<forall>i. ready_at s' i =
      (if i < MAX_PRIO then filter (\<lambda>p. \<not> named h name p) (ready_at s i) else ready_at s i))"
proof -
  have "(\<Union>i\<in>set [0..<MAX_PRIO]. set (ready_at s i)) = all_ready s"
    by (auto simp: all_ready_def)
  note all = this
  have wf: "sched_wf s" and ptr: "queue_ptrs h caller = Inr ()"
    and liv: "\<forall>i\<in>set [0..<MAX_PRIO]. set (ready_at s i) \<subseteq> dom h \<and> caller \<notin> set (ready_at s i)"
    and dis: "\<forall>i\<in>set [0..<MAX_PRIO]. \<forall>j\<in>set [0..<MAX_PRIO]. i \<noteq> j \<longrightarrow>
      set (ready_at s i) \<inter> set (ready_at s j) = {}"
    using assms unfolding kill_ready_def all [symmetric] by (simp, simp, blast, simp)
  have "\<forall>i\<in>set [0..<MAX_PRIO]. i < MAX_PRIO" "distinct [0..<MAX_PRIO]" by simp_all
  from kill_levels_spec [OF wf ptr this(2,1) liv dis, of name] show ?thesis
    unfolding all by (simp add: atLeast0LessThan)
qed

section \<open>Properties\<close>

text \<open>C40: killing a waiting process is undefined behaviour: a process that has the name, waits at some
  level and stands in the running list (where \<open>add_proc\<close> and \<open>put_proc\<close> put every process, and from
  where nothing but \<open>killall\<close> removes one) is freed with its level and then followed through the
  running list.\<close>

theorem killall_use_after_free:
  assumes kr: "kill_ready caller s h" and p: "p \<in> all_ready s" "named h name p"
    and run: "p \<in> set (q_list (running_list s))"
  shows "kill_processes caller name s h = Inl UseAfterFree"
proof -
  obtain s' where s': "kill_levels caller name [0..<MAX_PRIO] s h = Inr (s', killed h name (all_ready s))"
    "sched_wf s'" "running_list s' = running_list s"
    using kill_levels_all [OF kr] by blast
  have wf: "q_wf (running_list s)" using kr by (simp add: kill_ready_def sched_wf_def)
  have ptr: "queue_ptrs (killed h name (all_ready s)) caller = Inr ()"
    using kr queue_ptrs_killed by (simp add: kill_ready_def)
  have "\<not> empty (Some (running_list s))" using run pq.isempty_iff [OF wf] by auto
  moreover have "kill_in_queue name (running_list s) zero_queue (killed h name (all_ready s)) = Inl UseAfterFree"
    using run p by (intro kill_in_queue_dead [OF wf]) (auto simp: killed_def)
  ultimately show ?thesis using s' ptr by (simp add: kill_processes_def)
qed

text \<open>A running caller and one waiting process, both in the running list.\<close>

definition two_procs :: sched_t where
  "two_procs = zero_sched\<lparr>mlq_ready_queue := (mlq_ready_queue zero_sched)[3 := enqueue_at zero_queue 8],
     running_list := enqueue_at (enqueue_at zero_queue 8) 9\<rparr>"

lemma enqueue_zero: "q_list (enqueue_at zero_queue p) = [p]" "q_wf (enqueue_at zero_queue p)"
  using enqueue_at_spec [of zero_queue p] by (simp_all add: MAX_QUEUE_SIZE_def)

lemma enqueue_two: "p \<noteq> r \<Longrightarrow> q_list (enqueue_at (enqueue_at zero_queue p) r) = [p, r]"
  "q_wf (enqueue_at (enqueue_at zero_queue p) r)"
  using enqueue_at_spec [OF enqueue_zero(2), of p r] by (simp_all add: enqueue_zero MAX_QUEUE_SIZE_def)

lemma two_procs_simps:
  "ready_at two_procs i = (if i = 3 then [8] else if i < MAX_PRIO then [] else ready_at two_procs i)"
  "q_list (running_list two_procs) = [8, 9]" "sched_wf two_procs" "all_ready two_procs = {8}"
proof -
  have 3: "(3::nat) < MAX_PRIO" by (simp add: MAX_PRIO_def)
  then show r: "ready_at two_procs i = (if i = 3 then [8] else if i < MAX_PRIO then [] else ready_at two_procs i)" for i
    by (simp add: two_procs_def zero_sched_def ready_at_def enqueue_zero nth_list_update)
  show "q_list (running_list two_procs) = [8, 9]" by (simp add: two_procs_def enqueue_two)
  show "sched_wf two_procs"
    using 3 by (auto simp: two_procs_def zero_sched_def sched_wf_def enqueue_zero enqueue_two
        list_all_length nth_list_update)
  have "all_ready two_procs = (\<Union>i<MAX_PRIO. set (if i = 3 then [8] else []))"
    unfolding all_ready_def by (rule SUP_cong) (simp_all add: r [of "_ :: nat"])
  with 3 show "all_ready two_procs = {8}" by (auto split: if_splits)
qed

lemma two_procs_ready:
  assumes "h 8 = Some b" "h 9 = Some (c :: pcb_t)" "queues_set c"
  shows "kill_ready 9 two_procs h"
proof -
  have "set (ready_at two_procs i) \<inter> set (ready_at two_procs j) = {}"
    if "i < MAX_PRIO" "j < MAX_PRIO" "i \<noteq> j" for i j
    using that by (auto simp: two_procs_simps(1) [of i] two_procs_simps(1) [of j] split: if_splits)
  then show ?thesis using assms by (auto simp: kill_ready_def two_procs_simps queue_ptrs_def deref_Some)
qed

theorem killall_use_after_free_witness:
  "kill_processes 9 (map of_char ''P0'') two_procs
     [8 \<mapsto> sample_pcb\<lparr>path := ''input/proc/P0''\<rparr>, 9 \<mapsto> sample_pcb\<lparr>queues_set := True\<rparr>] = Inl UseAfterFree"
proof -
  let ?h = "[8 \<mapsto> sample_pcb\<lparr>path := ''input/proc/P0''\<rparr>, 9 \<mapsto> sample_pcb\<lparr>queues_set := True\<rparr>]"
  have "kill_ready 9 two_procs ?h" by (rule two_procs_ready [where c = "sample_pcb\<lparr>queues_set := True\<rparr>"]) simp_all
  moreover have "named ?h (map of_char ''P0'') 8"
    by (simp add: named_def has_name_def base_name_def)
  ultimately show ?thesis
    using killall_use_after_free [of 9 two_procs ?h 8 "map of_char ''P0''"] by (simp add: two_procs_simps)
qed

text \<open>When no waiting process has the name and every process in the running list is alive, \<open>killall\<close>
  removes exactly the processes with the name from the running list and frees them; the ready queues
  keep their processes and their order, and every other process stays.\<close>

theorem killall_filters_running:
  assumes kr: "kill_ready caller s h" and none: "\<forall>p\<in>all_ready s. \<not> named h name p"
    and live: "set (q_list (running_list s)) \<subseteq> dom h"
  shows "\<exists>s'. kill_processes caller name s h = Inr (s', killed h name (set (q_list (running_list s)))) \<and>
    sched_wf s' \<and> (\<forall>i. ready_at s' i = ready_at s i) \<and>
    q_list (running_list s') = filter (\<lambda>p. \<not> named h name p) (q_list (running_list s))"
proof -
  let ?q = "running_list s"
  have wf: "q_wf ?q" and ptr: "queue_ptrs h caller = Inr ()"
    using kr by (simp_all add: kill_ready_def sched_wf_def)
  have h: "killed h name (all_ready s) = h" by (rule killed_live [OF none])
  have f: "filter (\<lambda>p. \<not> named h name p) (ready_at s i) = ready_at s i" if "i < MAX_PRIO" for i
    using none that by (intro filter_True) (auto simp: all_ready_def)
  obtain s' where s0: "kill_levels caller name [0..<MAX_PRIO] s h = Inr (s', h)"
    "sched_wf s'" "running_list s' = ?q" "\<forall>i. ready_at s' i =
      (if i < MAX_PRIO then filter (\<lambda>p. \<not> named h name p) (ready_at s i) else ready_at s i)"
    using kill_levels_all [OF kr, of name] unfolding h by blast
  have "\<forall>i. ready_at s' i = ready_at s i" using s0(4) f by simp
  note s' = s0(1-3) this
  show ?thesis
  proof (cases "q_list ?q = []")
    case True
    then have "empty (Some ?q)" using pq.isempty_iff [OF wf] by simp
    with True s' ptr show ?thesis by (simp add: kill_processes_def)
  next
    case False
    then have "\<not> empty (Some ?q)" using pq.isempty_iff [OF wf] by simp
    moreover have "distinct (q_list zero_queue @ q_list ?q)"
      "length (q_list zero_queue @ q_list ?q) \<le> MAX_QUEUE_SIZE"
      using wf length_q_list [OF wf] by (simp_all add: q_wf_def)
    then obtain q1 where "kill_in_queue name ?q zero_queue h = Inr (q1, killed h name (set (q_list ?q)))"
      "q_wf q1" "q_list q1 = filter (\<lambda>p. \<not> named h name p) (q_list ?q)"
      using kill_in_queue_spec [OF wf zero_queue_wf(1) _ _ live, of name] by auto
    ultimately show ?thesis using s' ptr
      by (intro exI [of _ "s'\<lparr>running_list := q1\<rparr>"])
        (simp add: kill_processes_def sched_wf_def ready_at_def)
  qed
qed

theorem killall_filters_running_witness:
  "\<exists>s'. kill_processes 9 (map of_char ''P1'') two_procs
      [8 \<mapsto> sample_pcb\<lparr>path := ''input/proc/P0''\<rparr>,
       9 \<mapsto> sample_pcb\<lparr>queues_set := True, path := ''input/proc/P1''\<rparr>] =
      Inr (s', killed [8 \<mapsto> sample_pcb\<lparr>path := ''input/proc/P0''\<rparr>,
       9 \<mapsto> sample_pcb\<lparr>queues_set := True, path := ''input/proc/P1''\<rparr>] (map of_char ''P1'') {8, 9}) \<and>
    q_list (running_list s') = [8]"
proof -
  let ?c = "sample_pcb\<lparr>queues_set := True, path := ''input/proc/P1''\<rparr>"
  let ?h = "[8 \<mapsto> sample_pcb\<lparr>path := ''input/proc/P0''\<rparr>, 9 \<mapsto> ?c]"
  have kr: "kill_ready 9 two_procs ?h" by (rule two_procs_ready [where c = ?c]) simp_all
  have n: "\<not> named ?h (map of_char ''P1'') 8" "named ?h (map of_char ''P1'') 9"
    by (simp_all add: named_def has_name_def base_name_def)
  from killall_filters_running [OF kr, of "map of_char ''P1''"] n show ?thesis
    by (simp add: two_procs_simps) blast
qed

text \<open>Reading a byte of a region whose page is online.\<close>

definition region_byte :: "vmctx \<Rightarrow> int \<Rightarrow> nat \<Rightarrow> byte" where
  "region_byte c rgid i = storage (v_mram c)
     (phys (v_mm c) (region_addr (symrgtbl (v_mm c) ! nat rgid) (int i)))"

definition region_online :: "vmctx \<Rightarrow> int \<Rightarrow> nat \<Rightarrow> bool" where
  "region_online c rgid i \<longleftrightarrow> online (v_mm c) (PAGING_PGN (region_addr (symrgtbl (v_mm c) ! nat rgid) (int i)))"

lemma report_heap: "heap_inv (v_mm c) \<Longrightarrow> \<exists>out. report d c = Inr out"
proof -
  assume h: "heap_inv (v_mm c)"
  then obtain v where "mmap (v_mm c) = Node v Null" by (rule heap_invE)
  then show ?thesis using get_vma_by_num_heap [OF h, of 0] by (simp add: report_def print_pgtbl_def)
qed

lemma libread_online:
  assumes inv: "proc_inv others c" and rgid: "0 \<le> rgid" "rgid < 30" and on: "region_online c rgid i"
    and i: "i \<le> 100"
  shows "\<exists>out. libread z c rgid (int i) =
    Inr (sint (region_byte c rgid i), out, to_u32 (sint (region_byte c rgid i)), c)"
proof -
  have r: "read_rg z c 0 rgid (int i) = Inr (sint (region_byte c rgid i), Some (region_byte c rgid i), c)"
    using write_read_rg_online(2) [OF inv rgid, of "int i" z] on
    by (simp add: region_byte_def region_online_def Let_def)
  have "to_i32 rgid = rgid" "to_i32 (int i) = int i" using rgid i by (simp_all add: to_i32_id)
  moreover obtain out where "report True c = Inr out"
    using report_heap inv by (auto simp: proc_inv_def)
  ultimately show ?thesis by (simp add: libread_def r)
qed

lemma minus_one_byte: "to_u32 (sint b) = 4294967295 \<longleftrightarrow> b = -1" for b :: byte
proof
  assume "to_u32 (sint b) = 4294967295"
  then have "(word_of_int (to_u32 (sint b)) :: byte) = word_of_int 4294967295" by simp
  then show "b = -1" by (simp add: byte_of_u32)
qed (simp add: to_u32_def)

lemma read_name_online:
  assumes inv: "proc_inv others c" and rgid: "0 \<le> rgid" "rgid < 30"
    and on: "\<forall>i\<le>n. region_online c rgid i" and body: "\<forall>i<n. region_byte c rgid i \<noteq> -1"
    and n: "n = 100 \<or> n < 100 \<and> region_byte c rgid n = -1" and k: "k \<le> n"
  shows "\<exists>logs'. read_name z rgid k acc logs c =
    (if n = 100 then Inl OutOfBounds else Inr ((acc @ map (region_byte c rgid) [k..<n], logs'), c))"
  using k
proof (induction "n - k" arbitrary: k acc logs)
  case 0
  then have "k = n" by simp
  obtain out where "libread z c rgid (int n) =
      Inr (sint (region_byte c rgid n), out, to_u32 (sint (region_byte c rgid n)), c)"
    using libread_online [OF inv rgid, of n z] on n by auto
  with \<open>k = n\<close> n show ?case by (subst read_name.simps) (auto simp: minus_one_byte)
next
  case (Suc m)
  then have kn: "k < n" by simp
  obtain out where lr: "libread z c rgid (int k) =
      Inr (sint (region_byte c rgid k), out, to_u32 (sint (region_byte c rgid k)), c)"
    using libread_online [OF inv rgid, of k z] on n kn by auto
  have "\<exists>logs'. read_name z rgid (Suc k) (acc @ [region_byte c rgid k]) (logs @ [out]) c =
    (if n = 100 then Inl OutOfBounds
     else Inr (((acc @ [region_byte c rgid k]) @ map (region_byte c rgid) [Suc k..<n], logs'), c))"
    using Suc.hyps(2) kn by (intro Suc.hyps(1)) auto
  moreover have "[k..<n] = k # [Suc k..<n]" using kn by (rule upt_conv_Cons)
  moreover have "k < 100" using kn n by auto
  ultimately show ?case
    using lr body kn by (subst read_name.simps) (cases "n = 100"; simp add: minus_one_byte byte_of_u32)
qed

text \<open>The name of the processes to kill is the bytes of the region before the first byte \<open>0xFF\<close>, if
  there is one among the first 100; otherwise the copy runs over the end of the 100 byte buffer.\<close>

theorem killall_name:
  assumes "proc_inv others c" and "0 \<le> rgid" and "rgid < 30"
    and "\<forall>i\<le>n. region_online c rgid i" and "\<forall>i<n. region_byte c rgid i \<noteq> -1"
    and "n = 100 \<or> n < 100 \<and> region_byte c rgid n = -1"
  shows "if n = 100 then read_name z rgid 0 [] [] c = Inl OutOfBounds
    else \<exists>logs. read_name z rgid 0 [] [] c = Inr ((map (region_byte c rgid) [0..<n], logs), c)"
  using read_name_online [OF assms, of 0 z "[]" "[]"] by auto

theorem killall_name_witness: "read_name False 4 0 [] [] page_ctx = Inl OutOfBounds"
proof -
  have p: "proc_inv {} page_ctx" by (rule page_ctx_inv) auto
  have "symrgtbl (v_mm page_ctx) ! 4 = \<lparr>rg_start = 0, rg_end = 200\<rparr>"
    by (simp add: page_ctx_def nth_replicate)
  then have a: "region_addr (symrgtbl (v_mm page_ctx) ! 4) (int i) = int i" if "i \<le> 100" for i
    using that by (simp add: region_addr_def to_u64_id to_i32_id)
  have "\<forall>i\<le>100. region_online page_ctx 4 i"
    by (simp add: region_online_def a page_ctx_online PAGING_PGN_eq div_pos_pos_trivial)
  moreover have "\<forall>i<100. region_byte page_ctx 4 i \<noteq> -1"
    by (simp add: region_byte_def page_ctx_def new_ctx_def idle_ctx_def idle_ram_def stack_memphy_def)
  ultimately show ?thesis using killall_name [OF p, of 4 100 False] by simp
qed

lemma with_ctx_live:
  "k_pcbs k p = Some b \<Longrightarrow> mm b = Some m \<Longrightarrow>
     with_ctx f p k = bindR (f (ctx_of k b m)) (\<lambda>(x, c). Inr (x, put_ctx k p b c))"
  by (simp add: with_ctx_def deref_Some)

text \<open>System call 17 reaches the memory handler of the calling process: the answer, the registers and
  the devices are those of \<open>__sys_memmap\<close> on its descriptor, and no other process and no queue
  changes.  This is the call the memory library makes.\<close>

theorem syscall_17_is_memmap:
  assumes "k_pcbs k p = Some b" and "mm b = Some m" and "sys_memmap z (ctx_of k b m) rs = Inr (st, rs', c')"
  shows "\<exists>k'. syscall z p 17 rs k = Inr (st, Silent, rs', k') \<and> k_sched k' = k_sched k \<and>
    k_mram k' = v_mram c' \<and> k_mswp k' = v_mswp c' \<and> k_pcbs k' p = Some (b\<lparr>mm := Some (v_mm c')\<rparr>) \<and>
    (\<forall>q. q \<noteq> p \<longrightarrow> k_pcbs k' q = k_pcbs k q)"
  using assms by (simp add: syscall_def with_ctx_live put_ctx_def)

text \<open>A machine with the RAM of \<open>new_ctx\<close> and one process.\<close>

definition one_proc :: kernel where
  "one_proc = \<lparr>k_sched = zero_sched, k_pcbs = [4 \<mapsto> sample_pcb\<lparr>mm := Some (v_mm (new_ctx []))\<rparr>],
     k_mram = idle_ram [0, 1], k_mswp = replicate 4 (idle_ram [0])\<rparr>"

theorem syscall_17_is_memmap_witness:
  "\<exists>k'. syscall False 4 17 \<lparr>a1 = 1, a2 = 0, a3 = 0\<rparr> one_proc = Inr (0, Silent, \<lparr>a1 = 1, a2 = 0, a3 = 0\<rparr>, k')"
proof -
  let ?b = "sample_pcb\<lparr>mm := Some (v_mm (new_ctx []))\<rparr>"
  have "sys_memmap False (ctx_of one_proc ?b (v_mm (new_ctx []))) \<lparr>a1 = 1, a2 = 0, a3 = 0\<rparr> =
      Inr (0, \<lparr>a1 = 1, a2 = 0, a3 = 0\<rparr>, ctx_of one_proc ?b (v_mm (new_ctx [])))"
    by (simp add: sys_memmap_def sysmem_ops to_i32_def)
  then show ?thesis using syscall_17_is_memmap [of one_proc 4 ?b "v_mm (new_ctx [])"]
    by (simp add: one_proc_def) blast
qed

text \<open>Any process can write any byte of the RAM: the system call instruction with the arguments 17, 5,
  \<open>a\<close>, \<open>v\<close> stores \<open>v\<close> at the physical address \<open>a\<close>, whatever process the frame belongs to.\<close>

theorem raw_physical_write:
  assumes "k_pcbs k p = Some b" and "mm b = Some m" and "ram_ok (k_mram k)"
    and "0 \<le> a" and "a < maxsz (k_mram k)" and "a < 2147483648"
  shows "\<exists>k'. libsyscall z p 17 5 a v k = Inr (0, Silent, k') \<and>
    storage (k_mram k') = (storage (k_mram k))(a := word_of_int v)"
proof -
  have "to_i32 a = a" "to_i32 5 = 5" using assms by (simp_all add: to_i32_id)
  with assms show ?thesis
    by (simp add: libsyscall_def syscall_def with_ctx_live sys_memmap_def sysmem_ops ctx_of_def put_ctx_def
        MEMPHY_write_def store_byte_def ram_ok_def)
qed

theorem raw_physical_write_witness:
  "\<exists>k'. libsyscall False 4 17 5 300 77 one_proc = Inr (0, Silent, k') \<and> storage (k_mram k') 300 = 77"
  using raw_physical_write [of one_proc 4 "sample_pcb\<lparr>mm := Some (v_mm (new_ctx []))\<rparr>" "v_mm (new_ctx [])" 300 False 77]
  by (auto simp: one_proc_def)

end
