(* ===== verification/Cpu.thy ===== *)
theory Cpu imports Syscall begin

text \<open>
  The processor (\<^verbatim>\<open>src/cpu.c\<close>, \<open>run\<close> and \<open>calc\<close>) and the isolation of processes.  \<open>run\<close> executes one
  instruction of a process on the \<open>kernel\<close> state; what the instruction prints is part of the result.

  \<open>kernel_inv\<close> says that every process with a memory descriptor satisfies \<open>proc_inv\<close> against the frames
  of all the others.  The main property: an instruction that stays inside the memory of its process
  keeps \<open>kernel_inv\<close>, leaves the other control blocks alone and changes no byte of their frames.
\<close>

section \<open>Executing an instruction\<close>

datatype run_out = NoOut | MemOut mem_log | SysOut sc_out

definition calc :: "pcb_ref \<Rightarrow> int" where
  "calc proc = sint ((word_of_nat proc :: 64 word) AND 0)"

text \<open>
  \<open>ins\<close> is a copy of the instruction: what \<open>libread\<close> stores through \<open>&ins.arg_2\<close> is lost.  Data to
  write is cut to a byte.
\<close>

definition exec_ins :: "bool \<Rightarrow> pcb_ref \<Rightarrow> inst_t \<Rightarrow> kernel \<Rightarrow> (int \<times> run_out \<times> kernel) res" where
  "exec_ins zeroed proc ins k =
    (case opcode ins of
       CALC \<Rightarrow> Inr (calc proc, NoOut, k)
     | ALLOC \<Rightarrow>
         bindR (with_ctx (\<lambda>c. bindR (liballoc zeroed c (arg_0 ins) (arg_1 ins)) (\<lambda>(v, out, c'). Inr ((v, out), c'))) proc k)
           (\<lambda>((v, out), k'). Inr (v, MemOut out, k'))
     | FREE \<Rightarrow>
         bindR (with_ctx (\<lambda>c. bindR (libfree zeroed c (arg_0 ins)) (\<lambda>(v, out, c'). Inr ((v, out), c'))) proc k)
           (\<lambda>((v, out), k'). Inr (v, MemOut out, k'))
     | READ \<Rightarrow>
         bindR (with_ctx (\<lambda>c. bindR (libread zeroed c (arg_0 ins) (arg_1 ins)) (\<lambda>(v, out, _, c'). Inr ((v, out), c'))) proc k)
           (\<lambda>((v, out), k'). Inr (v, MemOut out, k'))
     | WRITE \<Rightarrow>
         bindR (with_ctx (\<lambda>c. bindR (libwrite zeroed c (word_of_int (arg_0 ins)) (arg_1 ins) (arg_2 ins))
             (\<lambda>(v, out, c'). Inr ((v, out), c'))) proc k)
           (\<lambda>((v, out), k'). Inr (v, MemOut out, k'))
     | SYSCALL \<Rightarrow>
         bindR (libsyscall zeroed proc (arg_0 ins) (arg_1 ins) (arg_2 ins) (arg_3 ins) k)
           (\<lambda>(v, out, k'). Inr (v, SysOut out, k')))"

text \<open>The text has \<open>size\<close> cells; the model keeps its real length.\<close>

definition run :: "bool \<Rightarrow> pcb_ref \<Rightarrow> kernel \<Rightarrow> (int \<times> run_out \<times> kernel) res" where
  "run zeroed proc k =
    bindR (deref (k_pcbs k) proc) (\<lambda>b.
      if c_size (code b) \<le> pc b then Inr (1, NoOut, k)
      else if pc b < length (c_text (code b)) then
        exec_ins zeroed proc (c_text (code b) ! pc b)
          (k\<lparr>k_pcbs := (k_pcbs k)(proc \<mapsto> b\<lparr>pc := pc b + 1\<rparr>)\<rparr>)
      else Inl OutOfBounds)"

section \<open>The memory operations keep the invariant of a process\<close>

lemma alloc_rg_any:
  assumes inv: "proc_inv others c" and sz: "0 < sz" and fits: "heap_end (v_mm c) + grow sz \<le> 4194304"
    and a: "alloc_rg z c 0 rgid sz = Inr (st, addr, c')"
  shows "proc_inv others c' \<and> same_dev c c' \<and> storage (v_mram c') = storage (v_mram c)"
proof -
  have h: "heap_inv (v_mm c)" using inv by (simp add: proc_inv_def)
  then have len: "length (symrgtbl (v_mm c)) = 30" by (simp add: heap_inv_def)
  from h obtain v where v: "mmap (v_mm c) = Node v Null" by (rule heap_invE)
  note g = get_free_vmrg_area_heap [OF h v]
  show ?thesis
  proof (cases "carve (vm_freerg_list v) sz")
    case (Inl e)
    with a show ?thesis by (simp add: alloc_rg_def g)
  next
    case (Inr r)
    show ?thesis
    proof (cases r)
      case None
      obtain ret c1 where i: "inc_vma_limit z c 0 sz = Inr (ret, c1)" "proc_inv others c1" "same_dev c c1"
        "storage (v_mram c1) = storage (v_mram c)"
        using inc_vma_limit_inv [OF inv _ _ fits, of 0 z] sz by auto
      have s: "sz < 2147483648" using grow_bounds [of sz] fits h by (auto elim!: heap_invE)
      have "0 \<le> rgid \<and> rgid < 30"
      proof (rule ccontr)
        assume "\<not> (0 \<le> rgid \<and> rgid < 30)"
        moreover have "length (symrgtbl (v_mm c1)) = 30" using i(2) by (simp add: proc_inv_def heap_inv_def)
        ultimately have "load_symrg (v_mm c1) rgid = Inl OutOfBounds" by (auto simp: load_symrg_def)
        with a i(1) Inr None show False
          using get_vma_by_num_heap [OF h, of 0] sys_memmap_inc [of sz z c] sz s
          by (simp add: alloc_rg_def g alloc_extend_def v Let_def)
      qed
      with alloc_rg_extends [OF inv v _ _ _ sz fits i(1), of rgid] Inr None a i show ?thesis by auto
    next
      case (Some p)
      obtain rg rest where p: "p = (rg, rest)" by (cases p)
      let ?m = "(v_mm c)\<lparr>mmap := Node (v\<lparr>vm_freerg_list := rest\<rparr>) Null\<rparr>"
      have "proc_inv others (c\<lparr>v_mm := v_mm c\<rparr>)" using inv by simp
      from proc_inv_freerg [OF this v] have "proc_inv others (c\<lparr>v_mm := ?m\<rparr>)" .
      with a Inr Some p len show ?thesis
        using proc_inv_symrg [where c = c and m = ?m and others = others]
        by (auto simp: alloc_rg_def g store_symrg_def split: if_splits)
    qed
  qed
qed

lemma free_rg_any:
  assumes inv: "proc_inv others c" and f: "free_rg z c 0 rgid = Inr (st, c')"
  shows "proc_inv others c' \<and> same_dev c c' \<and> v_mram c' = v_mram c"
proof -
  have h: "heap_inv (v_mm c)" using inv by (simp add: proc_inv_def)
  then obtain v where v: "mmap (v_mm c) = Node v Null" by (rule heap_invE)
  show ?thesis
  proof (cases "rgid < 0 \<or> 30 < rgid")
    case True
    with f inv show ?thesis by (simp add: free_rg_def PAGING_MAX_SYMTBL_SZ_def)
  next
    case False
    with f obtain r where r: "load_symrg (v_mm c) rgid = Inr r"
      by (auto simp: free_rg_def PAGING_MAX_SYMTBL_SZ_def bindR_eq_Inr)
    show ?thesis
    proof (cases "rg_start r < rg_end r")
      case True
      with free_rg_heap [OF inv v r, of z] f show ?thesis by auto
    next
      case le: False
      with f False r v inv show ?thesis
        by (simp add: free_rg_def PAGING_MAX_SYMTBL_SZ_def enlist_vm_freerg_list_def)
    qed
  qed
qed

text \<open>An access is inside the memory of the process when its page is online.\<close>

definition access_online :: "vmctx \<Rightarrow> int \<Rightarrow> int \<Rightarrow> bool" where
  "access_online c rgid off \<longleftrightarrow> 0 \<le> rgid \<and> rgid < 30 \<and>
     online (v_mm c) (PAGING_PGN (region_addr (symrgtbl (v_mm c) ! nat rgid) off))"

lemma write_rg_any:
  assumes inv: "proc_inv others c" and on: "access_online c rgid off"
    and w: "write_rg z c 0 rgid off b = Inr (st, c')"
  shows "proc_inv others c' \<and> same_dev c c' \<and>
    (\<forall>a. a div 256 \<in> others \<longrightarrow> storage (v_mram c') a = storage (v_mram c) a)"
proof -
  let ?a = "region_addr (symrgtbl (v_mm c) ! nat rgid) off"
  have o: "0 \<le> rgid" "rgid < 30" "online (v_mm c) (PAGING_PGN ?a)" using on by (simp_all add: access_online_def)
  have c': "c' = c\<lparr>v_mram := (v_mram c)\<lparr>storage := (storage (v_mram c))(phys (v_mm c) ?a := b)\<rparr>\<rparr>"
    using write_read_rg_online(1) [OF inv o, of z b] w by simp
  have ci: "ctx_inv others {} c" using inv by (simp add: proc_inv_def)
  have "frame_of (v_mm c) (PAGING_PGN ?a) \<in> mapped (v_mm c)" using o(3) by (simp add: mapped_def)
  then have "phys (v_mm c) ?a div 256 \<notin> others"
    using ci phys_in_frame(1) [OF ci o(3)] by (auto simp: frames_inv_def)
  then show ?thesis using proc_inv_store [OF inv] by (auto simp: c' same_dev_def)
qed

lemma read_rg_any:
  assumes "proc_inv others c" and "access_online c rgid off" and "read_rg z c 0 rgid off = Inr (v, d, c')"
  shows "c' = c"
  using write_read_rg_online(2) [of others c rgid off z] assms by (simp add: access_online_def Let_def)

section \<open>The invariant of the whole memory\<close>

text \<open>The frames of a process, and those of all other processes.\<close>

definition pmapped :: "pcbs \<Rightarrow> pcb_ref \<Rightarrow> int set" where
  "pmapped h q = (case h q of None \<Rightarrow> {} | Some b \<Rightarrow> (case mm b of None \<Rightarrow> {} | Some m \<Rightarrow> mapped m))"

definition others_of :: "pcbs \<Rightarrow> pcb_ref \<Rightarrow> int set" where
  "others_of h p = (\<Union>q\<in>-{p}. pmapped h q)"

definition kernel_inv :: "kernel \<Rightarrow> bool" where
  "kernel_inv k \<longleftrightarrow> (\<forall>p b m. k_pcbs k p = Some b \<longrightarrow> mm b = Some m \<longrightarrow>
     proc_inv (others_of (k_pcbs k) p) (ctx_of k b m))"

lemma kernel_invD: "kernel_inv k \<Longrightarrow> k_pcbs k p = Some b \<Longrightarrow> mm b = Some m \<Longrightarrow>
    proc_inv (others_of (k_pcbs k) p) (ctx_of k b m)"
  by (simp add: kernel_inv_def)

text \<open>
  When one process has taken a step that keeps its own invariant against the others, the invariants
  of the others follow.
\<close>

lemma kernel_inv_step:
  assumes inv: "kernel_inv k" and p: "k_pcbs k p = Some b" "mm b = Some m"
    and c: "proc_inv (others_of (k_pcbs k) p) c" "same_dev (ctx_of k b m) c"
  shows "kernel_inv (put_ctx k p b c)"
  unfolding kernel_inv_def
proof (intro allI impI)
  let ?k = "put_ctx k p b c"
  fix q bq mq
  assume q: "k_pcbs ?k q = Some bq" "mm bq = Some mq"
  have os: "others_of (k_pcbs ?k) p = others_of (k_pcbs k) p"
    by (simp add: others_of_def pmapped_def put_ctx_def)
  show "proc_inv (others_of (k_pcbs ?k) q) (ctx_of ?k bq mq)"
  proof (cases "q = p")
    case True
    with q have "bq = b\<lparr>mm := Some (v_mm c)\<rparr>" "mq = v_mm c" by (auto simp: put_ctx_def)
    then have "ctx_of ?k bq mq = c" using c(2) by (cases c) (simp add: ctx_of_def put_ctx_def same_dev_def)
    with c(1) os True show ?thesis by simp
  next
    case False
    with q have q0: "k_pcbs k q = Some bq" by (simp add: put_ctx_def)
    have iq: "proc_inv (others_of (k_pcbs k) q) (ctx_of k bq mq)" using inv q0 q(2) by (rule kernel_invD)
    have mq: "mapped mq \<subseteq> others_of (k_pcbs k) p"
      using False q0 q(2) by (auto simp: others_of_def pmapped_def)
    have oq: "others_of (k_pcbs ?k) q \<subseteq> (others_of (k_pcbs k) q \<inter> others_of (k_pcbs k) p) \<union> mapped (v_mm c)"
    proof
      fix f assume "f \<in> others_of (k_pcbs ?k) q"
      then obtain r where r: "r \<noteq> q" "f \<in> pmapped (k_pcbs ?k) r" by (auto simp: others_of_def)
      show "f \<in> (others_of (k_pcbs k) q \<inter> others_of (k_pcbs k) p) \<union> mapped (v_mm c)"
      proof (cases "r = p")
        case True
        with r(2) show ?thesis by (simp add: pmapped_def put_ctx_def)
      next
        case rp: False
        with r(2) have "f \<in> pmapped (k_pcbs k) r" by (simp add: pmapped_def put_ctx_def)
        with r(1) rp show ?thesis unfolding others_of_def by blast
      qed
    qed
    have rf: "real_frames (v_mram c) = real_frames (k_mram k)"
      using c(2) by (simp add: real_frames_def same_dev_def ctx_of_def)
    have ci: "ctx_inv (others_of (k_pcbs k) p) {} c" using c(1) by (simp add: proc_inv_def)
    have ciq: "frames_inv (others_of (k_pcbs k) q) {} mq (k_mram k)"
      using iq by (simp add: proc_inv_def ctx_of_def)
    have d: "others_of (k_pcbs k) q \<inter> mapped mq = {}" "others_of (k_pcbs k) p \<inter> mapped (v_mm c) = {}"
      "others_of (k_pcbs k) p \<inter> set (free_frames (v_mram c)) = {}"
      "mapped (v_mm c) \<inter> set (free_frames (v_mram c)) = {}"
      using ciq ci by (auto simp: frames_inv_def)
    from oq mq d have "others_of (k_pcbs ?k) q \<inter> (mapped mq \<union> set (free_frames (v_mram c))) = {}"
      by blast
    moreover have "mapped mq \<inter> set (free_frames (v_mram c)) = {}"
      using mq d(3) by blast
    ultimately have "frames_inv (others_of (k_pcbs ?k) q) {} mq (v_mram c)"
      using ci ciq rf unfolding frames_inv_def by simp
    then show ?thesis
      using iq c(1) by (simp add: proc_inv_def ctx_of_def put_ctx_def swaps_ok_def)
  qed
qed

text \<open>An instruction that stays inside the memory of its process.\<close>

definition safe_ins :: "vmctx \<Rightarrow> inst_t \<Rightarrow> bool" where
  "safe_ins c ins =
    (case opcode ins of
       CALC \<Rightarrow> True
     | ALLOC \<Rightarrow> 0 < to_i32 (arg_0 ins) \<and> heap_end (v_mm c) + grow (to_i32 (arg_0 ins)) \<le> 4194304
     | FREE \<Rightarrow> True
     | READ \<Rightarrow> access_online c (to_i32 (arg_0 ins)) (to_i32 (arg_1 ins))
     | WRITE \<Rightarrow> access_online c (to_i32 (arg_1 ins)) (to_i32 (arg_2 ins))
     | SYSCALL \<Rightarrow> arg_0 ins \<noteq> 17 \<and> arg_0 ins \<noteq> 101)"

text \<open>Every memory instruction is the step of one process on its own context.\<close>

lemma exec_ins_ctx:
  assumes p: "k_pcbs k p = Some b" "mm b = Some m"
    and inv: "proc_inv others (ctx_of k b m)" and safe: "safe_ins (ctx_of k b m) ins"
    and e: "exec_ins z p ins k = Inr (st, out, k')"
  shows "k' = k \<or> (\<exists>c. k' = put_ctx k p b c \<and> proc_inv others c \<and> same_dev (ctx_of k b m) c \<and>
    (\<forall>a. a div 256 \<in> others \<longrightarrow> storage (v_mram c) a = storage (k_mram k) a))"
proof -
  let ?c = "ctx_of k b m"
  have ram: "storage (v_mram ?c) = storage (k_mram k)" by (simp add: ctx_of_def)
  note w = with_ctx_live [OF p]
  show ?thesis
  proof (cases "opcode ins")
    case CALC
    with e show ?thesis by (simp add: exec_ins_def)
  next
    case ALLOC
    with e obtain v lg c where r: "liballoc z ?c (arg_0 ins) (arg_1 ins) = Inr (v, lg, c)" "k' = put_ctx k p b c"
      by (auto simp: exec_ins_def w bindR_eq_Inr)
    then obtain a where "alloc_rg z ?c 0 (to_i32 (arg_1 ins)) (to_i32 (arg_0 ins)) = Inr (v, a, c)"
      by (auto simp: liballoc_def bindR_eq_Inr)
    with alloc_rg_any [OF inv _ _ this] safe ALLOC r(2) ram show ?thesis by (auto simp: safe_ins_def)
  next
    case FREE
    with e obtain v lg c where r: "libfree z ?c (arg_0 ins) = Inr (v, lg, c)" "k' = put_ctx k p b c"
      by (auto simp: exec_ins_def w bindR_eq_Inr)
    then have "free_rg z ?c 0 (to_i32 (arg_0 ins)) = Inr (v, c)" by (auto simp: libfree_def bindR_eq_Inr)
    with free_rg_any [OF inv this] r(2) ram show ?thesis by auto
  next
    case READ
    with e obtain v lg d c where r: "libread z ?c (arg_0 ins) (arg_1 ins) = Inr (v, lg, d, c)" "k' = put_ctx k p b c"
      by (auto simp: exec_ins_def w bindR_eq_Inr)
    then obtain v' d' where "read_rg z ?c 0 (to_i32 (arg_0 ins)) (to_i32 (arg_1 ins)) = Inr (v', d', c)"
      by (auto simp: libread_def bindR_eq_Inr split: option.splits)
    with read_rg_any [OF inv _ this] safe READ r(2) inv ram show ?thesis
      by (auto simp: safe_ins_def)
  next
    case WRITE
    with e obtain v lg c where r: "libwrite z ?c (word_of_int (arg_0 ins)) (arg_1 ins) (arg_2 ins) = Inr (v, lg, c)"
      "k' = put_ctx k p b c" by (auto simp: exec_ins_def w bindR_eq_Inr)
    then have "write_rg z ?c 0 (to_i32 (arg_1 ins)) (to_i32 (arg_2 ins)) (word_of_int (arg_0 ins)) = Inr (v, c)"
      by (auto simp: libwrite_def bindR_eq_Inr)
    with write_rg_any [OF inv _ this] safe WRITE r(2) ram show ?thesis by (auto simp: safe_ins_def)
  next
    case SYSCALL
    with e safe show ?thesis
      by (auto simp: exec_ins_def safe_ins_def libsyscall_def syscall_def bindR_eq_Inr sys_listsyscall_def
          sys_xxxhandler_def split: if_splits)
  qed
qed

lemma proc_inv_pc: "ctx_of k (b\<lparr>pc := n\<rparr>) m = ctx_of k b m"
  by (simp add: ctx_of_def)

section \<open>Properties\<close>

text \<open>The instruction a process executes next.\<close>

definition next_ins :: "pcb_t \<Rightarrow> inst_t" where
  "next_ins b = c_text (code b) ! pc b"

lemma run_keeps:
  assumes inv: "kernel_inv k" and p: "k_pcbs k p = Some b" "mm b = Some m"
    and safe: "safe_ins (ctx_of k b m) (next_ins b)" and r: "run z p k = Inr (st, out, k')"
  shows "kernel_inv k' \<and> (\<forall>q. q \<noteq> p \<longrightarrow> k_pcbs k' q = k_pcbs k q) \<and> k_sched k' = k_sched k \<and>
    (\<forall>a. a div 256 \<in> others_of (k_pcbs k) p \<longrightarrow> storage (k_mram k') a = storage (k_mram k) a) \<and>
    (\<exists>b' m'. k_pcbs k' p = Some b' \<and> mm b' = Some m')"
proof (cases "c_size (code b) \<le> pc b")
  case True
  with r p inv show ?thesis by (simp add: run_def deref_Some)
next
  case False
  let ?b = "b\<lparr>pc := pc b + 1\<rparr>"
  let ?k = "k\<lparr>k_pcbs := (k_pcbs k)(p \<mapsto> ?b)\<rparr>"
  from False r p have e: "exec_ins z p (next_ins b) ?k = Inr (st, out, k')"
    by (auto simp: run_def deref_Some next_ins_def Let_def split: if_splits)
  have pm: "pmapped (k_pcbs ?k) q = pmapped (k_pcbs k) q" for q using p by (simp add: pmapped_def)
  then have os: "others_of (k_pcbs ?k) q = others_of (k_pcbs k) q" for q by (simp add: others_of_def)
  have cx: "ctx_of ?k b' m' = ctx_of k b' m'" for b' m' by (simp add: ctx_of_def)
  have p': "k_pcbs ?k p = Some ?b" "mm ?b = Some m" using p by simp_all
  have inv': "kernel_inv ?k"
    using inv p unfolding kernel_inv_def os cx
    by (auto simp: proc_inv_pc split: if_splits)
  have pi: "proc_inv (others_of (k_pcbs ?k) p) (ctx_of ?k ?b m)" using inv' p' by (rule kernel_invD)
  have "safe_ins (ctx_of ?k ?b m) (next_ins b)" using safe unfolding cx proc_inv_pc .
  from exec_ins_ctx [OF p' pi this e] show ?thesis
  proof
    assume "k' = ?k"
    with inv' p show ?thesis by simp
  next
    assume "\<exists>c. k' = put_ctx ?k p ?b c \<and> proc_inv (others_of (k_pcbs ?k) p) c \<and> same_dev (ctx_of ?k ?b m) c \<and>
      (\<forall>a. a div 256 \<in> others_of (k_pcbs ?k) p \<longrightarrow> storage (v_mram c) a = storage (k_mram ?k) a)"
    then obtain c where c: "k' = put_ctx ?k p ?b c" "proc_inv (others_of (k_pcbs ?k) p) c"
      "same_dev (ctx_of ?k ?b m) c"
      "\<forall>a. a div 256 \<in> others_of (k_pcbs ?k) p \<longrightarrow> storage (v_mram c) a = storage (k_mram ?k) a" by blast
    from kernel_inv_step [OF inv' p' c(2,3)] c(1,4) show ?thesis unfolding os by (simp add: put_ctx_def)
  qed
qed

text \<open>C8: isolation of processes: an instruction that stays inside the memory of its process (its pages
  are online, the heap it asks for fits the bus, it is not system call 17 or 101) keeps the ownership
  of frames for every process of the machine, changes no control block but its own, and changes no
  byte of a frame of another process.\<close>

theorem run_isolates:
  assumes inv: "kernel_inv k" and p: "k_pcbs k p = Some b" "mm b = Some m"
    and safe: "safe_ins (ctx_of k b m) (next_ins b)" and r: "run z p k = Inr (st, out, k')"
  shows "kernel_inv k' \<and> (\<forall>q. q \<noteq> p \<longrightarrow> k_pcbs k' q = k_pcbs k q) \<and> k_sched k' = k_sched k \<and>
    (\<forall>a. a div 256 \<in> others_of (k_pcbs k) p \<longrightarrow> storage (k_mram k') a = storage (k_mram k) a)"
  using run_keeps [OF assms] by blast

text \<open>Two processes, each with one page on a frame of its own.\<close>

definition demo_pcb :: "int \<Rightarrow> pcb_t" where
  "demo_pcb f = sample_pcb\<lparr>mm := Some ((v_mm page_ctx)\<lparr>pgd := (\<lambda>_. 0)(0 := pte_set_fpn 0 f)\<rparr>),
     code := \<lparr>c_text = [\<lparr>opcode = WRITE, arg_0 = 100, arg_1 = 4, arg_2 = 20, arg_3 = 0\<rparr>], c_size = 1\<rparr>\<rparr>"

definition demo :: kernel where
  "demo = \<lparr>k_sched = zero_sched, k_pcbs = [7 \<mapsto> demo_pcb 2, 5 \<mapsto> demo_pcb 3], k_mram = idle_ram [0, 1],
     k_mswp = replicate 4 (idle_ram [0])\<rparr>"

lemma swaps_ok_cong: "v_mswp c = v_mswp c' \<Longrightarrow> v_active c = v_active c' \<Longrightarrow> swaps_ok c = swaps_ok c'"
  by (simp add: swaps_ok_def)

lemma one_page_online:
  "online ((v_mm page_ctx)\<lparr>pgd := (\<lambda>_. 0)(0 := pte_set_fpn 0 f)\<rparr>) p \<longleftrightarrow> p = 0"
proof -
  have "\<not> PAGING_PAGE_PRESENT 0" by (simp add: PAGING_PAGE_PRESENT_def)
  then show ?thesis by (simp add: online_def)
qed

lemma one_page_inv:
  assumes "f \<in> {2, 3}" and "f \<notin> others" and "others \<inter> {0, 1} = {}"
  shows "proc_inv others (ctx_of demo (demo_pcb g) ((v_mm page_ctx)\<lparr>pgd := (\<lambda>_. 0)(0 := pte_set_fpn 0 f)\<rparr>))"
    (is "proc_inv others (ctx_of _ _ ?m)")
proof -
  have m: "mapped ?m = {f}" using assms(1) by (auto simp: mapped_def one_page_online frame_of_def)
  have "proc_inv {} page_ctx" by (rule page_ctx_inv) auto
  then have "fifo_inv ?m" "heap_inv ?m"
    by (auto simp: proc_inv_def frames_inv_def fifo_inv_def one_page_online page_ctx_online heap_inv_def)
  moreover have "swaps_ok (ctx_of demo (demo_pcb g) ?m)"
  proof -
    have "v_mswp (ctx_of demo (demo_pcb g) ?m) = v_mswp (idle_ctx [0])"
      "v_active (ctx_of demo (demo_pcb g) ?m) = v_active (idle_ctx [0])"
      by (simp_all add: ctx_of_def demo_def idle_ctx_def demo_pcb_def sample_pcb_def)
    with idle_ctx_swaps [of "[0]"] show ?thesis using swaps_ok_cong by metis
  qed
  ultimately show ?thesis using assms
    by (auto simp: proc_inv_def frames_inv_def ram_inv_def m real_frames_def one_page_online ctx_of_def demo_def)
qed

lemma demo_others: "others_of (k_pcbs demo) 7 = {3}" "others_of (k_pcbs demo) 5 = {2}"
proof -
  have pm: "pmapped (k_pcbs demo) q = (if q = 7 then {2} else if q = 5 then {3} else {})" for q
    by (auto simp: pmapped_def demo_def demo_pcb_def mapped_def one_page_online frame_of_def)
  show "others_of (k_pcbs demo) 7 = {3}" "others_of (k_pcbs demo) 5 = {2}"
    by (auto simp: others_of_def pm split: if_splits)
qed

lemma demo_inv: "kernel_inv demo"
  unfolding kernel_inv_def
proof (intro allI impI)
  fix p b m assume "k_pcbs demo p = Some b" "mm b = Some m"
  then consider "p = 7" "b = demo_pcb 2" "m = (v_mm page_ctx)\<lparr>pgd := (\<lambda>_. 0)(0 := pte_set_fpn 0 2)\<rparr>"
    | "p = 5" "b = demo_pcb 3" "m = (v_mm page_ctx)\<lparr>pgd := (\<lambda>_. 0)(0 := pte_set_fpn 0 3)\<rparr>"
    by (auto simp: demo_def demo_pcb_def split: if_splits)
  then show "proc_inv (others_of (k_pcbs demo) p) (ctx_of demo b m)"
    using one_page_inv [of 2 "{3}" 2] one_page_inv [of 3 "{2}" 3] by cases (simp_all add: demo_others)
qed

theorem run_isolates_witness:
  "\<exists>st out k'. run False 7 demo = Inr (st, out, k') \<and> kernel_inv k' \<and>
     (\<forall>a. a div 256 = 3 \<longrightarrow> storage (k_mram k') a = storage (k_mram demo) a)"
proof -
  let ?m = "(v_mm page_ctx)\<lparr>pgd := (\<lambda>_. 0)(0 := pte_set_fpn 0 2)\<rparr>"
  let ?c = "ctx_of demo (demo_pcb 2) ?m"
  have p: "k_pcbs demo 7 = Some (demo_pcb 2)" "mm (demo_pcb 2) = Some ?m"
    by (simp_all add: demo_def demo_pcb_def)
  have "symrgtbl ?m ! 4 = \<lparr>rg_start = 0, rg_end = 200\<rparr>" by (simp add: page_ctx_def nth_replicate)
  then have a: "region_addr (symrgtbl ?m ! 4) 20 = 20" by (simp add: region_addr_def to_u64_id to_i32_id)
  have n: "next_ins (demo_pcb 2) = \<lparr>opcode = WRITE, arg_0 = 100, arg_1 = 4, arg_2 = 20, arg_3 = 0\<rparr>"
    by (simp add: next_ins_def demo_pcb_def sample_pcb_def)
  have on: "access_online ?c 4 20"
    using a one_page_online [of 2 0] by (simp add: access_online_def ctx_of_def PAGING_PGN_eq)
  then have safe: "safe_ins ?c (next_ins (demo_pcb 2))" by (simp add: safe_ins_def n to_i32_id)
  have pi: "proc_inv {3} ?c" using demo_inv p kernel_invD [of demo 7] demo_others(1) by simp
  obtain c' where w: "write_rg False ?c 0 4 20 100 = Inr (0, c')" "proc_inv {3} c'"
    using write_read_rg_online(1) [OF pi, of 4 20 False 100] on proc_inv_store [OF pi]
    by (auto simp: access_online_def)
  obtain lg where "report True c' = Inr lg" using report_heap w(2) by (auto simp: proc_inv_def)
  with w(1) have lw: "libwrite False ?c 100 4 20 = Inr (0, lg, c')" by (simp add: libwrite_def to_i32_id)
  have "\<exists>k'. run False 7 demo = Inr (0, MemOut lg, k')"
  proof -
    let ?k = "demo\<lparr>k_pcbs := (k_pcbs demo)(7 \<mapsto> (demo_pcb 2)\<lparr>pc := Suc 0\<rparr>)\<rparr>"
    have "with_ctx f 7 ?k = bindR (f ?c) (\<lambda>(x, c). Inr (x, put_ctx ?k 7 ((demo_pcb 2)\<lparr>pc := Suc 0\<rparr>) c))" for f :: "vmctx \<Rightarrow> ((int \<times> mem_log) \<times> vmctx) res"
      using with_ctx_live [of ?k 7 "(demo_pcb 2)\<lparr>pc := Suc 0\<rparr>" ?m f] p(2) by (simp add: ctx_of_def demo_def demo_pcb_def)
    moreover have "pc (demo_pcb 2) = 0" "c_size (code (demo_pcb 2)) = 1" "length (c_text (code (demo_pcb 2))) = 1"
      by (simp_all add: demo_pcb_def sample_pcb_def)
    moreover have "c_text (code (demo_pcb 2)) ! 0 = \<lparr>opcode = WRITE, arg_0 = 100, arg_1 = 4, arg_2 = 20, arg_3 = 0\<rparr>"
      by (simp add: demo_pcb_def)
    ultimately show ?thesis using lw p(1) by (simp add: run_def deref_Some exec_ins_def)
  qed
  with run_isolates [OF demo_inv p safe, of False 0 "MemOut lg"] demo_others(1) show ?thesis by auto
qed

text \<open>Every instruction except a system call changes no register, no code and no scheduler state: the
  control block of the process gets the next program counter and its memory descriptor, all other
  blocks stay.  In particular the byte a READ fetches is not delivered anywhere.\<close>

theorem run_changes_only_pc_and_mm:
  assumes "k_pcbs k p = Some b" and "pc b < c_size (code b)" and "opcode (next_ins b) \<noteq> SYSCALL"
    and "run z p k = Inr (st, out, k')"
  shows "\<exists>m. k_pcbs k' = (k_pcbs k)(p \<mapsto> b\<lparr>pc := pc b + 1, mm := m\<rparr>) \<and> k_sched k' = k_sched k"
proof -
  let ?b = "b\<lparr>pc := pc b + 1\<rparr>"
  let ?k = "k\<lparr>k_pcbs := (k_pcbs k)(p \<mapsto> ?b)\<rparr>"
  have e: "exec_ins z p (next_ins b) ?k = Inr (st, out, k')"
    using assms by (auto simp: run_def deref_Some next_ins_def Let_def split: if_splits)
  have w: "\<exists>m. k_pcbs k'' = (k_pcbs k)(p \<mapsto> b\<lparr>pc := pc b + 1, mm := m\<rparr>) \<and> k_sched k'' = k_sched k"
    if "with_ctx f p ?k = Inr (x, k'')" for f and x :: "int \<times> mem_log" and k''
    using that by (auto simp: with_ctx_def bindR_eq_Inr put_ctx_def split: option.splits)
  have c: "\<exists>m. k_pcbs ?k = (k_pcbs k)(p \<mapsto> b\<lparr>pc := pc b + 1, mm := m\<rparr>) \<and> k_sched ?k = k_sched k"
    by (rule exI [of _ "mm b"]) simp
  show ?thesis
  proof (cases "opcode (next_ins b)")
    case CALC
    with e c show ?thesis by (simp add: exec_ins_def)
  qed (use e w assms(3) in \<open>auto simp: exec_ins_def bindR_eq_Inr\<close>)
qed

definition calc_pcb :: pcb_t where
  "calc_pcb = sample_pcb\<lparr>code :=
     \<lparr>c_text = [\<lparr>opcode = CALC, arg_0 = 0, arg_1 = 0, arg_2 = 0, arg_3 = 0\<rparr>], c_size = 1\<rparr>\<rparr>"

theorem run_changes_only_pc_and_mm_witness:
  "\<exists>k' m. run False 3 (one_proc\<lparr>k_pcbs := [3 \<mapsto> calc_pcb]\<rparr>) = Inr (0, NoOut, k') \<and>
     k_pcbs k' = [3 \<mapsto> calc_pcb\<lparr>pc := 1, mm := m\<rparr>] \<and> k_sched k' = zero_sched"
proof -
  let ?k = "one_proc\<lparr>k_pcbs := [3 \<mapsto> calc_pcb]\<rparr>"
  have b: "pc calc_pcb = 0" "c_size (code calc_pcb) = 1"
    "c_text (code calc_pcb) = [\<lparr>opcode = CALC, arg_0 = 0, arg_1 = 0, arg_2 = 0, arg_3 = 0\<rparr>]"
    by (simp_all add: calc_pcb_def sample_pcb_def)
  have r: "run False 3 ?k = Inr (0, NoOut, ?k\<lparr>k_pcbs := [3 \<mapsto> calc_pcb\<lparr>pc := 1\<rparr>]\<rparr>)"
    using b by (simp add: run_def deref_Some exec_ins_def calc_def)
  have "\<exists>m. k_pcbs (?k\<lparr>k_pcbs := [3 \<mapsto> calc_pcb\<lparr>pc := 1\<rparr>]\<rparr>) =
      (k_pcbs ?k)(3 \<mapsto> calc_pcb\<lparr>pc := pc calc_pcb + 1, mm := m\<rparr>) \<and>
      k_sched (?k\<lparr>k_pcbs := [3 \<mapsto> calc_pcb\<lparr>pc := 1\<rparr>]\<rparr>) = k_sched ?k"
    by (rule run_changes_only_pc_and_mm [OF _ _ _ r]) (simp_all add: b next_ins_def)
  then obtain m where "[(3::nat) \<mapsto> calc_pcb\<lparr>pc := 1\<rparr>] = [3 \<mapsto> calc_pcb\<lparr>pc := 1, mm := m\<rparr>]"
    by (auto simp: b)
  with r show ?thesis by (intro exI) (auto simp: one_proc_def)
qed

end
