(* ===== verification/Os.thy ===== *)
theory Os imports Timer Loader Cpu begin

text \<open>
  The machine of \<^verbatim>\<open>src/os.c\<close>: the configuration file, the start of the system, the threads of the
  processors (\<open>cpu_routine\<close>) and of the loader (\<open>ld_routine\<close>), and their interleaving with the timer.

  A step of a thread is one access to shared state: one scheduler call, one instruction of a process,
  one \<open>next_slot\<close>.  The processor's place in its loop is its \<open>cpu_pc\<close>, so that between any two
  accesses every other thread may run.  A thread steps only while its timer device is \<open>Running\<close>.

  The lemmas carry an invariant over all interleavings: every process has at most one holder, and
  a processor that has just put a process back may still read it, because the barrier of the timer
  keeps any other processor from freeing it in the same slot.
\<close>

section \<open>Configuration\<close>

record ld_args =
  l_path :: string
  l_start :: int
  l_prio :: int

record config =
  time_slot :: int
  num_cpus :: nat
  memramsz :: int
  memswpsz :: "int list"
  ld_processes :: "ld_args list"

text \<open>\<open>%d\<close> into an \<open>int\<close> and \<open>%lu\<close>, which negates in the unsigned type.\<close>

definition conv_int :: "int \<Rightarrow> int" where
  "conv_int v = to_i32 (max (-9223372036854775808) (min 9223372036854775807 v))"

definition conv_lu :: "int \<Rightarrow> int" where
  "conv_lu v = (if \<bar>v\<bar> > 18446744073709551615 then 18446744073709551615 else to_u64 v)"

text \<open>
  One line of the process table.  The arrays come from \<open>malloc\<close>, the name buffer from the stack: what
  \<open>scanf\<close> does not convert is read uninitialised.  The name and the path have 100 cells each.
\<close>

definition read_proc :: "string \<Rightarrow> (ld_args \<times> string) res" where
  "read_proc s =
    (case scan_num s of
       None \<Rightarrow> Inl UninitRead
     | Some (start, s1) \<Rightarrow>
         (case scan_word s1 of
            None \<Rightarrow> Inl UninitRead
          | Some (name, s2) \<Rightarrow>
              if 100 \<le> length name \<or> 100 \<le> length (''input/proc/'' @ name) then Inl OutOfBounds
              else
                (case scan_num s2 of
                   None \<Rightarrow> Inl UninitRead
                 | Some (pr, s3) \<Rightarrow>
                     Inr (\<lparr>l_path = ''input/proc/'' @ name, l_start = conv_lu start, l_prio = conv_lu pr\<rparr>,
                       skip_ws s3))))"

fun read_procs :: "nat \<Rightarrow> string \<Rightarrow> ld_args list res" where
  "read_procs 0 s = Inr []"
| "read_procs (Suc n) s =
    bindR (read_proc s) (\<lambda>(a, s'). bindR (read_procs n s') (\<lambda>as. Inr (a # as)))"

text \<open>
  The memory line: five numbers on the second line of the file, otherwise the defaults and the file
  position goes back.  The statics are zero when the file has ended.
\<close>

definition read_memory :: "string \<Rightarrow> int \<times> int list \<times> string" where
  "read_memory s =
    (case fgets 256 s of
       None \<Rightarrow> (0, [0, 0, 0, 0], s)
     | Some (buffer, s') \<Rightarrow>
         (case fst (scan_nums conv_int 5 buffer) of
            [a, b, c, d, e] \<Rightarrow> (a, [b, c, d, e], skip_ws s')
          | _ \<Rightarrow> (1048576, [16777216, 0, 0, 0], s)))"

text \<open>The three numbers of the first line; \<open>num_processes\<close> sizes the arrays.\<close>

definition read_config :: "string \<Rightarrow> config res" where
  "read_config s =
    (case scan_nums conv_int 3 s of
       (vs, s1) \<Rightarrow>
         let s2 = (if length vs = 3 then skip_ws s1 else s1);
             n = (\<lambda>i. if i < length vs then vs ! i else 0)
         in case read_memory s2 of
              (ram, swp, s3) \<Rightarrow>
                bindR (read_procs (nat (n 2)) s3) (\<lambda>ps.
                  Inr \<lparr>time_slot = n 0, num_cpus = nat (n 1), memramsz = ram, memswpsz = swp,
                       ld_processes = ps\<rparr>))"

text \<open>The path of the configuration file, in a buffer of 100 cells.\<close>

definition config_path :: "string \<Rightarrow> string res" where
  "config_path arg = (if 100 \<le> length (''input/'' @ arg) then Inl OutOfBounds else Inr (''input/'' @ arg))"

section \<open>State of the machine\<close>

text \<open>
  Where a processor is in its loop: at the top; \<open>get_proc\<close> gave nothing; the slots of a finished process
  are charged; a preempted process has been put back; about to call \<open>get_proc\<close> again (after a finished
  process?); about to read the slots of its new process; at the second check; about to run; about to
  call \<open>next_slot\<close>; about to detach; ended.
\<close>

datatype cpu_pc = CTop | CNone | CFree | CCharge | CFetch bool | CGetSlot | CCheck | CRun | CNext | CDetach | CStopped

record cpu_t =
  c_pc :: cpu_pc
  c_proc :: "pcb_ref option"
  c_time_left :: int
  c_use_time :: int
  c_remaining :: int

datatype ld_pc = LLoad nat | LWait nat pcb_ref | LNext nat | LDetach | LEnded

record os_t =
  o_k :: kernel
  o_done :: bool
  o_tm :: timer_t
  o_cpu :: "nat \<Rightarrow> cpu_t"
  o_ld :: ld_pc
  o_pid :: int

text \<open>
  What is fixed while the machine runs: the configuration, the files, and the contents of the memory
  that the \<open>i\<close>-th call of \<open>load\<close> and \<open>init_mm\<close> gets from \<open>malloc\<close>.
\<close>

record os_env =
  e_cfg :: config
  e_file :: "string \<Rightarrow> string option"
  e_zeroed :: bool
  e_pcb0 :: "nat \<Rightarrow> pcb_t"
  e_text0 :: "nat \<Rightarrow> nat \<Rightarrow> inst_t"
  e_pgd0 :: "nat \<Rightarrow> int \<Rightarrow> u32"
  e_mm0 :: "nat \<Rightarrow> mm_struct"

definition set_cpu :: "nat \<Rightarrow> cpu_t \<Rightarrow> os_t \<Rightarrow> os_t" where
  "set_cpu i c s = s\<lparr>o_cpu := (o_cpu s)(i := c)\<rparr>"

definition set_sched :: "sched_t \<Rightarrow> os_t \<Rightarrow> os_t" where
  "set_sched sc s = s\<lparr>o_k := (o_k s)\<lparr>k_sched := sc\<rparr>\<rparr>"

definition set_pcbs :: "pcbs \<Rightarrow> os_t \<Rightarrow> os_t" where
  "set_pcbs h s = s\<lparr>o_k := (o_k s)\<lparr>k_pcbs := h\<rparr>\<rparr>"

abbreviation o_sched :: "os_t \<Rightarrow> sched_t" where
  "o_sched s \<equiv> k_sched (o_k s)"

abbreviation o_pcbs :: "os_t \<Rightarrow> pcbs" where
  "o_pcbs s \<equiv> k_pcbs (o_k s)"

section \<open>The processor\<close>

text \<open>\<open>None\<close>: the scheduler call does not return.\<close>

definition cpu_fetch :: "nat \<Rightarrow> cpu_t \<Rightarrow> cpu_pc \<Rightarrow> os_t \<Rightarrow> os_t option" where
  "cpu_fetch i c none s =
    (case get_proc (o_sched s) of
       None \<Rightarrow> None
     | Some (r, sc) \<Rightarrow>
         Some (set_cpu i (c\<lparr>c_proc := r, c_pc := (if r = None then none else CGetSlot)\<rparr>) (set_sched sc s)))"

definition the_proc :: "cpu_t \<Rightarrow> os_t \<Rightarrow> (pcb_ref \<times> pcb_t) res" where
  "the_proc c s =
    (case c_proc c of
       None \<Rightarrow> Inl NullDeref
     | Some p \<Rightarrow> bindR (deref (o_pcbs s) p) (\<lambda>b. Inr (p, b)))"

definition cpu_top :: "nat \<Rightarrow> cpu_t \<Rightarrow> os_t \<Rightarrow> os_t res" where
  "cpu_top i c s =
    bindR (the_proc c s) (\<lambda>(p, b).
      if pc b = c_size (code b) then
        bindR (update_slot (prio b) (c_use_time c) (o_sched s)) (\<lambda>sc.
          Inr (set_cpu i (c\<lparr>c_pc := CFree\<rparr>) (set_sched sc s)))
      else if c_time_left c = 0 then
        bindR (put_proc p (o_pcbs s) (o_sched s)) (\<lambda>(h, sc).
          Inr (set_cpu i (c\<lparr>c_pc := CCharge\<rparr>) (set_pcbs h (set_sched sc s))))
      else Inr (set_cpu i (c\<lparr>c_pc := CCheck\<rparr>) s))"

definition cpu_check :: "config \<Rightarrow> nat \<Rightarrow> cpu_t \<Rightarrow> os_t \<Rightarrow> os_t" where
  "cpu_check cfg i c s =
    set_cpu i
      (if c_proc c = None then c\<lparr>c_pc := (if o_done s then CDetach else CNext)\<rparr>
       else if c_time_left c = 0 then
         c\<lparr>c_time_left := (if time_slot cfg < c_remaining c then time_slot cfg else c_remaining c),
           c_use_time := 0, c_pc := CRun\<rparr>
       else c\<lparr>c_pc := CRun\<rparr>) s"

definition cpu_run :: "bool \<Rightarrow> nat \<Rightarrow> cpu_t \<Rightarrow> os_t \<Rightarrow> os_t res" where
  "cpu_run zeroed i c s =
    bindR (the_proc c s) (\<lambda>(p, _).
    bindR (run zeroed p (o_k s)) (\<lambda>(_, _, k').
    bindR (ck_int (c_time_left c - 1)) (\<lambda>tl.
    bindR (ck_int (c_use_time c + 1)) (\<lambda>ut.
      Inr (set_cpu i (c\<lparr>c_time_left := tl, c_use_time := ut, c_pc := CNext\<rparr>) (s\<lparr>o_k := k'\<rparr>))))))"

definition cpu_routine :: "os_env \<Rightarrow> nat \<Rightarrow> os_t \<Rightarrow> os_t res option" where
  "cpu_routine env i s =
    (let c = o_cpu s i in
     case c_pc c of
       CTop \<Rightarrow> (if c_proc c = None then map_option Inr (cpu_fetch i c CNone s) else Some (cpu_top i c s))
     | CNone \<Rightarrow> Some (Inr (set_cpu i (c\<lparr>c_pc := (if o_done s then CDetach else CNext)\<rparr>) s))
     | CFree \<Rightarrow>
         Some (bindR (the_proc c s) (\<lambda>(p, _).
           Inr (set_cpu i (c\<lparr>c_pc := CFetch True\<rparr>) (set_pcbs ((o_pcbs s)(p := None)) s))))
     | CCharge \<Rightarrow>
         Some (bindR (the_proc c s) (\<lambda>(_, b).
           bindR (update_slot (prio b) (c_use_time c) (o_sched s)) (\<lambda>sc.
             Inr (set_cpu i (c\<lparr>c_pc := CFetch False\<rparr>) (set_sched sc s)))))
     | CFetch finished \<Rightarrow>
         map_option Inr
           (cpu_fetch i (if finished then c\<lparr>c_time_left := 0, c_use_time := 0\<rparr> else c) CCheck s)
     | CGetSlot \<Rightarrow>
         Some (bindR (the_proc c s) (\<lambda>(_, b).
           bindR (get_slot (prio b) (o_sched s)) (\<lambda>v.
             Inr (set_cpu i (c\<lparr>c_remaining := v, c_pc := CCheck\<rparr>) s))))
     | CCheck \<Rightarrow> Some (Inr (cpu_check (e_cfg env) i c s))
     | CRun \<Rightarrow> Some (cpu_run (e_zeroed env) i c s)
     | CNext \<Rightarrow> Some (Inr (set_cpu i (c\<lparr>c_pc := CTop\<rparr>) (s\<lparr>o_tm := next_slot_done i (o_tm s)\<rparr>)))
     | CDetach \<Rightarrow> Some (Inr (set_cpu i (c\<lparr>c_pc := CStopped\<rparr>) (s\<lparr>o_tm := detach_event i (o_tm s)\<rparr>)))
     | CStopped \<Rightarrow> None)"

section \<open>The loader thread\<close>

text \<open>Its device is attached last; \<open>p\<close> is the address \<open>malloc\<close> returns for a new control block.\<close>

definition ld_load :: "os_env \<Rightarrow> pcb_ref \<Rightarrow> nat \<Rightarrow> os_t \<Rightarrow> os_t exec res" where
  "ld_load env p i s =
    (let a = ld_processes (e_cfg env) ! i in
     bindR (load (e_pcb0 env i) (e_text0 env i) (o_pid s) (l_path a) (e_file env (l_path a))) (\<lambda>(r, pid').
       case r of
         Exits e \<Rightarrow> Inr (Exits e)
       | Returns b \<Rightarrow>
           Inr (Returns (set_pcbs ((o_pcbs s)(p \<mapsto> b\<lparr>prio := nat (to_u32 (l_prio a))\<rparr>))
             (s\<lparr>o_pid := pid', o_ld := LWait i p\<rparr>)))))"

definition ld_add :: "os_env \<Rightarrow> pcb_ref \<Rightarrow> nat \<Rightarrow> os_t \<Rightarrow> os_t exec res" where
  "ld_add env p i s =
    bindR (deref (o_pcbs s) p) (\<lambda>b.
      let b' = b\<lparr>mm := Some (init_mm (e_zeroed env) (e_pgd0 env i) (e_mm0 env i)), active_mswp := 0\<rparr> in
      bindR (add_proc p ((o_pcbs s)(p \<mapsto> b')) (o_sched s)) (\<lambda>(h, sc).
        Inr (Returns (set_pcbs h (set_sched sc (s\<lparr>o_ld := LNext (i + 1)\<rparr>))))))"

definition ld_routine :: "os_env \<Rightarrow> pcb_ref \<Rightarrow> os_t \<Rightarrow> os_t exec res" where
  "ld_routine env p s =
    (let dev = num_cpus (e_cfg env) in
     case o_ld s of
       LLoad i \<Rightarrow>
         if i < length (ld_processes (e_cfg env)) then ld_load env p i s
         else Inr (Returns (s\<lparr>o_done := True, o_ld := LDetach\<rparr>))
     | LWait i q \<Rightarrow>
         if current_time (o_tm s) < l_start (ld_processes (e_cfg env) ! i)
         then Inr (Returns (s\<lparr>o_tm := next_slot_done dev (o_tm s)\<rparr>))
         else ld_add env q i s
     | LNext i \<Rightarrow> Inr (Returns (s\<lparr>o_tm := next_slot_done dev (o_tm s), o_ld := LLoad i\<rparr>))
     | LDetach \<Rightarrow> Inr (Returns (s\<lparr>o_tm := detach_event dev (o_tm s), o_ld := LEnded\<rparr>))
     | LEnded \<Rightarrow> Inr (Returns s))"

section \<open>The whole system\<close>

text \<open>\<open>main\<close>: the devices are attached, the timer started, the memory and the scheduler initialised.\<close>

fun init_devices :: "bool \<Rightarrow> memphy_struct list \<Rightarrow> int list \<Rightarrow> memphy_struct list res" where
  "init_devices zeroed (mp # mps) (sz # szs) =
    bindR (init_memphy zeroed mp sz 1) (\<lambda>mp'. bindR (init_devices zeroed mps szs) (\<lambda>r. Inr (mp' # r)))"
| "init_devices zeroed _ _ = Inr []"

definition cpu0 :: cpu_t where
  "cpu0 = \<lparr>c_pc = CTop, c_proc = None, c_time_left = 0, c_use_time = 0, c_remaining = 0\<rparr>"

definition main :: "os_env \<Rightarrow> memphy_struct \<Rightarrow> memphy_struct list \<Rightarrow> os_t res" where
  "main env mram0 mswp0 =
    (let cfg = e_cfg env; tm = timer_init (num_cpus cfg + 1) in
     bindR (init_memphy (e_zeroed env) mram0 (memramsz cfg) 1) (\<lambda>mram.
     bindR (init_devices (e_zeroed env) mswp0 (memswpsz cfg)) (\<lambda>mswp.
       Inr \<lparr>o_k = \<lparr>k_sched = init_scheduler zero_sched, k_pcbs = Map.empty, k_mram = mram, k_mswp = mswp\<rparr>,
         o_done = False, o_tm = tm, o_cpu = (\<lambda>_. cpu0), o_ld = LLoad 0, o_pid = 1\<rparr>)))"

definition is_running :: "nat \<Rightarrow> os_t \<Rightarrow> bool" where
  "is_running d s \<longleftrightarrow> t_place (devs (o_tm s) d) = Running"

text \<open>
  \<open>malloc\<close> returns an address that is not in use.  \<open>main\<close> waits for all threads before it stops the timer.
\<close>

inductive os_step :: "os_env \<Rightarrow> os_t \<Rightarrow> os_t \<Rightarrow> bool" for env where
  cpu: "i < num_cpus (e_cfg env) \<Longrightarrow> is_running i s \<Longrightarrow> cpu_routine env i s = Some (Inr s') \<Longrightarrow> os_step env s s'"
| loader: "is_running (num_cpus (e_cfg env)) s \<Longrightarrow> p \<notin> dom (o_pcbs s) \<Longrightarrow>
    ld_routine env p s = Inr (Returns s') \<Longrightarrow> os_step env s s'"
| enter: "d \<le> num_cpus (e_cfg env) \<Longrightarrow> t_place (devs (o_tm s) d) = Blocked \<Longrightarrow>
    next_slot_enter d (o_tm s) = Some t \<Longrightarrow> os_step env s (s\<lparr>o_tm := t\<rparr>)"
| tick: "timer_routine (o_tm s) = Some t \<Longrightarrow> os_step env s (s\<lparr>o_tm := t\<rparr>)"
| stop: "\<forall>d\<le>num_cpus (e_cfg env). t_place (devs (o_tm s) d) = Detached \<Longrightarrow>
    os_step env s (s\<lparr>o_tm := stop_timer_flag (o_tm s)\<rparr>)"

inductive os_reach :: "os_env \<Rightarrow> os_t \<Rightarrow> bool" for env where
  boot: "main env mram0 mswp0 = Inr s \<Longrightarrow> os_reach env s"
| step: "os_reach env s \<Longrightarrow> os_step env s s' \<Longrightarrow> os_reach env s'"

end
