(* ===== verification/Machine.thy ===== *)
theory Machine imports Os begin

text \<open>
  The invariant of the running machine (\<^verbatim>\<open>src/os.c\<close>), over all interleavings of the processors, the
  loader and the timer.

  \<^item> The timer component of a reachable state is a reachable state of the timer.
  \<^item> Ownership: a control block is held by at most one processor or the loader, or waits in one
    queue; whoever holds it may free it.
  \<^item> A processor that has put its process back reads the block once more (\<open>update_slot(proc->prio, ..)\<close>).
    Another processor may hold the process by then, but cannot pass its next slot before the
    first one does, so it cannot have freed the block.
\<close>

section \<open>The timer inside the machine\<close>

lemma os_sel [simp]:
  "o_tm (set_cpu i c s) = o_tm s" "o_k (set_cpu i c s) = o_k s" "o_done (set_cpu i c s) = o_done s"
  "o_ld (set_cpu i c s) = o_ld s" "o_pid (set_cpu i c s) = o_pid s"
  "o_cpu (set_cpu i c s) = (o_cpu s)(i := c)"
  "o_tm (set_sched sc s) = o_tm s" "o_cpu (set_sched sc s) = o_cpu s" "o_done (set_sched sc s) = o_done s"
  "o_ld (set_sched sc s) = o_ld s" "o_sched (set_sched sc s) = sc" "o_pcbs (set_sched sc s) = o_pcbs s"
  "o_tm (set_pcbs h s) = o_tm s" "o_cpu (set_pcbs h s) = o_cpu s" "o_done (set_pcbs h s) = o_done s"
  "o_ld (set_pcbs h s) = o_ld s" "o_pcbs (set_pcbs h s) = h" "o_sched (set_pcbs h s) = o_sched s"
  by (simp_all add: set_cpu_def set_sched_def set_pcbs_def)

lemmas cpu_defs = cpu_routine_def cpu_fetch_def cpu_top_def cpu_check_def cpu_run_def Let_def

lemma cpu_routine_tm:
  assumes "cpu_routine env i s = Some (Inr s')"
  shows "o_tm s' = (case c_pc (o_cpu s i) of CNext \<Rightarrow> next_slot_done i (o_tm s)
    | CDetach \<Rightarrow> detach_event i (o_tm s) | _ \<Rightarrow> o_tm s)"
  using assms
  by (cases "c_pc (o_cpu s i)") (auto simp: cpu_defs bindR_eq_Inr split: if_splits option.splits)

lemma ld_load_Returns:
  assumes "ld_load env p i s = Inr (Returns s')"
  obtains b pid' where "load (e_pcb0 env i) (e_text0 env i) (o_pid s) (l_path (ld_processes (e_cfg env) ! i))
      (e_file env (l_path (ld_processes (e_cfg env) ! i))) = Inr (Returns b, pid')"
    and "s' = set_pcbs ((o_pcbs s)(p \<mapsto> b\<lparr>prio := nat (to_u32 (l_prio (ld_processes (e_cfg env) ! i)))\<rparr>))
      (s\<lparr>o_pid := pid', o_ld := LWait i p\<rparr>)"
proof -
  from assms obtain r pid' where l: "load (e_pcb0 env i) (e_text0 env i) (o_pid s) (l_path (ld_processes (e_cfg env) ! i))
      (e_file env (l_path (ld_processes (e_cfg env) ! i))) = Inr (r, pid')"
    by (auto simp: ld_load_def Let_def bindR_eq_Inr)
  with assms that show thesis by (cases r) (simp_all add: ld_load_def)
qed

lemma ld_add_Returns:
  assumes "ld_add env p i s = Inr (Returns s')"
  obtains b b' where "o_pcbs s p = Some b" and "prio b < MAX_PRIO" and "prio b' = prio b" and "code b' = code b" and "pc b' = pc b"
    and "s' = set_pcbs ((o_pcbs s)(p \<mapsto> b')) (set_sched (placed p (prio b) (o_sched s)) (s\<lparr>o_ld := LNext (i + 1)\<rparr>))"
proof -
  let ?m = "\<lambda>b. b\<lparr>mm := Some (init_mm (e_zeroed env) (e_pgd0 env i) (e_mm0 env i)), active_mswp := 0\<rparr>"
  from assms obtain b h sc where b: "o_pcbs s p = Some b"
      and a: "add_proc p ((o_pcbs s)(p \<mapsto> ?m b)) (o_sched s) = Inr (h, sc)"
      and s': "s' = set_pcbs h (set_sched sc (s\<lparr>o_ld := LNext (i + 1)\<rparr>))"
    by (auto simp: ld_add_def Let_def bindR_eq_Inr)
  from a obtain c where "((o_pcbs s)(p \<mapsto> ?m b)) p = Some c" "prio c < MAX_PRIO"
      "h = (o_pcbs s)(p \<mapsto> ?m b, p \<mapsto> c\<lparr>queues_set := True\<rparr>)" "sc = placed p (prio c) (o_sched s)"
    by (rule add_proc_InrE)
  moreover from this(1) have "c = ?m b" by simp
  ultimately show thesis using that [of b "?m b\<lparr>queues_set := True\<rparr>"] b s' by simp
qed

lemma ld_routine_tm:
  assumes "ld_routine env p s = Inr (Returns s')"
  shows "o_tm s' = o_tm s \<or> o_tm s' = next_slot_done (num_cpus (e_cfg env)) (o_tm s) \<or>
    o_tm s' = detach_event (num_cpus (e_cfg env)) (o_tm s)"
  using assms
  by (cases "o_ld s")
    (auto simp: ld_routine_def Let_def split: if_splits elim!: ld_load_Returns ld_add_Returns)

lemma os_step_timer:
  assumes "os_step env s s'" and "dev_list (o_tm s) = rev [0..<Suc (num_cpus (e_cfg env))]"
  shows "o_tm s' = o_tm s \<or> tstep (o_tm s) (o_tm s')"
  using assms
proof (induction rule: os_step.induct)
  case (cpu i s s')
  then have d: "i \<in> set (dev_list (o_tm s))" by simp
  note r = cpu(2) [unfolded is_running_def]
  show ?case
    using cpu_routine_tm [OF cpu(3)] tstep.finish [OF d r] tstep.detach [OF d r]
    by (auto split: cpu_pc.splits)
next
  case (loader s p s')
  then have d: "num_cpus (e_cfg env) \<in> set (dev_list (o_tm s))" by simp
  note r = loader(1) [unfolded is_running_def]
  show ?case using ld_routine_tm [OF loader(3)] tstep.finish [OF d r] tstep.detach [OF d r] by auto
next
  case (enter d s t)
  then have "d \<in> set (dev_list (o_tm s))" by auto
  then show ?case using enter(2,3) tstep.enter by simp
next
  case (tick s t)
  then show ?case by (auto intro: tstep.tick)
next
  case (stop s)
  then show ?case by (auto intro!: tstep.stop)
qed

lemma os_reach_timer: "os_reach env s \<Longrightarrow> reach (Suc (num_cpus (e_cfg env))) (o_tm s)"
proof (induction rule: os_reach.induct)
  case (boot mram0 mswp0 s)
  then show ?case by (auto simp: main_def Let_def bindR_eq_Inr intro: reach.init)
next
  case (step s s')
  then show ?case using os_step_timer [OF step(2)] reach_dev_list [OF step.IH] by (auto intro: reach.more)
qed

section \<open>An instruction keeps the other processes\<close>

text \<open>A program without system call 101.\<close>

definition no_kill :: "pcb_t \<Rightarrow> bool" where
  "no_kill b \<longleftrightarrow> list_all (\<lambda>ins. opcode ins = SYSCALL \<longrightarrow> arg_0 ins \<noteq> 101) (c_text (code b))"

lemma with_ctx_frame:
  assumes "with_ctx f p k = Inr (x, k')" and "k_pcbs k p = Some b"
  shows "\<exists>m. k_pcbs k' = (k_pcbs k)(p \<mapsto> b\<lparr>mm := m\<rparr>) \<and> k_sched k' = k_sched k"
  using assms by (auto simp: with_ctx_def bindR_eq_Inr put_ctx_def deref_Some split: option.splits)

lemma same_mm: "k_pcbs k p = Some b \<Longrightarrow> \<exists>m. k_pcbs k = (k_pcbs k)(p \<mapsto> b\<lparr>mm := m\<rparr>) \<and> k_sched k = k_sched k"
  by (rule exI [of _ "mm b"]) (simp add: fun_upd_idem)

lemma exec_ins_frame:
  assumes e: "exec_ins z p ins k = Inr (st, out, k')" and b: "k_pcbs k p = Some b"
    and nk: "opcode ins = SYSCALL \<Longrightarrow> arg_0 ins \<noteq> 101"
  shows "\<exists>m. k_pcbs k' = (k_pcbs k)(p \<mapsto> b\<lparr>mm := m\<rparr>) \<and> k_sched k' = k_sched k"
proof -
  have mem: ?thesis if "opcode ins \<in> {ALLOC, FREE, READ, WRITE}"
    using that e by (auto simp: exec_ins_def bindR_eq_Inr dest!: with_ctx_frame [OF _ b])
  show ?thesis
  proof (cases "opcode ins")
    case SYSCALL
    with e nk same_mm [OF b] show ?thesis
      by (auto simp: exec_ins_def libsyscall_def syscall_def bindR_eq_Inr sys_listsyscall_def
          sys_xxxhandler_def split: if_splits dest!: with_ctx_frame [OF _ b])
  next
    case CALC
    with e have "k' = k" by (simp add: exec_ins_def)
    with same_mm [OF b] show ?thesis by simp
  qed (use mem in simp_all)
qed

lemma run_frame:
  assumes r: "run z p k = Inr (st, out, k')" and b: "k_pcbs k p = Some b" and nk: "no_kill b"
  shows "\<exists>c m. k_pcbs k' = (k_pcbs k)(p \<mapsto> b\<lparr>pc := c, mm := m\<rparr>) \<and> k_sched k' = k_sched k"
proof (cases "c_size (code b) \<le> pc b")
  case True
  with r b have "k' = k" by (simp add: run_def deref_Some)
  then show ?thesis using b by (intro exI [of _ "pc b"] exI [of _ "mm b"]) (simp add: fun_upd_idem)
next
  case False
  let ?b = "b\<lparr>pc := pc b + 1\<rparr>"
  let ?k = "k\<lparr>k_pcbs := (k_pcbs k)(p \<mapsto> ?b)\<rparr>"
  let ?ins = "c_text (code b) ! pc b"
  from False r b have l: "pc b < length (c_text (code b))" and e: "exec_ins z p ?ins ?k = Inr (st, out, k')"
    by (auto simp: run_def deref_Some split: if_splits)
  have "opcode ?ins = SYSCALL \<Longrightarrow> arg_0 ?ins \<noteq> 101" using nk l by (auto simp: no_kill_def list_all_length)
  from exec_ins_frame [OF e _ this, of ?b] show ?thesis by auto
qed

section \<open>Ownership of control blocks\<close>

text \<open>The ownership of theory \<open>Dispatch\<close> for the scheduler and the control blocks; no program kills.\<close>

abbreviation own_inv :: "sched_t \<Rightarrow> pcbs \<Rightarrow> (nat \<Rightarrow> pcb_ref option) \<Rightarrow> bool" where
  "own_inv \<equiv> ds.own_inv prio no_kill"

lemmas os_own_invI = ds.own_invI [where lvl = prio and good = no_kill, unfolded queued_eq]
lemmas os_own_invD = ds.own_invD [where lvl = prio and good = no_kill, unfolded queued_eq]
lemmas os_own_take = ds.own_take [where lvl = prio and good = no_kill, unfolded queued_eq]
lemmas os_own_free = ds.own_free [where lvl = prio and good = no_kill]
lemmas os_own_new = ds.own_new [where lvl = prio and good = no_kill]
lemmas os_own_charge = ds.own_charge [where lvl = prio and good = no_kill, unfolded queued_eq]

lemma no_kill_code: "code b' = code b \<Longrightarrow> no_kill b \<Longrightarrow> no_kill b'"
  by (simp add: no_kill_def)

lemma os_own_put:
  assumes inv: "own_inv sc h own" and d: "own d = Some p" and h: "h p = Some b"
    and b': "prio b' = prio b" "code b' = code b"
  shows "own_inv (placed p (prio b) sc) (h(p \<mapsto> b')) (own(d := None))"
  using os_own_invD(2) [OF inv h] by (intro ds.own_put [OF inv d h b'(1)] no_kill_code [OF b'(2)]) blast

lemma os_own_same:
  assumes inv: "own_inv sc h own" and h: "h p = Some b" and b': "prio b' = prio b" "code b' = code b"
  shows "own_inv sc (h(p \<mapsto> b')) own"
  using os_own_invD(2) [OF inv h] by (intro ds.own_same [OF inv h b'(1)] no_kill_code [OF b'(2)]) blast

section \<open>The invariant of the machine\<close>

text \<open>After \<open>put_proc\<close> and after \<open>free\<close> the pointer a processor keeps is no longer its own.\<close>

definition owned :: "cpu_t \<Rightarrow> pcb_ref option" where
  "owned c = (case c_pc c of CCharge \<Rightarrow> None | CFetch _ \<Rightarrow> None | _ \<Rightarrow> c_proc c)"

definition ld_owned :: "ld_pc \<Rightarrow> pcb_ref option" where
  "ld_owned l = (case l of LWait _ p \<Rightarrow> Some p | _ \<Rightarrow> None)"

definition holder :: "nat \<Rightarrow> os_t \<Rightarrow> nat \<Rightarrow> pcb_ref option" where
  "holder n s = (\<lambda>d. owned (o_cpu s d))(n := ld_owned (o_ld s))"

definition cpu_shape :: "cpu_t \<Rightarrow> bool" where
  "cpu_shape c \<longleftrightarrow> (c_pc c \<in> {CFree, CCharge, CGetSlot, CRun} \<longrightarrow> c_proc c \<noteq> None) \<and>
     (c_pc c \<in> {CNone, CDetach, CStopped} \<longrightarrow> c_proc c = None)"

text \<open>A device that has finished the current slot and waits.\<close>

definition late :: "timer_t \<Rightarrow> nat \<Rightarrow> bool" where
  "late t d \<longleftrightarrow> t_place (devs t d) = Blocked \<and> t_done (devs t d) \<and> t_slots (devs t d) = ticks t"

text \<open>A processor that took its process in the current slot: it cannot reach the top of its loop again
  before the slot ends.\<close>

definition slow :: "os_t \<Rightarrow> nat \<Rightarrow> bool" where
  "slow s j \<longleftrightarrow> c_pc (o_cpu s j) \<in> {CGetSlot, CCheck, CRun, CNext} \<or> (c_pc (o_cpu s j) = CTop \<and> late (o_tm s) j)"

definition charge_inv :: "nat \<Rightarrow> os_t \<Rightarrow> bool" where
  "charge_inv n s \<longleftrightarrow> (\<forall>i<n. c_pc (o_cpu s i) = CCharge \<longrightarrow>
     (\<forall>p. c_proc (o_cpu s i) = Some p \<longrightarrow> p \<in> dom (o_pcbs s) \<and> ld_owned (o_ld s) \<noteq> Some p \<and>
       (\<forall>j<n. j \<noteq> i \<longrightarrow> owned (o_cpu s j) = Some p \<longrightarrow> slow s j)))"

definition dev_ok :: "nat \<Rightarrow> os_t \<Rightarrow> bool" where
  "dev_ok n s \<longleftrightarrow> (\<forall>i<n. (t_place (devs (o_tm s) i) = Blocked \<longrightarrow> c_pc (o_cpu s i) = CTop) \<and>
     (t_place (devs (o_tm s) i) = Detached \<longleftrightarrow> c_pc (o_cpu s i) = CStopped))"

definition os_inv :: "nat \<Rightarrow> os_t \<Rightarrow> bool" where
  "os_inv n s \<longleftrightarrow> timer_inv (o_tm s) \<and> dev_list (o_tm s) = rev [0..<Suc n] \<and>
     own_inv (o_sched s) (o_pcbs s) (holder n s) \<and> (\<forall>i. cpu_shape (o_cpu s i)) \<and> dev_ok n s \<and> charge_inv n s"

lemma os_invD:
  assumes "os_inv n s"
  shows "timer_inv (o_tm s)" "dev_list (o_tm s) = rev [0..<Suc n]"
    "own_inv (o_sched s) (o_pcbs s) (holder n s)" "cpu_shape (o_cpu s i)" "dev_ok n s" "charge_inv n s"
  using assms by (simp_all add: os_inv_def)

lemma charge_invD:
  assumes "charge_inv n s" and "i < n" and "c_pc (o_cpu s i) = CCharge" and "c_proc (o_cpu s i) = Some p"
  shows "p \<in> dom (o_pcbs s)" "ld_owned (o_ld s) \<noteq> Some p"
    "j < n \<Longrightarrow> j \<noteq> i \<Longrightarrow> owned (o_cpu s j) = Some p \<Longrightarrow> slow s j"
  using assms unfolding charge_inv_def by blast+

text \<open>The steps of a processor, with the state they lead to.\<close>

definition local_moves :: "(cpu_pc \<times> cpu_pc) set" where
  "local_moves = {(CTop, CCheck), (CNone, CDetach), (CNone, CNext), (CGetSlot, CCheck), (CCheck, CDetach),
     (CCheck, CNext), (CCheck, CRun)}"

definition fetches :: "cpu_t \<Rightarrow> bool" where
  "fetches c \<longleftrightarrow> (case c_pc c of CTop \<Rightarrow> c_proc c = None | CFetch _ \<Rightarrow> True | _ \<Rightarrow> False)"

inductive cpu_act :: "nat \<Rightarrow> os_t \<Rightarrow> os_t \<Rightarrow> bool" for i s where
  take: "fetches (o_cpu s i) \<Longrightarrow>
    get_proc (o_sched s) = Some (Some p, sc) \<Longrightarrow> c_pc c = CGetSlot \<Longrightarrow> c_proc c = Some p \<Longrightarrow>
    cpu_act i s (set_cpu i c (set_sched sc s))"
| idle: "fetches (o_cpu s i) \<Longrightarrow> c_pc c = (if c_pc (o_cpu s i) = CTop then CNone else CCheck) \<Longrightarrow>
    all_ready (o_sched s) = {} \<Longrightarrow> c_proc c = None \<Longrightarrow> cpu_act i s (set_cpu i c s)"
| finish: "c_pc (o_cpu s i) = CTop \<Longrightarrow> c_proc (o_cpu s i) = Some p \<Longrightarrow>
    update_slot pr u (o_sched s) = Inr sc \<Longrightarrow>
    cpu_act i s (set_cpu i ((o_cpu s i)\<lparr>c_pc := CFree\<rparr>) (set_sched sc s))"
| put: "c_pc (o_cpu s i) = CTop \<Longrightarrow> c_proc (o_cpu s i) = Some p \<Longrightarrow> o_pcbs s p = Some b \<Longrightarrow>
    cpu_act i s (set_cpu i ((o_cpu s i)\<lparr>c_pc := CCharge\<rparr>)
      (set_pcbs ((o_pcbs s)(p \<mapsto> b\<lparr>queues_set := True\<rparr>)) (set_sched (placed p (prio b) (o_sched s)) s)))"
| free: "c_pc (o_cpu s i) = CFree \<Longrightarrow> c_proc (o_cpu s i) = Some p \<Longrightarrow>
    cpu_act i s (set_cpu i ((o_cpu s i)\<lparr>c_pc := CFetch True\<rparr>) (set_pcbs ((o_pcbs s)(p := None)) s))"
| charge: "c_pc (o_cpu s i) = CCharge \<Longrightarrow> update_slot pr u (o_sched s) = Inr sc \<Longrightarrow>
    cpu_act i s (set_cpu i ((o_cpu s i)\<lparr>c_pc := CFetch False\<rparr>) (set_sched sc s))"
| local: "(c_pc (o_cpu s i), c_pc c) \<in> local_moves \<Longrightarrow> c_proc c = c_proc (o_cpu s i) \<Longrightarrow>
    (c_pc c = CDetach \<longrightarrow> o_done s) \<Longrightarrow> cpu_shape c \<Longrightarrow> (c_pc (o_cpu s i) = CTop \<longrightarrow> c_proc c \<noteq> None) \<Longrightarrow>
    cpu_act i s (set_cpu i c s)"
| run: "c_pc (o_cpu s i) = CRun \<Longrightarrow> c_proc (o_cpu s i) = Some p \<Longrightarrow> o_pcbs s p = Some b \<Longrightarrow>
    k_pcbs k = (o_pcbs s)(p \<mapsto> b\<lparr>pc := x, mm := m\<rparr>) \<Longrightarrow> k_sched k = o_sched s \<Longrightarrow>
    c_pc c = CNext \<Longrightarrow> c_proc c = Some p \<Longrightarrow> cpu_act i s (set_cpu i c (s\<lparr>o_k := k\<rparr>))"
| next_slot: "c_pc (o_cpu s i) = CNext \<Longrightarrow>
    cpu_act i s (set_cpu i ((o_cpu s i)\<lparr>c_pc := CTop\<rparr>) (s\<lparr>o_tm := next_slot_done i (o_tm s)\<rparr>))"
| detach: "c_pc (o_cpu s i) = CDetach \<Longrightarrow>
    cpu_act i s (set_cpu i ((o_cpu s i)\<lparr>c_pc := CStopped\<rparr>) (s\<lparr>o_tm := detach_event i (o_tm s)\<rparr>))"

lemma holder_cpu: "i < n \<Longrightarrow> holder n s i = owned (o_cpu s i)"
  by (simp add: holder_def)

lemma set_sched_id: "set_sched (o_sched s) s = s"
  by (simp add: set_sched_def)

text \<open>What a processor holds is allocated; so is what it has just put back.\<close>

lemma held_alloc:
  assumes "os_inv n s" and "i < n" and "owned (o_cpu s i) = Some p"
  obtains b where "o_pcbs s p = Some b" "prio b < MAX_PRIO" "no_kill b"
proof -
  note v = os_invD(3) [OF assms(1)]
  from assms(2,3) have "holder n s i = Some p" by (simp add: holder_cpu)
  from os_own_invD(4) [OF v this] obtain b where "o_pcbs s p = Some b" by blast
  with os_own_invD(2) [OF v this] that show thesis by blast
qed

lemma empty_ready: "sched_wf sc \<Longrightarrow> queue_empty sc \<longleftrightarrow> all_ready sc = {}"
  by (auto simp: queue_empty_iff all_ready_def)

lemma cpu_fetch_act:
  assumes wf: "sched_wf (o_sched s)" and none: "cpu_fetch i c nn s = Some s'"
  obtains (got) p sc where "get_proc (o_sched s) = Some (Some p, sc)"
      "s' = set_cpu i (c\<lparr>c_proc := Some p, c_pc := CGetSlot\<rparr>) (set_sched sc s)"
    | (idle) "all_ready (o_sched s) = {}" "s' = set_cpu i (c\<lparr>c_proc := None, c_pc := nn\<rparr>) s"
  using wf
proof (cases rule: ds.get_cases)
  case none
  with assms(2) idle show thesis by (simp add: cpu_fetch_def set_sched_id queued_eq)
next
  case (some p sc)
  with assms(2) got show thesis by (simp add: cpu_fetch_def)
qed

lemma cpu_fetch_returns: "sched_wf (o_sched s) \<Longrightarrow> \<exists>s'. cpu_fetch i c nn s = Some s'"
  using get_proc_returns [of "o_sched s"] by (auto simp: cpu_fetch_def)

text \<open>
  Under the invariant no step of a processor faults, except possibly the instruction it runs, and
  every step is one of these.
\<close>

lemma the_proc_held:
  "c_proc c = Some p \<Longrightarrow> o_pcbs s p = Some b \<Longrightarrow> the_proc c s = Inr (p, b)"
  by (simp add: the_proc_def deref_Some)

lemma cpu_routine_runs:
  assumes inv: "os_inv n s" and i: "i < n" and run: "is_running i s" and pc: "c_pc (o_cpu s i) \<noteq> CRun"
  shows "\<exists>s'. cpu_routine env i s = Some (Inr s') \<and> cpu_act i s s'"
proof -
  let ?c = "o_cpu s i"
  note v = os_invD [OF inv]
  have wf: "sched_wf (o_sched s)" using os_own_invD(1) [OF v(3)] .
  have sh: "cpu_shape ?c" using v(4) .
  show ?thesis
  proof (cases "c_pc ?c")
    case CTop
    show ?thesis
    proof (cases "c_proc ?c")
      case None
      obtain s' where f: "cpu_fetch i ?c CNone s = Some s'" using cpu_fetch_returns [OF wf] by blast
      with CTop None have r: "cpu_routine env i s = Some (Inr s')" by (simp add: cpu_routine_def Let_def)
      from cpu_fetch_act [OF wf f] have "cpu_act i s s'"
        by cases (use CTop None in \<open>auto simp: fetches_def intro: cpu_act.take cpu_act.idle\<close>)
      with r show ?thesis by blast
    next
      case (Some p)
      then have "owned ?c = Some p" using CTop by (simp add: owned_def)
      with inv i obtain b where b: "o_pcbs s p = Some b" "prio b < MAX_PRIO" by (rule held_alloc)
      have r: "cpu_routine env i s = Some (cpu_top i ?c s)" using CTop Some by (simp add: cpu_routine_def Let_def)
      note tp = the_proc_held [OF Some b(1)] put_proc_placed [of "o_pcbs s" p b, OF b(1,2)]
      obtain sc where u: "update_slot (prio b) (c_use_time ?c) (o_sched s) = Inr sc"
        using b(2) by (simp add: update_slot_def)
      consider "pc b = c_size (code b)" | "pc b \<noteq> c_size (code b)" "c_time_left ?c = 0"
        | "pc b \<noteq> c_size (code b)" "c_time_left ?c \<noteq> 0" by blast
      then show ?thesis
      proof cases
        case 1
        with tp u r cpu_act.finish [OF CTop Some u] show ?thesis by (auto simp: cpu_top_def)
      next
        case 2
        with tp r cpu_act.put [OF CTop Some b(1)] show ?thesis by (auto simp: cpu_top_def)
      next
        case 3
        have "cpu_act i s (set_cpu i (?c\<lparr>c_pc := CCheck\<rparr>) s)"
          using CTop Some by (intro cpu_act.local) (auto simp: local_moves_def cpu_shape_def)
        with 3 tp r show ?thesis by (auto simp: cpu_top_def)
      qed
    qed
  next
    case CNone
    have "cpu_act i s (set_cpu i (?c\<lparr>c_pc := (if o_done s then CDetach else CNext)\<rparr>) s)"
      using CNone sh by (intro cpu_act.local) (auto simp: local_moves_def cpu_shape_def)
    with CNone show ?thesis by (auto simp: cpu_routine_def)
  next
    case CFree
    then obtain p where p: "c_proc ?c = Some p" using sh by (auto simp: cpu_shape_def)
    with CFree have "owned ?c = Some p" by (simp add: owned_def)
    with inv i obtain b where "o_pcbs s p = Some b" by (rule held_alloc)
    then have "cpu_routine env i s = Some (Inr (set_cpu i (?c\<lparr>c_pc := CFetch True\<rparr>) (set_pcbs ((o_pcbs s)(p := None)) s)))"
      using CFree the_proc_held [OF p] by (simp add: cpu_routine_def)
    with cpu_act.free [OF CFree p] show ?thesis by blast
  next
    case CCharge
    then obtain p where p: "c_proc ?c = Some p" using sh by (auto simp: cpu_shape_def)
    from charge_invD(1) [OF v(6) i CCharge p] obtain b where b: "o_pcbs s p = Some b" by blast
    then have "prio b < MAX_PRIO" using os_own_invD(2) [OF v(3)] by blast
    then obtain sc where u: "update_slot (prio b) (c_use_time ?c) (o_sched s) = Inr sc" by (simp add: update_slot_def)
    then have "cpu_routine env i s = Some (Inr (set_cpu i (?c\<lparr>c_pc := CFetch False\<rparr>) (set_sched sc s)))"
      using CCharge the_proc_held [OF p b] by (simp add: cpu_routine_def)
    with cpu_act.charge [OF CCharge u] show ?thesis by blast
  next
    case (CFetch fin)
    let ?c' = "if fin then ?c\<lparr>c_time_left := 0, c_use_time := 0\<rparr> else ?c"
    obtain s' where f: "cpu_fetch i ?c' CCheck s = Some s'" using cpu_fetch_returns [OF wf] by blast
    with CFetch have r: "cpu_routine env i s = Some (Inr s')" by (simp add: cpu_routine_def)
    from cpu_fetch_act [OF wf f] have "cpu_act i s s'"
      by cases (use CFetch in \<open>auto simp: fetches_def intro: cpu_act.take cpu_act.idle\<close>)
    with r show ?thesis by blast
  next
    case CGetSlot
    then obtain p where p: "c_proc ?c = Some p" using sh by (auto simp: cpu_shape_def)
    with CGetSlot have "owned ?c = Some p" by (simp add: owned_def)
    with inv i obtain b where b: "o_pcbs s p = Some b" "prio b < MAX_PRIO" by (rule held_alloc)
    let ?c' = "?c\<lparr>c_remaining := slot (o_sched s) ! prio b, c_pc := CCheck\<rparr>"
    have "cpu_act i s (set_cpu i ?c' s)"
      using CGetSlot by (intro cpu_act.local) (auto simp: local_moves_def cpu_shape_def)
    moreover have "cpu_routine env i s = Some (Inr (set_cpu i ?c' s))"
      using CGetSlot the_proc_held [OF p b(1)] b(2) by (simp add: cpu_routine_def get_slot_def)
    ultimately show ?thesis by blast
  next
    case CCheck
    have "cpu_act i s (cpu_check (e_cfg env) i ?c s)"
      using CCheck unfolding cpu_check_def by (intro cpu_act.local) (auto simp: local_moves_def cpu_shape_def)
    with CCheck show ?thesis by (auto simp: cpu_routine_def)
  next
    case CNext
    with cpu_act.next_slot [OF CNext] show ?thesis by (auto simp: cpu_routine_def)
  next
    case CDetach
    with cpu_act.detach [OF CDetach] show ?thesis by (auto simp: cpu_routine_def)
  next
    case CStopped
    with v(5) i run show ?thesis by (auto simp: dev_ok_def is_running_def)
  qed (use pc in simp)
qed

lemma cpu_run_act:
  assumes inv: "os_inv n s" and i: "i < n" and pc: "c_pc (o_cpu s i) = CRun"
    and r: "cpu_routine env i s = Some (Inr s')"
  shows "cpu_act i s s'"
proof -
  let ?c = "o_cpu s i"
  obtain p where p: "c_proc ?c = Some p" using os_invD(4) [OF inv, of i] pc by (auto simp: cpu_shape_def)
  with pc have "owned ?c = Some p" by (simp add: owned_def)
  with inv i obtain b where b: "o_pcbs s p = Some b" "prio b < MAX_PRIO" "no_kill b" by (rule held_alloc)
  from r pc obtain st out k tl ut where k: "run (e_zeroed env) p (o_k s) = Inr (st, out, k)"
      and s': "s' = set_cpu i (?c\<lparr>c_time_left := tl, c_use_time := ut, c_pc := CNext\<rparr>) (s\<lparr>o_k := k\<rparr>)"
    by (auto simp: cpu_routine_def Let_def cpu_run_def the_proc_held [OF p b(1)] bindR_eq_Inr)
  from run_frame [OF k b(1,3)] obtain x m where
    f: "k_pcbs k = (o_pcbs s)(p \<mapsto> b\<lparr>pc := x, mm := m\<rparr>)" "k_sched k = o_sched s" by blast
  show ?thesis unfolding s' by (rule cpu_act.run [OF pc p b(1) f]) (simp_all add: p)
qed

lemma cpu_routine_act:
  assumes inv: "os_inv n s" and i: "i < n" and run: "is_running i s"
    and r: "cpu_routine env i s = Some (Inr s')"
  shows "cpu_act i s s'"
proof (cases "c_pc (o_cpu s i) = CRun")
  case True
  with inv i r show ?thesis by (intro cpu_run_act)
next
  case False
  from cpu_routine_runs [OF inv i run False, of env] r show ?thesis by auto
qed

section \<open>The steps of a processor keep the invariant\<close>

lemma local_owned: "(c_pc c, c_pc c') \<in> local_moves \<Longrightarrow> c_proc c' = c_proc c \<Longrightarrow> owned c' = owned c"
  by (auto simp: local_moves_def owned_def)

lemma cpu_act_others:
  "cpu_act i s s' \<Longrightarrow> o_ld s' = o_ld s \<and> o_done s' = o_done s \<and> (\<forall>j. j \<noteq> i \<longrightarrow> o_cpu s' j = o_cpu s j)"
  by (induction rule: cpu_act.induct) simp_all

lemma act_holder: "cpu_act i s s' \<Longrightarrow> i < n \<Longrightarrow> holder n s' = (holder n s)(i := owned (o_cpu s' i))"
  using cpu_act_others [of i s s'] by (auto simp: holder_def)

lemma act_own:
  assumes inv: "os_inv n s" and i: "i < n" and act: "cpu_act i s s'"
  shows "own_inv (o_sched s') (o_pcbs s') (holder n s')"
proof -
  note v = os_invD(3) [OF inv]
  have hi: "holder n s i = owned (o_cpu s i)" using i by (rule holder_cpu)
  have same: "(holder n s)(i := owned (o_cpu s i)) = holder n s" using hi by (simp add: fun_upd_idem)
  from act have "own_inv (o_sched s') (o_pcbs s') ((holder n s)(i := owned (o_cpu s' i)))" (is ?goal)
  proof cases
    case (take p sc c)
    then show ?goal using os_own_take(1) [OF v take(3), of i] by (simp add: owned_def)
  next
    case (idle c)
    then have "owned c = None" "owned (o_cpu s i) = None" by (auto simp: owned_def fetches_def split: cpu_pc.splits)
    then show ?goal using v same idle by simp
  next
    case (finish p pr u sc)
    then have "owned (o_cpu s' i) = owned (o_cpu s i)" by (simp add: owned_def)
    then show ?goal using os_own_charge(1) [OF v finish(4)] same finish(1) by simp
  next
    case (put p b)
    then have "holder n s i = Some p" using hi by (simp add: owned_def)
    then show ?goal using os_own_put [OF v _ put(4), of i "b\<lparr>queues_set := True\<rparr>"] put
      by (simp add: owned_def)
  next
    case (free p)
    then have "holder n s i = Some p" using hi by (simp add: owned_def)
    then show ?goal using os_own_free [OF v] free by (simp add: owned_def)
  next
    case (charge pr u sc)
    then have "owned (o_cpu s' i) = owned (o_cpu s i)" by (simp add: owned_def)
    then show ?goal using os_own_charge(1) [OF v charge(3)] same charge(1) by simp
  next
    case (local c)
    then show ?goal using v same local_owned [OF local(2,3)] by simp
  next
    case (run p b k m x c)
    then have "owned (o_cpu s' i) = owned (o_cpu s i)" by (simp add: owned_def)
    then show ?goal using os_own_same [OF v run(4), of "b\<lparr>pc := x, mm := m\<rparr>"] same run by simp
  next
    case next_slot
    then have "owned (o_cpu s' i) = owned (o_cpu s i)" by (simp add: owned_def)
    then show ?goal using v same next_slot(1) by simp
  next
    case detach
    then have "owned (o_cpu s' i) = owned (o_cpu s i)" by (simp add: owned_def)
    then show ?goal using v same detach(1) by simp
  qed
  then show ?thesis unfolding act_holder [OF act i] .
qed

lemma act_shape:
  assumes "cpu_act i s s'" and "cpu_shape (o_cpu s i)"
  shows "cpu_shape (o_cpu s' i)"
  using assms by cases (simp_all add: cpu_shape_def split: if_splits)

lemma act_dev_ok:
  assumes act: "cpu_act i s s'" and "dev_ok n s" and "is_running i s"
  shows "dev_ok n s'"
  using assms
  by cases (auto simp: dev_ok_def is_running_def next_slot_done_def detach_event_def local_moves_def)

text \<open>Where the block a processor holds after its step comes from.\<close>

lemma act_owned:
  assumes "cpu_act i s s'" and "cpu_shape (o_cpu s i)" and "owned (o_cpu s' i) = Some p"
  shows "c_pc (o_cpu s' i) = CGetSlot \<or> (owned (o_cpu s i) = Some p \<and>
    (c_pc (o_cpu s i), c_pc (o_cpu s' i)) \<in> {(CTop, CCheck), (CTop, CFree), (CGetSlot, CCheck), (CCheck, CRun),
      (CCheck, CNext), (CRun, CNext), (CNext, CTop)})"
  using assms(1)
proof cases
  case (local c)
  then have "owned c = owned (o_cpu s i)" using local_owned by blast
  with local(2,5) assms show ?thesis unfolding local(1)
    by (auto simp: local_moves_def cpu_shape_def owned_def split: cpu_pc.splits)
qed (use assms(2,3) in \<open>simp_all add: owned_def cpu_shape_def split: if_splits\<close>)

lemma act_late:
  assumes "cpu_act i s s'" and "j \<noteq> i"
  shows "late (o_tm s') j = late (o_tm s) j"
  using assms by cases (auto simp: late_def next_slot_done_def detach_event_def)

lemma act_becomes_late:
  assumes inv: "os_inv n s" and i: "i < n" and run: "is_running i s" and act: "cpu_act i s s'"
    and pc: "c_pc (o_cpu s i) = CNext"
  shows "late (o_tm s') i"
proof -
  note t = timer_invD [OF os_invD(1) [OF inv]]
  have m: "i \<in> set (dev_list (o_tm s))" using os_invD(2) [OF inv] i by auto
  have r: "t_place (devs (o_tm s) i) = Running" using run by (simp add: is_running_def)
  then have "alive (devs (o_tm s) i)" using t(3) m by (auto simp: gone_def)
  from pc_inv_slots(2) [OF t(5) m this r] have "t_slots (devs (o_tm s) i) = ticks (o_tm s)" .
  moreover from act pc have "o_tm s' = next_slot_done i (o_tm s)" by cases (auto simp: local_moves_def fetches_def)
  ultimately show ?thesis by (simp add: late_def next_slot_done_def)
qed

lemma act_dom:
  assumes "cpu_act i s s'" and "p \<in> dom (o_pcbs s)"
  shows "p \<in> dom (o_pcbs s') \<or> (c_pc (o_cpu s i) = CFree \<and> c_proc (o_cpu s i) = Some p)"
  using assms by cases auto

lemma act_charge:
  assumes inv: "os_inv n s" and i: "i < n" and run: "is_running i s" and act: "cpu_act i s s'"
  shows "charge_inv n s'"
  unfolding charge_inv_def
proof (intro allI impI)
  fix k p
  assume k: "k < n" "c_pc (o_cpu s' k) = CCharge" "c_proc (o_cpu s' k) = Some p"
  note v = os_invD [OF inv] and others = cpu_act_others [OF act]
  show "p \<in> dom (o_pcbs s') \<and> ld_owned (o_ld s') \<noteq> Some p \<and>
    (\<forall>j<n. j \<noteq> k \<longrightarrow> owned (o_cpu s' j) = Some p \<longrightarrow> slow s' j)"
  proof (cases "k = i")
    case True
    with act k obtain b where put: "c_pc (o_cpu s i) = CTop" "c_proc (o_cpu s i) = Some p" "o_pcbs s p = Some b"
        and dom: "p \<in> dom (o_pcbs s')"
      by cases (auto simp: local_moves_def)
    then have h: "holder n s i = Some p" using i by (simp add: holder_cpu owned_def)
    have u: "holder n s j \<noteq> Some p" if "j \<noteq> i" for j using os_own_invD(5) [OF v(3) h, of j] that by auto
    have "ld_owned (o_ld s') \<noteq> Some p" using u [of n] i others by (simp add: holder_def)
    moreover have "owned (o_cpu s' j) \<noteq> Some p" if "j < n" "j \<noteq> k" for j
      using u [of j] that True others holder_cpu [OF that(1), of s] by simp
    ultimately show ?thesis using dom by blast
  next
    case False
    with k others have old: "c_pc (o_cpu s k) = CCharge" "c_proc (o_cpu s k) = Some p" by auto
    note c = charge_invD [OF v(6) k(1) old]
    have si: "slow s i" if "owned (o_cpu s i) = Some p" using c(3) [OF i _ that] False by auto
    have nl: "\<not> late (o_tm s) i" using run by (simp add: late_def is_running_def)
    have "p \<in> dom (o_pcbs s')"
    proof (rule ccontr)
      assume "p \<notin> dom (o_pcbs s')"
      with act_dom [OF act c(1)] have "c_pc (o_cpu s i) = CFree" "c_proc (o_cpu s i) = Some p" by auto
      then have "owned (o_cpu s i) = Some p" "\<not> slow s i" by (simp_all add: owned_def slow_def)
      with si show False by blast
    qed
    moreover have "slow s' j" if j: "j < n" "j \<noteq> k" "owned (o_cpu s' j) = Some p" for j
    proof (cases "j = i")
      case True
      have "c_pc (o_cpu s' i) = CTop \<Longrightarrow> c_pc (o_cpu s i) = CNext \<Longrightarrow> late (o_tm s') i"
        using act_becomes_late [OF inv i run act] by blast
      with act_owned [OF act v(4), of p] j(3) si nl show ?thesis unfolding True by (auto simp: slow_def)
    next
      case False
      with others c(3) [OF j(1,2)] j(3) act_late [OF act False] show ?thesis by (simp add: slow_def)
    qed
    ultimately show ?thesis using c(2) others by simp
  qed
qed

section \<open>The other steps keep the invariant\<close>

text \<open>Programs the loader can read have priorities in range and do not use system call 101.\<close>

definition good_env :: "os_env \<Rightarrow> bool" where
  "good_env env \<longleftrightarrow> (\<forall>i<length (ld_processes (e_cfg env)).
     let a = ld_processes (e_cfg env) ! i in
     nat (to_u32 (l_prio a)) < MAX_PRIO \<and>
     (\<forall>pid b pid'. load (e_pcb0 env i) (e_text0 env i) pid (l_path a) (e_file env (l_path a)) = Inr (Returns b, pid') \<longrightarrow>
       no_kill b))"

lemma ld_routine_cpu:
  "ld_routine env p s = Inr (Returns s') \<Longrightarrow> o_cpu s' = o_cpu s"
  by (cases "o_ld s")
    (auto simp: ld_routine_def Let_def split: if_splits elim!: ld_load_Returns ld_add_Returns)

lemma ld_holder: "o_cpu s' = o_cpu s \<Longrightarrow> holder n s' = (holder n s)(n := ld_owned (o_ld s'))"
  by (auto simp: holder_def)

text \<open>The blocks and queues after a step of the loader.\<close>

lemma ld_routine_own:
  assumes inv: "os_inv n s" and env: "good_env env" "n = num_cpus (e_cfg env)" and p: "p \<notin> dom (o_pcbs s)"
    and r: "ld_routine env p s = Inr (Returns s')"
  shows "own_inv (o_sched s') (o_pcbs s') (holder n s') \<and> dom (o_pcbs s) \<subseteq> dom (o_pcbs s') \<and>
    (ld_owned (o_ld s') = ld_owned (o_ld s) \<or> ld_owned (o_ld s') = None \<or> ld_owned (o_ld s') = Some p)"
proof -
  note v = os_invD(3) [OF inv]
  note h' = ld_holder [OF ld_routine_cpu [OF r], of n]
  have hn: "holder n s n = ld_owned (o_ld s)" by (simp add: holder_def)
  have same: ?thesis if "o_sched s' = o_sched s" "o_pcbs s' = o_pcbs s" "ld_owned (o_ld s') = ld_owned (o_ld s)"
    using v that h' hn by (simp add: fun_upd_idem)
  show ?thesis
  proof (cases "o_ld s")
    case (LLoad i)
    show ?thesis
    proof (cases "i < length (ld_processes (e_cfg env))")
      case True
      with r LLoad have "ld_load env p i s = Inr (Returns s')" by (simp add: ld_routine_def)
      then show ?thesis
      proof (rule ld_load_Returns)
        fix b pid'
        let ?a = "ld_processes (e_cfg env) ! i"
        assume l: "load (e_pcb0 env i) (e_text0 env i) (o_pid s) (l_path ?a) (e_file env (l_path ?a)) = Inr (Returns b, pid')"
          and s': "s' = set_pcbs ((o_pcbs s)(p \<mapsto> b\<lparr>prio := nat (to_u32 (l_prio ?a))\<rparr>)) (s\<lparr>o_pid := pid', o_ld := LWait i p\<rparr>)"
        have "no_kill b" "nat (to_u32 (l_prio ?a)) < MAX_PRIO"
          using env(1) True l unfolding good_env_def Let_def by blast+
        then have "own_inv (o_sched s) ((o_pcbs s)(p \<mapsto> b\<lparr>prio := nat (to_u32 (l_prio ?a))\<rparr>)) ((holder n s)(n := Some p))"
          using p hn LLoad by (intro os_own_new [OF v]) (simp_all add: ld_owned_def no_kill_def)
        then show ?thesis using h' unfolding s' by (auto simp: ld_owned_def)
      qed
    next
      case False
      with r LLoad have "s' = s\<lparr>o_done := True, o_ld := LDetach\<rparr>" by (simp add: ld_routine_def)
      with same LLoad show ?thesis by (simp add: ld_owned_def)
    qed
  next
    case (LWait i q)
    show ?thesis
    proof (cases "current_time (o_tm s) < l_start (ld_processes (e_cfg env) ! i)")
      case True
      with r LWait have "s' = s\<lparr>o_tm := next_slot_done (num_cpus (e_cfg env)) (o_tm s)\<rparr>" by (simp add: ld_routine_def)
      with same show ?thesis by simp
    next
      case False
      with r LWait have "ld_add env q i s = Inr (Returns s')" by (simp add: ld_routine_def)
      then show ?thesis
      proof (rule ld_add_Returns)
        fix b b'
        assume b: "o_pcbs s q = Some b" "prio b' = prio b" "code b' = code b"
          and s': "s' = set_pcbs ((o_pcbs s)(q \<mapsto> b')) (set_sched (placed q (prio b) (o_sched s)) (s\<lparr>o_ld := LNext (i + 1)\<rparr>))"
        have "holder n s n = Some q" using hn LWait by (simp add: ld_owned_def)
        from os_own_put [OF v this b] show ?thesis using h' unfolding s' by (auto simp: ld_owned_def)
      qed
    qed
  next
    case (LNext i)
    with r have "s' = s\<lparr>o_tm := next_slot_done (num_cpus (e_cfg env)) (o_tm s), o_ld := LLoad i\<rparr>" by (simp add: ld_routine_def)
    with same LNext show ?thesis by (simp add: ld_owned_def)
  next
    case LDetach
    with r have "s' = s\<lparr>o_tm := detach_event (num_cpus (e_cfg env)) (o_tm s), o_ld := LEnded\<rparr>" by (simp add: ld_routine_def)
    with same LDetach show ?thesis by (simp add: ld_owned_def)
  next
    case LEnded
    with r have "s' = s" by (simp add: ld_routine_def)
    with same show ?thesis by simp
  qed
qed

text \<open>\<open>charge_inv\<close> survives any step that keeps the processors, allocates at most the loader's block and
  leaves late devices late.\<close>

lemma charge_inv_keep:
  assumes c: "charge_inv n s" and cpu: "o_cpu s' = o_cpu s" and dom: "dom (o_pcbs s) \<subseteq> dom (o_pcbs s')"
    and ld: "ld_owned (o_ld s') = ld_owned (o_ld s) \<or> ld_owned (o_ld s') = None \<or>
      (\<exists>p. ld_owned (o_ld s') = Some p \<and> p \<notin> dom (o_pcbs s))"
    and late: "\<And>i j. i < n \<Longrightarrow> c_pc (o_cpu s i) = CCharge \<Longrightarrow> j < n \<Longrightarrow> late (o_tm s) j \<Longrightarrow> late (o_tm s') j"
  shows "charge_inv n s'"
  unfolding charge_inv_def
proof (intro allI impI)
  fix i p assume i: "i < n" "c_pc (o_cpu s' i) = CCharge" "c_proc (o_cpu s' i) = Some p"
  note c' = charge_invD [OF c i(1) i(2,3) [unfolded cpu]]
  have "slow s' j" if "j < n" "slow s j" for j
    using that late [OF i(1) _ that(1)] i(2) cpu by (auto simp: slow_def)
  then show "p \<in> dom (o_pcbs s') \<and> ld_owned (o_ld s') \<noteq> Some p \<and>
      (\<forall>j<n. j \<noteq> i \<longrightarrow> owned (o_cpu s' j) = Some p \<longrightarrow> slow s' j)"
    using c' dom ld cpu by auto
qed

lemma dev_ok_keep:
  assumes "dev_ok n s" and "o_cpu s' = o_cpu s" and "\<And>i. i < n \<Longrightarrow> t_place (devs (o_tm s') i) = t_place (devs (o_tm s) i)"
  shows "dev_ok n s'"
  using assms by (simp add: dev_ok_def)

text \<open>A turn of the timer moves no device, and while a device runs it releases none that has finished
  the current slot.\<close>

lemma timer_routine_place:
  "timer_routine t = Some t' \<Longrightarrow> t_place (devs t' d) = t_place (devs t d)"
  by (auto simp: timer_routine_def split: timer_pc.splits list.splits if_splits)

lemma timer_routine_late:
  assumes inv: "timer_inv t" and r: "timer_routine t = Some t'" and k: "k \<in> set (dev_list t)"
    and run: "t_place (devs t k) = Running" and j: "late t j"
  shows "late t' j"
proof -
  note p = timer_invD(5) [OF inv]
  show ?thesis
  proof (cases "tpc t")
    case (Scan rest fsh event)
    show ?thesis
    proof (cases rest)
      case Nil
      with p Scan k have "gone (devs t k) \<or> (in_step (ticks t) (devs t k) \<and> t_done (devs t k))" by auto
      then show ?thesis using run by (auto simp: gone_def in_step_def)
    next
      case (Cons x xs)
      with Scan r j show ?thesis by (auto simp: timer_routine_def late_def split: if_splits)
    qed
  next
    case (Release rest)
    show ?thesis
    proof (cases rest)
      case Nil
      with Release r j show ?thesis by (auto simp: timer_routine_def late_def)
    next
      case (Cons x xs)
      with Release p have x: "gone (devs t x) \<or> held (ticks t) (devs t x)" by auto
      then have "x \<noteq> j" using j by (auto simp: gone_def held_def late_def)
      then show ?thesis using Release Cons r j by (auto simp: timer_routine_def late_def)
    qed
  qed (use r j in \<open>auto simp: timer_routine_def late_def\<close>)
qed


lemma init_sched_facts:
  "sched_wf (init_scheduler zero_sched)" "i < MAX_PRIO \<Longrightarrow> ready_at (init_scheduler zero_sched) i = []"
proof -
  have z: "length (mlq_ready_queue zero_sched) = MAX_PRIO"
      "q \<in> set (mlq_ready_queue zero_sched) \<union> {ready_queue zero_sched, run_queue zero_sched, running_list zero_sched} \<Longrightarrow>
        length (q_proc q) = MAX_QUEUE_SIZE" for q
    by (auto simp: zero_sched_def zero_queue_def)
  show "sched_wf (init_scheduler zero_sched)" "i < MAX_PRIO \<Longrightarrow> ready_at (init_scheduler zero_sched) i = []"
    using init_scheduler_wf(1,2) [OF z] by blast+
qed

lemma init_os_inv:
  assumes "main env mram0 mswp0 = Inr s"
  shows "os_inv (num_cpus (e_cfg env)) s"
proof -
  let ?n = "num_cpus (e_cfg env)"
  from assms have s: "o_tm s = timer_init (Suc ?n)" "o_cpu s = (\<lambda>_. cpu0)" "o_ld s = LLoad 0"
      "o_sched s = init_scheduler zero_sched" "o_pcbs s = Map.empty"
    by (auto simp: main_def Let_def bindR_eq_Inr)
  have h: "holder ?n s = (\<lambda>_. None)" using s by (auto simp: holder_def owned_def ld_owned_def cpu0_def)
  have "own_inv (o_sched s) (o_pcbs s) (holder ?n s)" unfolding s h
    by (rule os_own_invI) (use init_sched_facts in auto)
  moreover have "timer_inv (o_tm s)" unfolding s by (rule timer_init_inv)
  ultimately show ?thesis
    by (auto simp: os_inv_def s cpu_shape_def cpu0_def dev_ok_def charge_inv_def fresh_dev_def)
qed

lemma os_step_inv:
  assumes st: "os_step env s s'" and env: "good_env env" "n = num_cpus (e_cfg env)" and inv: "os_inv n s"
  shows "os_inv n s'"
proof -
  note v = os_invD [OF inv]
  have dl: "dev_list (o_tm s) = rev [0..<Suc (num_cpus (e_cfg env))]" using v(2) env(2) by simp
  from os_step_timer [OF st dl] have tm: "timer_inv (o_tm s') \<and> dev_list (o_tm s') = rev [0..<Suc n]"
    using v(1,2) tstep_inv tstep_dev_list by metis
  have all: "os_inv n s'" if "own_inv (o_sched s') (o_pcbs s') (holder n s')" "\<And>i. cpu_shape (o_cpu s' i)"
      "dev_ok n s'" "charge_inv n s'"
    using that tm by (simp add: os_inv_def)
  have keep: "os_inv n s'" if "o_k s' = o_k s" "o_cpu s' = o_cpu s" "o_ld s' = o_ld s"
      "dev_ok n s'" "charge_inv n s'"
    using that v(3,4) by (intro all) (simp_all add: holder_def)
  from st show ?thesis
  proof cases
    case (cpu i)
    then have i: "i < n" using env by simp
    from cpu_routine_act [OF inv i cpu(2,3)] have act: "cpu_act i s s'" .
    show ?thesis
    proof (rule all)
      show "cpu_shape (o_cpu s' j)" for j
        using act_shape [OF act v(4)] cpu_act_others [OF act] v(4) by (cases "j = i") simp_all
    qed (use act_own [OF inv i act] act_dev_ok [OF act v(5) cpu(2)] act_charge [OF inv i cpu(2) act] in simp_all)
  next
    case (loader p)
    note o = ld_routine_own [OF inv env loader(2,3)] and c = ld_routine_cpu [OF loader(3)]
    have tmd: "devs (o_tm s') i = devs (o_tm s) i" "ticks (o_tm s') = ticks (o_tm s)" if "i < n" for i
      using ld_routine_tm [OF loader(3)] that env(2) by (auto simp: next_slot_done_def detach_event_def)
    show ?thesis
    proof (rule all)
      show "cpu_shape (o_cpu s' i)" for i using v(4) c by simp
      show "dev_ok n s'" using v(5) c by (rule dev_ok_keep) (simp add: tmd)
      show "charge_inv n s'" by (rule charge_inv_keep [OF v(6) c])
        (use o loader(2) tmd in \<open>auto simp: late_def\<close>)
    qed (use o in simp)
  next
    case (enter d t)
    then have t: "t = upd d (\<lambda>x. x\<lparr>t_place := Running, t_slots := t_slots x + 1\<rparr>) (o_tm s)" "\<not> late (o_tm s) d"
      by (auto simp: next_slot_enter_def late_def split: if_splits)
    show ?thesis
    proof (rule keep)
      show "dev_ok n s'" using v(5) enter(1,3) unfolding t(1) by (auto simp: dev_ok_def)
      show "charge_inv n s'" by (rule charge_inv_keep [OF v(6)])
        (use enter(1) t in \<open>auto simp: late_def\<close>)
    qed (use enter(1) in simp_all)
  next
    case (tick t)
    show ?thesis
    proof (rule keep)
      show "dev_ok n s'" by (rule dev_ok_keep [OF v(5)]) (use tick timer_routine_place in auto)
      show "charge_inv n s'"
      proof (rule charge_inv_keep [OF v(6)])
        fix i j assume i: "i < n" "c_pc (o_cpu s i) = CCharge" and j: "j < n" "late (o_tm s) j"
        have "t_place (devs (o_tm s) i) = Running" using v(5) i by (cases "t_place (devs (o_tm s) i)") (auto simp: dev_ok_def)
        with timer_routine_late [OF v(1) tick(2) _ _ j(2), of i] v(2) i show "late (o_tm s') j" by (simp add: tick(1))
      qed (use tick in simp_all)
    qed (use tick in simp_all)
  next
    case stop
    show ?thesis
    proof (rule keep)
      show "dev_ok n s'" by (rule dev_ok_keep [OF v(5)]) (use stop in \<open>simp_all add: stop_timer_flag_def\<close>)
      show "charge_inv n s'" by (rule charge_inv_keep [OF v(6)])
        (use stop in \<open>auto simp: stop_timer_flag_def late_def\<close>)
    qed (use stop in simp_all)
  qed
qed

lemma os_reach_inv: "os_reach env s \<Longrightarrow> good_env env \<Longrightarrow> os_inv (num_cpus (e_cfg env)) s"
  by (induction rule: os_reach.induct) (auto intro: init_os_inv os_step_inv)

section \<open>No process is left behind\<close>

text \<open>
  A processor is idle while it has found the queues empty and has not yet looked at the flag \<open>done\<close>.
  When a process waits, some processor will still look at the queues; or all of them are
  idle, but then the loader has just added the process and cannot raise the flag in this slot.
\<close>

definition cpu_idle :: "cpu_t \<Rightarrow> bool" where
  "cpu_idle c \<longleftrightarrow> c_pc c = CNone \<or> (c_pc c = CCheck \<and> c_proc c = None)"

definition cpu_ended :: "cpu_t \<Rightarrow> bool" where
  "cpu_ended c \<longleftrightarrow> c_pc c \<in> {CDetach, CStopped}"

definition cpu_active :: "cpu_t \<Rightarrow> bool" where
  "cpu_active c \<longleftrightarrow> \<not> cpu_idle c \<and> \<not> cpu_ended c"

definition served :: "nat \<Rightarrow> os_t \<Rightarrow> bool" where
  "served n s \<longleftrightarrow> (\<exists>i<n. cpu_active (o_cpu s i)) \<or>
     (\<not> o_done s \<and> (\<exists>i<n. cpu_idle (o_cpu s i)) \<and> (o_ld s \<in> range LNext \<or> late (o_tm s) n))"

definition end_inv :: "nat \<Rightarrow> os_t \<Rightarrow> bool" where
  "end_inv n s \<longleftrightarrow> (\<forall>i<n. cpu_ended (o_cpu s i) \<longrightarrow> o_done s) \<and>
     (o_done s \<longleftrightarrow> o_ld s \<in> {LDetach, LEnded}) \<and> (all_ready (o_sched s) \<noteq> {} \<longrightarrow> served n s)"

lemmas cpu_phase_defs = cpu_active_def cpu_idle_def cpu_ended_def

lemma act_active:
  assumes act: "cpu_act i s s'" and "cpu_active (o_cpu s i)" and "cpu_shape (o_cpu s i)"
  shows "cpu_active (o_cpu s' i) \<or> (all_ready (o_sched s) = {} \<and> o_sched s' = o_sched s)"
  using act
proof cases
  case (local c)
  with assms(2,3) show ?thesis
    unfolding local_moves_def by (elim insertE emptyE; simp add: cpu_phase_defs cpu_shape_def)
qed (use assms(2,3) in \<open>simp_all add: cpu_phase_defs\<close>)

lemma act_idle:
  assumes act: "cpu_act i s s'" and idle: "cpu_idle (o_cpu s i)"
  shows "cpu_active (o_cpu s' i) \<or> (o_done s \<and> cpu_ended (o_cpu s' i))"
  using act
proof cases
  case (local c)
  with idle show ?thesis
    unfolding local_moves_def by (elim insertE emptyE; simp add: cpu_phase_defs cpu_shape_def)
next
  case (idle c)
  with assms(2) show ?thesis by (auto simp: cpu_phase_defs fetches_def)
qed (use idle in \<open>auto simp: cpu_phase_defs fetches_def\<close>)


lemma end_invD:
  assumes "end_inv n s"
  shows "i < n \<Longrightarrow> cpu_ended (o_cpu s i) \<Longrightarrow> o_done s" "o_done s \<longleftrightarrow> o_ld s \<in> {LDetach, LEnded}"
    "all_ready (o_sched s) \<noteq> {} \<Longrightarrow> served n s"
  using assms unfolding end_inv_def by blast+

lemma phases: "cpu_active c \<or> cpu_idle c \<or> cpu_ended c"
  by (auto simp: cpu_active_def)

lemma act_ended:
  assumes act: "cpu_act i s s'" and "cpu_ended (o_cpu s' i)"
  shows "o_done s \<or> cpu_ended (o_cpu s i)"
  using act
proof cases
  case (local c)
  with assms(2) show ?thesis by (auto simp: cpu_ended_def local_moves_def)
qed (use assms(2) in \<open>simp_all add: cpu_ended_def split: if_splits\<close>)

text \<open>A step of a processor makes work waiting only by putting its own process back.\<close>

lemma act_ready:
  assumes inv: "os_inv n s" and i: "i < n" and act: "cpu_act i s s'" and ne: "all_ready (o_sched s') \<noteq> {}"
  shows "all_ready (o_sched s) \<noteq> {} \<or> cpu_active (o_cpu s' i)"
proof -
  note v = os_invD(3) [OF inv]
  from act show ?thesis
  proof cases
    case (take p sc c)
    then show ?thesis using os_own_take(3) [OF v take(3)] ne by auto
  next
    case (finish p pr u sc)
    then show ?thesis using os_own_charge(2) [OF v finish(4)] ne by auto
  next
    case (charge pr u sc)
    then show ?thesis using os_own_charge(2) [OF v charge(3)] ne by auto
  next
    case (put p b)
    then show ?thesis by (simp add: cpu_phase_defs)
  qed (use ne in simp_all)
qed

lemma act_end_inv:
  assumes inv: "os_inv n s" and e: "end_inv n s" and i: "i < n" and act: "cpu_act i s s'"
  shows "end_inv n s'"
proof -
  note o = cpu_act_others [OF act] and sh = os_invD(4) [OF inv, of i]
  have ended: "o_done s" if "cpu_ended (o_cpu s' i)"
    using act_ended [OF act that] end_invD(1) [OF e i] by blast
  have "served n s'" if ne: "all_ready (o_sched s') \<noteq> {}"
  proof (cases "all_ready (o_sched s) = {}")
    case True
    with act_ready [OF inv i act ne] i show ?thesis by (auto simp: served_def)
  next
    case False
    then have sv: "served n s" by (rule end_invD(3) [OF e])
    show ?thesis
    proof (cases "\<exists>j<n. cpu_active (o_cpu s j)")
      case True
      then obtain j where j: "j < n" "cpu_active (o_cpu s j)" by blast
      have "cpu_active (o_cpu s' j)"
      proof (cases "j = i")
        case True
        with act_active [OF act _ sh] j False show ?thesis by blast
      qed (use o j in simp)
      with j show ?thesis by (auto simp: served_def)
    next
      case none: False
      with sv have nd: "\<not> o_done s" by (auto simp: served_def)
      with end_invD(1) [OF e i] none i have "cpu_idle (o_cpu s i)" using phases by blast
      with act_idle [OF act] nd i show ?thesis by (auto simp: served_def)
    qed
  qed
  moreover have "o_done s'" if "j < n" "cpu_ended (o_cpu s' j)" for j
    using that ended o end_invD(1) [OF e that(1)] by (cases "j = i") auto
  ultimately show ?thesis using o end_invD(2) [OF e] unfolding end_inv_def by simp
qed

text \<open>The loader: while it is running in its last slot, only a processor that is not idle can have been
  given the work that waits.\<close>

lemma ld_end_inv:
  assumes inv: "os_inv n s" and e: "end_inv n s" and n: "0 < n" "n = num_cpus (e_cfg env)"
    and run: "is_running n s" and r: "ld_routine env p s = Inr (Returns s')"
  shows "end_inv n s'"
proof -
  note c = ld_routine_cpu [OF r] and d = end_invD [OF e]
  have nl: "\<not> late (o_tm s) n" using run by (simp add: late_def is_running_def)
  have keep: "end_inv n s'" if "o_sched s' = o_sched s" "o_done s \<longrightarrow> o_done s'"
      "o_done s' \<longleftrightarrow> o_ld s' \<in> {LDetach, LEnded}" "o_ld s \<notin> range LNext"
    using that d c nl unfolding end_inv_def served_def by auto
  show ?thesis
  proof (cases "o_ld s")
    case (LLoad i)
    show ?thesis
    proof (cases "i < length (ld_processes (e_cfg env))")
      case True
      with r LLoad have "ld_load env p i s = Inr (Returns s')" by (simp add: ld_routine_def)
      then show ?thesis using d(2) LLoad by (elim ld_load_Returns) (intro keep; auto)
    next
      case False
      with r LLoad have "s' = s\<lparr>o_done := True, o_ld := LDetach\<rparr>" by (simp add: ld_routine_def)
      with LLoad show ?thesis by (intro keep) auto
    qed
  next
    case (LWait i q)
    show ?thesis
    proof (cases "current_time (o_tm s) < l_start (ld_processes (e_cfg env) ! i)")
      case True
      with r LWait have "s' = s\<lparr>o_tm := next_slot_done (num_cpus (e_cfg env)) (o_tm s)\<rparr>" by (simp add: ld_routine_def)
      with LWait d(2) show ?thesis by (intro keep) auto
    next
      case False
      with r LWait have "ld_add env q i s = Inr (Returns s')" by (simp add: ld_routine_def)
      then have s': "o_ld s' = LNext (i + 1)" "o_done s' = o_done s" by (elim ld_add_Returns, simp)+
      have nd: "\<not> o_done s" using d(2) LWait by simp
      have "\<not> cpu_ended (o_cpu s 0)" using d(1) [OF n(1)] nd by blast
      then have "served n s'" using n(1) s' c nd phases [of "o_cpu s 0"] by (auto simp: served_def)
      with s' c nd d(1) show ?thesis unfolding end_inv_def by auto
    qed
  next
    case (LNext i)
    with r n have s': "s' = s\<lparr>o_tm := next_slot_done n (o_tm s), o_ld := LLoad i\<rparr>" by (simp add: ld_routine_def)
    note t = timer_invD [OF os_invD(1) [OF inv]]
    have m: "n \<in> set (dev_list (o_tm s))" using os_invD(2) [OF inv] by simp
    have rn: "t_place (devs (o_tm s) n) = Running" using run by (simp add: is_running_def)
    then have "alive (devs (o_tm s) n)" using t(3) m by (auto simp: gone_def)
    from pc_inv_slots(2) [OF t(5) m this rn] have "late (o_tm s') n" by (simp add: s' late_def next_slot_done_def)
    then show ?thesis using d s' LNext unfolding end_inv_def served_def by auto
  next
    case LDetach
    with r have "s' = s\<lparr>o_tm := detach_event (num_cpus (e_cfg env)) (o_tm s), o_ld := LEnded\<rparr>" by (simp add: ld_routine_def)
    with LDetach d(2) show ?thesis by (intro keep) auto
  next
    case LEnded
    with r have "s' = s" by (simp add: ld_routine_def)
    with e show ?thesis by simp
  qed
qed

lemma end_inv_keep:
  assumes e: "end_inv n s" and same: "o_cpu s' = o_cpu s" "o_k s' = o_k s" "o_done s' = o_done s" "o_ld s' = o_ld s"
    and late: "\<And>i. i < n \<Longrightarrow> cpu_idle (o_cpu s i) \<Longrightarrow> late (o_tm s) n \<Longrightarrow> late (o_tm s') n"
  shows "end_inv n s'"
proof -
  have "served n s \<Longrightarrow> served n s'" using same late by (auto simp: served_def)
  then show ?thesis using e same unfolding end_inv_def by auto
qed

lemma os_step_end_inv:
  assumes st: "os_step env s s'" and n: "0 < n" "n = num_cpus (e_cfg env)"
    and inv: "os_inv n s" and e: "end_inv n s"
  shows "end_inv n s'"
proof -
  note v = os_invD [OF inv]
  from st show ?thesis
  proof cases
    case (cpu i)
    with n have "i < n" by simp
    with act_end_inv [OF inv e] cpu_routine_act [OF inv _ cpu(2,3)] show ?thesis by blast
  next
    case (loader p)
    with ld_end_inv [OF inv e n] n show ?thesis by blast
  next
    case (enter d t)
    then have "t = upd d (\<lambda>x. x\<lparr>t_place := Running, t_slots := t_slots x + 1\<rparr>) (o_tm s)" "\<not> late (o_tm s) d"
      by (auto simp: next_slot_enter_def late_def split: if_splits)
    then show ?thesis using enter(1) by (intro end_inv_keep [OF e]) (auto simp: late_def)
  next
    case (tick t)
    show ?thesis
    proof (rule end_inv_keep [OF e])
      fix i assume i: "i < n" "cpu_idle (o_cpu s i)" and l: "late (o_tm s) n"
      have "t_place (devs (o_tm s) i) = Running"
        using v(5) i by (cases "t_place (devs (o_tm s) i)") (auto simp: dev_ok_def cpu_idle_def)
      with timer_routine_late [OF v(1) tick(2) _ _ l, of i] v(2) i show "late (o_tm s') n" by (simp add: tick(1))
    qed (use tick in simp_all)
  next
    case stop
    then show ?thesis by (intro end_inv_keep [OF e]) (auto simp: stop_timer_flag_def late_def)
  qed
qed

lemma os_reach_end_inv:
  "os_reach env s \<Longrightarrow> good_env env \<Longrightarrow> 0 < num_cpus (e_cfg env) \<Longrightarrow> end_inv (num_cpus (e_cfg env)) s"
proof (induction rule: os_reach.induct)
  case (boot mram0 mswp0 s)
  then have "o_cpu s = (\<lambda>_. cpu0)" "o_ld s = LLoad 0" "\<not> o_done s" by (auto simp: main_def Let_def bindR_eq_Inr)
  then show ?case using boot(3) by (auto simp: end_inv_def served_def cpu_phase_defs cpu0_def)
next
  case (step s s')
  then show ?case using os_step_end_inv [OF step(2) _ refl] os_reach_inv by blast
qed

end
