(* ===== verification/Isolation.thy ===== *)
theory Isolation imports Machine begin

text \<open>
  The memory of the processes under every interleaving of the machine of theory \<open>Os\<close>: the invariant of
  theory \<open>Cpu\<close> for one instruction is carried through the loader, the scheduler and all processors.
\<close>

section \<open>The invariant of memory and devices\<close>

definition dev_inv :: "kernel \<Rightarrow> bool" where
  "dev_inv k \<longleftrightarrow> ram_inv (k_mram k) \<and> length (k_mswp k) = PAGING_MAX_MMSWP \<and>
     (\<forall>i < PAGING_MAX_MMSWP. swap_ok (k_mswp k ! i))"

definition mem_inv :: "kernel \<Rightarrow> bool" where
  "mem_inv k \<longleftrightarrow> dev_inv k \<and> kernel_inv k"

text \<open>A descriptor as \<open>init_mm\<close> leaves it in memory where no page table entry is marked present.\<close>

definition new_mm :: "mm_struct \<Rightarrow> bool" where
  "new_mm m \<longleftrightarrow> (\<forall>p. \<not> online m p) \<and> fifo_pgn m = Null \<and> heap_inv m"

lemma proc_inv_dev: "proc_inv others (ctx_of k b m) \<Longrightarrow> dev_inv k"
  by (simp add: proc_inv_def frames_inv_def swaps_ok_def ctx_of_def dev_inv_def)

lemma proc_inv_mono: "proc_inv others c \<Longrightarrow> others' \<subseteq> others \<Longrightarrow> proc_inv others' c"
  unfolding proc_inv_def frames_inv_def by auto

lemma pmapped_free: "kernel_inv k \<Longrightarrow> pmapped (k_pcbs k) q \<inter> set (free_frames (k_mram k)) = {}"
  by (auto simp: pmapped_def proc_inv_def frames_inv_def ctx_of_def split: option.splits dest!: kernel_invD)

lemma others_free: "kernel_inv k \<Longrightarrow> others_of (k_pcbs k) q \<inter> set (free_frames (k_mram k)) = {}"
  using pmapped_free by (fastforce simp: others_of_def)

lemma proc_inv_new:
  assumes "dev_inv k" and "new_mm m" and "active_mswp b < PAGING_MAX_MMSWP"
    and "others \<inter> set (free_frames (k_mram k)) = {}"
  shows "proc_inv others (ctx_of k b m)"
  using assms
  by (auto simp: proc_inv_def frames_inv_def dev_inv_def new_mm_def ctx_of_def swaps_ok_def fifo_inv_def mapped_def)

text \<open>A step that leaves the devices alone and gives no process pages it did not have.\<close>

definition same_pages :: "pcbs \<Rightarrow> pcbs \<Rightarrow> bool" where
  "same_pages h h' \<longleftrightarrow> (\<forall>q b' m. h' q = Some b' \<longrightarrow> mm b' = Some m \<longrightarrow>
     (\<exists>b. h q = Some b \<and> mm b = Some m \<and> active_mswp b = active_mswp b' \<and> active_mswp_id b = active_mswp_id b') \<or>
     new_mm m \<and> active_mswp b' < PAGING_MAX_MMSWP)"

lemma same_pagesE:
  assumes "same_pages h h'" and "h' q = Some b'" and "mm b' = Some m"
  obtains (old) b where "h q = Some b" "mm b = Some m" "active_mswp b = active_mswp b'"
      "active_mswp_id b = active_mswp_id b'"
    | (new) "new_mm m" "active_mswp b' < PAGING_MAX_MMSWP"
  using assms unfolding same_pages_def by blast

lemma pmapped_cases: "x \<in> pmapped h q \<Longrightarrow> \<exists>b m. h q = Some b \<and> mm b = Some m \<and> x \<in> mapped m"
  by (simp add: pmapped_def split: option.splits)

lemma same_pages_pmapped:
  assumes s: "same_pages h h'"
  shows "pmapped h' q \<subseteq> pmapped h q"
proof
  fix x assume "x \<in> pmapped h' q"
  then obtain b' m where b': "h' q = Some b'" "mm b' = Some m" and x: "x \<in> mapped m"
    by (blast dest: pmapped_cases)
  from s b' show "x \<in> pmapped h q"
  proof (cases rule: same_pagesE)
    case (old b)
    with x show ?thesis by (simp add: pmapped_def)
  next
    case new
    with x show ?thesis by (auto simp: new_mm_def mapped_def)
  qed
qed

lemma mem_inv_pcbs:
  assumes inv: "mem_inv k" and d: "k_mram k' = k_mram k" "k_mswp k' = k_mswp k"
    and s: "same_pages (k_pcbs k) (k_pcbs k')"
  shows "mem_inv k'"
proof -
  have ki: "kernel_inv k" and di: "dev_inv k'" using inv d by (simp_all add: mem_inv_def dev_inv_def)
  have "pmapped (k_pcbs k') q \<subseteq> pmapped (k_pcbs k) q" for q using s by (rule same_pages_pmapped)
  then have os: "others_of (k_pcbs k') q \<subseteq> others_of (k_pcbs k) q" for q
    unfolding others_of_def by blast
  have "kernel_inv k'" unfolding kernel_inv_def
  proof (intro allI impI)
    fix q b' m assume q: "k_pcbs k' q = Some b'" "mm b' = Some m"
    with s show "proc_inv (others_of (k_pcbs k') q) (ctx_of k' b' m)"
    proof (cases rule: same_pagesE)
      case (old b)
      then have "ctx_of k' b' m = ctx_of k b m" using d by (simp add: ctx_of_def)
      with kernel_invD [OF ki old(1,2)] os show ?thesis by (metis proc_inv_mono)
    next
      case new
      moreover have "others_of (k_pcbs k') q \<inter> set (free_frames (k_mram k')) = {}"
        using others_free [OF ki, of q] os [of q] d(1) by auto
      ultimately show ?thesis using di by (intro proc_inv_new)
    qed
  qed
  with di show ?thesis by (simp add: mem_inv_def)
qed

lemma same_pages_refl [simp]: "same_pages h h"
  by (simp add: same_pages_def)

lemma same_pages_drop: "same_pages h (h(p := None))"
  by (simp add: same_pages_def)

lemma same_pages_upd:
  assumes "h p = Some b" "mm b' = mm b" "active_mswp b' = active_mswp b" "active_mswp_id b' = active_mswp_id b"
  shows "same_pages h (h(p \<mapsto> b'))"
  using assms by (auto simp: same_pages_def)

lemma same_pages_add:
  assumes "\<And>m. mm b' = Some m \<Longrightarrow> new_mm m \<and> active_mswp b' < PAGING_MAX_MMSWP"
  shows "same_pages h (h(p \<mapsto> b'))"
  using assms by (auto simp: same_pages_def)

section \<open>An instruction\<close>

text \<open>The instruction a process is about to execute, if it has one left, stays inside its memory.\<close>

definition cautious :: "kernel \<Rightarrow> pcb_t \<Rightarrow> bool" where
  "cautious k b \<longleftrightarrow> pc b < c_size (code b) \<longrightarrow> (case mm b of
     None \<Rightarrow> \<not> (opcode (next_ins b) = SYSCALL \<and> arg_0 (next_ins b) \<in> {17, 101})
   | Some m \<Rightarrow> safe_ins (ctx_of k b m) (next_ins b))"

lemma run_without_mm:
  assumes p: "k_pcbs k p = Some b" "mm b = None" and more: "pc b < c_size (code b)" and c: "cautious k b"
    and r: "run z p k = Inr (st, out, k')"
  shows "k' = k\<lparr>k_pcbs := (k_pcbs k)(p \<mapsto> b\<lparr>pc := pc b + 1\<rparr>)\<rparr>"
proof -
  from p r more have "exec_ins z p (next_ins b) (k\<lparr>k_pcbs := (k_pcbs k)(p \<mapsto> b\<lparr>pc := pc b + 1\<rparr>)\<rparr>) = Inr (st, out, k')"
    by (auto simp: run_def deref_Some next_ins_def split: if_splits)
  with p c more show ?thesis
    by (cases "opcode (next_ins b)")
      (auto simp: exec_ins_def with_ctx_def deref_Some cautious_def libsyscall_def syscall_def bindR_eq_Inr
        sys_listsyscall_def sys_xxxhandler_def split: if_splits)
qed

lemma run_mem_inv:
  assumes inv: "mem_inv k" and p: "k_pcbs k p = Some b" and c: "cautious k b"
    and r: "run z p k = Inr (st, out, k')"
  shows "mem_inv k' \<and> (\<forall>q. q \<noteq> p \<longrightarrow> k_pcbs k' q = k_pcbs k q) \<and>
    (\<forall>a. a div 256 \<in> others_of (k_pcbs k) p \<longrightarrow> storage (k_mram k') a = storage (k_mram k) a)"
proof -
  have ki: "kernel_inv k" using inv by (simp add: mem_inv_def)
  consider "c_size (code b) \<le> pc b" | "pc b < c_size (code b)" "mm b = None"
    | m where "pc b < c_size (code b)" "mm b = Some m" by fastforce
  then show ?thesis
  proof cases
    case 1
    with p r inv show ?thesis by (simp add: run_def deref_Some)
  next
    case 2
    from run_without_mm [OF p 2(2,1) c r] have k': "k' = k\<lparr>k_pcbs := (k_pcbs k)(p \<mapsto> b\<lparr>pc := pc b + 1\<rparr>)\<rparr>" .
    have "mem_inv k'" using p unfolding k' by (intro mem_inv_pcbs [OF inv]) (auto intro: same_pages_upd)
    with k' show ?thesis by simp
  next
    case 3
    with c have "safe_ins (ctx_of k b m) (next_ins b)" by (simp add: cautious_def)
    from run_keeps [OF ki p 3(2) this r] show ?thesis
      by (auto simp: mem_inv_def intro: proc_inv_dev kernel_invD)
  qed
qed

section \<open>The threads\<close>

text \<open>Every processor that is about to run has a cautious process.\<close>

definition all_cautious :: "os_env \<Rightarrow> os_t \<Rightarrow> bool" where
  "all_cautious env s \<longleftrightarrow> (\<forall>i<num_cpus (e_cfg env). \<forall>p b. c_pc (o_cpu s i) = CRun \<longrightarrow>
     c_proc (o_cpu s i) = Some p \<longrightarrow> o_pcbs s p = Some b \<longrightarrow> cautious (o_k s) b)"

lemma kernel_upd [simp]:
  "o_k (set_cpu i c s) = o_k s" "o_k (set_sched sc s) = (o_k s)\<lparr>k_sched := sc\<rparr>"
  "o_k (set_pcbs h s) = (o_k s)\<lparr>k_pcbs := h\<rparr>"
  by (simp_all add: set_cpu_def set_sched_def set_pcbs_def)

text \<open>What a processor may do to the memory of the processes it does not hold: nothing.\<close>

definition touches_only :: "pcb_ref option \<Rightarrow> kernel \<Rightarrow> kernel \<Rightarrow> bool" where
  "touches_only r k k' \<longleftrightarrow> mem_inv k' \<and> (\<forall>q. r \<noteq> Some q \<longrightarrow> k_pcbs k' q = k_pcbs k q \<and>
     (\<forall>a. a div 256 \<in> pmapped (k_pcbs k) q \<longrightarrow> storage (k_mram k') a = storage (k_mram k) a))"

lemma touches_pcb:
  assumes "mem_inv k" and "k_mram k' = k_mram k" "k_mswp k' = k_mswp k"
    and "same_pages (k_pcbs k) (k_pcbs k')" and "\<And>q. r \<noteq> Some q \<Longrightarrow> k_pcbs k' q = k_pcbs k q"
  shows "touches_only r k k'"
  using assms mem_inv_pcbs [OF assms(1-4)] by (simp add: touches_only_def)

lemma put_proc_same_pages:
  assumes "put_proc p h s = Inr (h', s')"
  shows "same_pages h h' \<and> (\<forall>q. q \<noteq> p \<longrightarrow> h' q = h q)"
  using assms by (auto elim!: put_proc_InrE intro!: same_pages_upd)

lemma cpu_top_touches:
  assumes inv: "mem_inv (o_k s)" and t: "cpu_top i c s = Inr s'"
  shows "touches_only (c_proc c) (o_k s) (o_k s')"
proof -
  from t obtain p b where "the_proc c s = Inr (p, b)" by (auto simp: cpu_top_def bindR_eq_Inr)
  then have p: "c_proc c = Some p" by (auto simp: the_proc_def bindR_eq_Inr split: option.splits)
  have "k_mram (o_k s') = k_mram (o_k s) \<and> k_mswp (o_k s') = k_mswp (o_k s) \<and>
      (o_pcbs s' = o_pcbs s \<or> (\<exists>sc. put_proc p (o_pcbs s) (o_sched s) = Inr (o_pcbs s', sc)))"
    using t p by (auto simp: cpu_top_def the_proc_def bindR_eq_Inr split: if_splits)
  moreover from this have "same_pages (o_pcbs s) (o_pcbs s') \<and> (\<forall>q. q \<noteq> p \<longrightarrow> o_pcbs s' q = o_pcbs s q)"
    by (auto dest: put_proc_same_pages)
  ultimately show ?thesis using p by (intro touches_pcb [OF inv]) auto
qed

lemma cpu_run_touches:
  assumes inv: "mem_inv (o_k s)" and r: "cpu_run z i c s = Inr s'"
    and safe: "\<And>p b. c_proc c = Some p \<Longrightarrow> o_pcbs s p = Some b \<Longrightarrow> cautious (o_k s) b"
  shows "touches_only (c_proc c) (o_k s) (o_k s')"
proof -
  from r obtain p b st out where p: "c_proc c = Some p" "o_pcbs s p = Some b"
      and e: "run z p (o_k s) = Inr (st, out, o_k s')"
    by (auto simp: cpu_run_def the_proc_def bindR_eq_Inr split: option.splits)
  from run_mem_inv [OF inv p(2) safe [OF p] e] p(1) show ?thesis
    by (auto simp: touches_only_def others_of_def)
qed

lemma cpu_routine_touches:
  assumes inv: "mem_inv (o_k s)" and r: "cpu_routine env i s = Some (Inr s')"
    and safe: "all_cautious env s" and i: "i < num_cpus (e_cfg env)"
  shows "touches_only (c_proc (o_cpu s i)) (o_k s) (o_k s')"
proof (cases "c_pc (o_cpu s i) = CTop \<and> c_proc (o_cpu s i) \<noteq> None \<or> c_pc (o_cpu s i) = CRun")
  case True
  then show ?thesis
  proof
    assume "c_pc (o_cpu s i) = CTop \<and> c_proc (o_cpu s i) \<noteq> None"
    with r show ?thesis by (intro cpu_top_touches [OF inv]) (auto simp: cpu_routine_def)
  next
    assume run: "c_pc (o_cpu s i) = CRun"
    with r have "cpu_run (e_zeroed env) i (o_cpu s i) s = Inr s'" by (simp add: cpu_routine_def)
    with inv show ?thesis
      by (rule cpu_run_touches) (use run safe i in \<open>auto simp: all_cautious_def\<close>)
  qed
next
  case False
  with r have "k_mram (o_k s') = k_mram (o_k s)" "k_mswp (o_k s') = k_mswp (o_k s)"
    "o_pcbs s' = o_pcbs s \<or> (\<exists>p. c_proc (o_cpu s i) = Some p \<and> o_pcbs s' = (o_pcbs s)(p := None))"
    by (cases "c_pc (o_cpu s i)";
        auto simp: cpu_routine_def cpu_fetch_def cpu_check_def the_proc_def bindR_eq_Inr Let_def
          split: option.splits if_splits)+
  with inv show ?thesis by (intro touches_pcb) (auto intro: same_pages_drop)
qed

text \<open>
  Fresh memory: a control block from \<open>malloc\<close> has no descriptor yet, and what \<open>init_mm\<close> leaves
  uninitialised reads as an empty page table and an empty list of pages.  A device has at least two
  pages, or what \<open>MEMPHY_format\<close> leaves uninitialised reads as NULL.
\<close>

definition clean_size :: "bool \<Rightarrow> int \<Rightarrow> bool" where
  "clean_size z sz \<longleftrightarrow> 0 \<le> sz \<and> (z \<or> sz < 256 \<or> 512 \<le> sz)"

definition clean_env :: "os_env \<Rightarrow> bool" where
  "clean_env env \<longleftrightarrow>
     (\<forall>i. mm (e_pcb0 env i) = None \<and> (\<forall>p. \<not> PAGING_PAGE_PRESENT (e_pgd0 env i p)) \<and>
       fifo_pgn (e_mm0 env i) = Null \<and> length (symrgtbl (e_mm0 env i)) = 30) \<and>
     clean_size (e_zeroed env) (memramsz (e_cfg env)) \<and> memramsz (e_cfg env) \<le> 2097152 \<and>
     length (memswpsz (e_cfg env)) = PAGING_MAX_MMSWP \<and>
     list_all (clean_size (e_zeroed env)) (memswpsz (e_cfg env))"

lemma init_mm_new:
  assumes "\<forall>p. \<not> PAGING_PAGE_PRESENT (pgd0 p)" and "fifo_pgn mm0 = Null" and "length (symrgtbl mm0) = 30"
  shows "new_mm (init_mm z pgd0 mm0)"
  using assms by (simp add: new_mm_def init_mm_def Let_def online_def heap_inv_def)

lemma load_mm: "load pcb0 text0 n fname src = Inr (Returns b, n') \<Longrightarrow> mm b = mm pcb0"
  by (erule load_Returns) simp

lemma ld_routine_mem:
  assumes inv: "mem_inv (o_k s)" and clean: "clean_env env" and fresh: "p \<notin> dom (o_pcbs s)"
    and r: "ld_routine env p s = Inr (Returns s')"
  shows "mem_inv (o_k s') \<and> storage (k_mram (o_k s')) = storage (k_mram (o_k s))"
proof -
  have new: "new_mm (init_mm (e_zeroed env) (e_pgd0 env i) (e_mm0 env i))" "mm (e_pcb0 env i) = None" for i
    using clean by (auto simp: clean_env_def intro: init_mm_new)
  have "k_mram (o_k s') = k_mram (o_k s) \<and> k_mswp (o_k s') = k_mswp (o_k s) \<and>
      same_pages (o_pcbs s) (o_pcbs s')"
  proof (cases "o_ld s")
    case (LLoad i)
    show ?thesis
    proof (cases "i < length (ld_processes (e_cfg env))")
      case True
      with r LLoad have "ld_load env p i s = Inr (Returns s')" by (simp add: ld_routine_def)
      then obtain b n where "load (e_pcb0 env i) (e_text0 env i) (o_pid s) (l_path (ld_processes (e_cfg env) ! i))
          (e_file env (l_path (ld_processes (e_cfg env) ! i))) = Inr (Returns b, n)"
        and s': "s' = set_pcbs ((o_pcbs s)(p \<mapsto> b\<lparr>prio := nat (to_u32 (l_prio (ld_processes (e_cfg env) ! i)))\<rparr>))
          (s\<lparr>o_pid := n, o_ld := LWait i p\<rparr>)" by (rule ld_load_Returns)
      then have "mm b = None" using new(2) load_mm by metis
      then show ?thesis unfolding s' by (auto intro: same_pages_add)
    next
      case False
      with r LLoad show ?thesis by (auto simp: ld_routine_def)
    qed
  next
    case (LWait i q)
    show ?thesis
    proof (cases "current_time (o_tm s) < l_start (ld_processes (e_cfg env) ! i)")
      case True
      with r LWait show ?thesis by (auto simp: ld_routine_def Let_def)
    next
      case False
      with r LWait have "ld_add env q i s = Inr (Returns s')" by (simp add: ld_routine_def Let_def)
      then obtain b h sc where b: "o_pcbs s q = Some b"
          and a: "add_proc q ((o_pcbs s)(q \<mapsto> b\<lparr>mm := Some (init_mm (e_zeroed env) (e_pgd0 env i) (e_mm0 env i)),
            active_mswp := 0\<rparr>)) (o_sched s) = Inr (h, sc)"
          and s': "s' = set_pcbs h (set_sched sc (s\<lparr>o_ld := LNext (i + 1)\<rparr>))"
        by (auto simp: ld_add_def Let_def bindR_eq_Inr)
      from a have "h = (o_pcbs s)(q \<mapsto> b\<lparr>mm := Some (init_mm (e_zeroed env) (e_pgd0 env i) (e_mm0 env i)),
          active_mswp := 0, queues_set := True\<rparr>)" by (auto elim: add_proc_InrE)
      then show ?thesis using new unfolding s' by (auto intro!: same_pages_add simp: PAGING_MAX_MMSWP_def)
    qed
  qed (use r in \<open>auto simp: ld_routine_def Let_def\<close>)
  then show ?thesis using inv mem_inv_pcbs [OF inv] by auto
qed

section \<open>The start\<close>

lemma init_memphy_clean:
  assumes "init_memphy z mp sz 1 = Inr mp'" and "clean_size z sz" and "free_fp_list mp = Null"
  shows "ram_ok mp' \<and> pool_ok mp' \<and> distinct (free_frames mp') \<and> set (free_frames mp') \<subseteq> real_frames mp' \<and>
    maxsz mp' = sz"
proof -
  have sz: "0 \<le> sz" using assms(2) by (simp add: clean_size_def)
  from init_memphy_free_list [OF sz, of z mp 1] assms(1,3)
  have f: "free_fp_list mp' = (if sz < 256 then Null else if sz < 512 then Node 0 (fresh_ptr z)
      else chain_of [0..sz div 256 - 1])" and r: "rdmflg mp' \<noteq> 0" "maxsz mp' = sz" by auto
  have one: "sz < 512 \<Longrightarrow> \<not> sz < 256 \<Longrightarrow> z \<and> 0 < sz div 256" using assms(2) by (auto simp: clean_size_def)
  consider "sz < 256" | "\<not> sz < 256" "sz < 512" | "\<not> sz < 512" by blast
  then show ?thesis
    by cases (use f r one in \<open>auto simp: ram_ok_def pool_ok_def free_frames_def real_frames_def\<close>)
qed

lemma init_devices_clean:
  assumes "init_devices z mps szs = Inr ds" and "list_all (clean_size z) szs"
    and "list_all (\<lambda>d. free_fp_list d = Null) mps"
  shows "length ds = min (length mps) (length szs) \<and> list_all swap_ok ds"
  using assms
proof (induction z mps szs arbitrary: ds rule: init_devices.induct)
  case (1 z mp mps sz szs)
  then obtain d ds' where d: "init_memphy z mp sz 1 = Inr d" "init_devices z mps szs = Inr ds'" "ds = d # ds'"
    by (auto simp: bindR_eq_Inr)
  with 1 show ?case using init_memphy_clean [OF d(1)] by (auto simp: swap_ok_def)
qed auto

text \<open>The machine as long as no processor executes an instruction that leaves the memory of its process.\<close>

inductive iso_reach :: "os_env \<Rightarrow> os_t \<Rightarrow> bool" for env where
  boot: "main env mram0 mswp0 = Inr s \<Longrightarrow> length mswp0 = PAGING_MAX_MMSWP \<Longrightarrow>
    list_all (\<lambda>d. free_fp_list d = Null) (mram0 # mswp0) \<Longrightarrow> iso_reach env s"
| step: "iso_reach env s \<Longrightarrow> all_cautious env s \<Longrightarrow> os_step env s s' \<Longrightarrow> iso_reach env s'"

lemma main_mem_inv:
  assumes m: "main env mram0 mswp0 = Inr s" and c: "clean_env env"
    and d: "length mswp0 = PAGING_MAX_MMSWP" "list_all (\<lambda>d. free_fp_list d = Null) (mram0 # mswp0)"
  shows "mem_inv (o_k s)"
proof -
  from m obtain ram swp where r: "init_memphy (e_zeroed env) mram0 (memramsz (e_cfg env)) 1 = Inr ram"
      and w: "init_devices (e_zeroed env) mswp0 (memswpsz (e_cfg env)) = Inr swp"
      and s: "k_mram (o_k s) = ram" "k_mswp (o_k s) = swp" "o_pcbs s = Map.empty"
    by (auto simp: main_def Let_def bindR_eq_Inr)
  have "ram_inv ram" using init_memphy_clean [OF r] c d by (simp add: clean_env_def ram_inv_def)
  moreover have "length swp = PAGING_MAX_MMSWP \<and> list_all swap_ok swp"
    using init_devices_clean [OF w] c d by (simp add: clean_env_def)
  ultimately show ?thesis using s
    by (simp add: mem_inv_def dev_inv_def kernel_inv_def list_all_length)
qed

lemma os_step_mem:
  assumes "os_step env s s'" and inv: "mem_inv (o_k s)" and c: "clean_env env" and safe: "all_cautious env s"
  shows "mem_inv (o_k s')"
  using assms(1)
proof cases
  case (cpu i)
  with cpu_routine_touches [OF inv cpu(3) safe cpu(1)] show ?thesis by (simp add: touches_only_def)
next
  case (loader p)
  with ld_routine_mem [OF inv c loader(2,3)] show ?thesis by simp
qed (use inv in simp_all)

lemma iso_reach_mem: "iso_reach env s \<Longrightarrow> clean_env env \<Longrightarrow> mem_inv (o_k s)"
proof (induction rule: iso_reach.induct)
  case (boot mram0 mswp0 s)
  then show ?case by (intro main_mem_inv)
next
  case (step s s')
  then show ?case by (blast intro: os_step_mem)
qed

end
