(* ===== verification/Config.thy ===== *)
theory Config imports Os begin

text \<open>
  The start of \<^verbatim>\<open>src/os.c\<close>: the command line and the configuration file (\<open>start_os\<close>), and the inverse of
  \<open>read_config\<close>: configuration files as they are written, with the line of the memory sizes and without it.
\<close>

section \<open>The command line\<close>

text \<open>
  \<open>main\<close> before it attaches the devices: the usage message ends it with status 1, a file that cannot be
  opened with \<open>exit(1)\<close>.
\<close>

definition start_os :: "string list \<Rightarrow> os_env \<Rightarrow> memphy_struct \<Rightarrow> memphy_struct list \<Rightarrow> (config \<times> os_t) exec res" where
  "start_os args env mram0 mswp0 =
    (case args of
       [arg] \<Rightarrow>
         bindR (config_path arg) (\<lambda>file.
           case e_file env file of
             None \<Rightarrow> Inr (Exits 1)
           | Some txt \<Rightarrow>
               bindR (read_config txt) (\<lambda>cfg.
               bindR (main (env\<lparr>e_cfg := cfg\<rparr>) mram0 mswp0) (\<lambda>s. Inr (Returns (cfg, s)))))
     | _ \<Rightarrow> Inr (Exits 1))"

section \<open>The written form of a configuration\<close>

fun num_line :: "int list \<Rightarrow> string" where
  "num_line [] = [CHR 0x0A]"
| "num_line (a # as) = show_nat (nat a) @ args_text as @ [CHR 0x0A]"

definition proc_name :: "ld_args \<Rightarrow> string" where
  "proc_name a = drop 11 (l_path a)"

definition show_proc :: "ld_args \<Rightarrow> string" where
  "show_proc a = show_nat (nat (l_start a)) @ CHR '' '' # proc_name a @ CHR '' '' # show_nat (nat (l_prio a)) @ [CHR 0x0A]"

text \<open>The legacy form has no line with the sizes of the memories.\<close>

definition show_config :: "bool \<Rightarrow> config \<Rightarrow> string" where
  "show_config legacy cfg =
    num_line [time_slot cfg, int (num_cpus cfg), int (length (ld_processes cfg))] @
    (if legacy then [] else num_line (memramsz cfg # memswpsz cfg)) @
    concat (map show_proc (ld_processes cfg))"

definition int_range :: "int \<Rightarrow> bool" where
  "int_range v \<longleftrightarrow> 0 \<le> v \<and> v < 2 ^ 31"

text \<open>Paths fit into 100 cells, and names are words.\<close>

definition valid_ld :: "ld_args \<Rightarrow> bool" where
  "valid_ld a \<longleftrightarrow> l_path a = ''input/proc/'' @ proc_name a \<and> proc_name a \<noteq> [] \<and> length (l_path a) < 100 \<and>
     (\<forall>ch\<in>set (proc_name a). \<not> is_ws ch) \<and> 0 \<le> l_start a \<and> l_start a < 2 ^ 64 \<and> 0 \<le> l_prio a \<and> l_prio a < 2 ^ 64"

definition valid_config :: "config \<Rightarrow> bool" where
  "valid_config cfg \<longleftrightarrow> (\<forall>v\<in>set (time_slot cfg # int (num_cpus cfg) # int (length (ld_processes cfg)) # memramsz cfg # memswpsz cfg).
     int_range v) \<and> length (memswpsz cfg) = 4 \<and> (\<forall>a\<in>set (ld_processes cfg). valid_ld a)"

text \<open>In a legacy file the first line of the table must not look like five numbers.\<close>

definition legacy_ok :: "config \<Rightarrow> bool" where
  "legacy_ok cfg \<longleftrightarrow> (case ld_processes cfg of [] \<Rightarrow> False
     | a # _ \<Rightarrow> \<not> is_dig (hd (proc_name a)) \<and> hd (proc_name a) \<notin> {CHR ''-'', CHR ''+''})"

section \<open>Lines of numbers\<close>

lemma stops_nl: "stops (CHR 0x0A # s)" "stops (CHR '' '' # s)"
  by (simp_all add: stops_def is_dig_def)

lemma scan_num_line:
  assumes "\<forall>a\<in>set as. 0 \<le> a \<and> conv a = a"
  shows "scan_nums conv (length as) (num_line as @ rest) = (as, CHR 0x0A # rest)"
proof (cases as)
  case (Cons a bs)
  have "scan_num ([] @ show_nat (nat a) @ (args_text bs @ CHR 0x0A # rest)) = Some (int (nat a), args_text bs @ CHR 0x0A # rest)"
    by (intro scan_num_show_nat stops_args_text stops_nl) simp
  moreover have "scan_nums conv (length bs) (args_text bs @ CHR 0x0A # rest) = (bs, CHR 0x0A # rest)"
    using assms Cons by (intro scan_nums_args_text stops_nl) simp
  ultimately show ?thesis using assms Cons by simp
qed simp

lemma conv_int_id: "int_range v \<Longrightarrow> 0 \<le> v \<and> conv_int v = v"
  by (simp add: int_range_def conv_int_def to_i32_id)

lemma conv_lu_id: "0 \<le> v \<Longrightarrow> v < 2 ^ 64 \<Longrightarrow> conv_lu v = v"
  by (simp add: conv_lu_def to_u64_id)

text \<open>A text that begins with a digit has no white space to skip.\<close>

lemma skip_show_nat: "skip_ws (show_nat n @ s) = show_nat n @ s"
proof -
  obtain ch ds where d: "show_nat n = ch # ds" using show_nat_digits [of n] by (cases "show_nat n") auto
  then have "is_dig ch" using show_nat_digits [of n] by simp
  then show ?thesis using is_dig_not by (simp add: d skip_ws_cons)
qed

lemma show_nat_no_nl: "CHR 0x0A \<notin> set (show_nat n)"
  using show_nat_digits [of n] is_dig_not by blast

lemma num_line_eq: "as \<noteq> [] \<Longrightarrow> \<exists>l. num_line as = l @ [CHR 0x0A] \<and> CHR 0x0A \<notin> set l \<and>
    ((\<forall>a\<in>set as. a < 4294967296) \<longrightarrow> length l \<le> 11 * length as)"
proof (cases as)
  case (Cons a bs)
  have "length (show_nat (nat a)) \<le> 11" if "a < 4294967296"
    using length_show_nat [of "nat a" 10] that by simp
  then show ?thesis using Cons args_text_line [of bs] show_nat_no_nl length_args_text [of bs]
    by (intro exI [of _ "show_nat (nat a) @ args_text bs"]) auto
qed simp

section \<open>The process table\<close>

lemma show_proc_head: "skip_ws (show_proc a @ s) = show_proc a @ s"
  by (simp add: show_proc_def skip_show_nat)

lemma skip_procs: "skip_ws (concat (map show_proc ps)) = concat (map show_proc ps)"
  by (cases ps) (simp_all add: show_proc_head, simp add: skip_ws_def)

lemma scan_word_name:
  assumes "w \<noteq> []" and "\<forall>ch\<in>set w. \<not> is_ws ch"
  shows "scan_word (CHR '' '' # w @ CHR '' '' # s) = Some (w, CHR '' '' # s)"
proof -
  obtain ch cs where w: "w = ch # cs" using assms(1) by (cases w) auto
  have "skip_ws (CHR '' '' # w @ CHR '' '' # s) = w @ CHR '' '' # s"
    using assms(2) w by (simp add: skip_ws_cons is_ws_def)
  moreover have "takeWhile (\<lambda>ch. \<not> is_ws ch) (w @ CHR '' '' # s) = w" "dropWhile (\<lambda>ch. \<not> is_ws ch) (w @ CHR '' '' # s) = CHR '' '' # s"
    using assms(2) by (auto simp: takeWhile_append dropWhile_append is_ws_def)
  ultimately show ?thesis using assms(1) by (simp add: scan_word_def Let_def)
qed

lemma read_proc_show:
  assumes "valid_ld a"
  shows "read_proc (show_proc a @ s) = Inr (a, skip_ws s)"
proof -
  let ?n = "proc_name a" and ?r = "show_nat (nat (l_prio a)) @ CHR 0x0A # s"
  have t: "show_proc a @ s = [] @ show_nat (nat (l_start a)) @ (CHR '' '' # ?n @ CHR '' '' # ?r)" by (simp add: show_proc_def)
  have v: "l_path a = ''input/proc/'' @ ?n" "?n \<noteq> []" "length (l_path a) < 100" "\<forall>ch\<in>set ?n. \<not> is_ws ch"
    using assms unfolding valid_ld_def by blast+
  have n: "0 \<le> l_start a \<and> conv_lu (l_start a) = l_start a" "0 \<le> l_prio a \<and> conv_lu (l_prio a) = l_prio a"
    using assms conv_lu_id by (auto simp: valid_ld_def)
  have "scan_num (show_proc a @ s) = Some (int (nat (l_start a)), CHR '' '' # ?n @ CHR '' '' # ?r)"
    unfolding t by (intro scan_num_show_nat stops_nl) simp
  moreover note scan_word_name [OF v(2,4), of ?r]
  moreover have "scan_num ([CHR '' ''] @ show_nat (nat (l_prio a)) @ (CHR 0x0A # s)) = Some (int (nat (l_prio a)), CHR 0x0A # s)"
    by (intro scan_num_show_nat stops_nl) (simp add: is_ws_def)
  moreover have "length ?n < 89" using arg_cong [OF v(1), of length] v(3) by simp
  ultimately show ?thesis using n v(1) by (simp add: read_proc_def skip_ws_cons is_ws_def)
qed

lemma read_procs_show:
  "\<forall>a\<in>set ps. valid_ld a \<Longrightarrow> read_procs (length ps) (concat (map show_proc ps)) = Inr ps"
  by (induction ps) (simp_all add: read_proc_show skip_procs)

section \<open>The memory sizes\<close>

lemma read_memory_line:
  assumes "length ms = 5" and "\<forall>v\<in>set ms. int_range v"
  shows "read_memory (num_line ms @ s) = (hd ms, tl ms, skip_ws s)"
proof -
  have "\<forall>v\<in>set ms. v < 4294967296" using assms(2) by (auto simp: int_range_def)
  moreover have "ms \<noteq> []" using assms(1) by auto
  ultimately obtain l where l: "num_line ms = l @ [CHR 0x0A]" "CHR 0x0A \<notin> set l" "length l \<le> 55"
    using num_line_eq [of ms] assms(1) by auto
  have "fgets 256 (num_line ms @ s) = Some (num_line ms, s)"
    using fgets_line [of l 256 s] l by simp
  moreover have "scan_nums conv_int 5 (num_line ms) = (ms, [CHR 0x0A])"
    using scan_num_line [of ms conv_int "[]"] assms conv_int_id by simp
  moreover obtain a b c d e where "ms = [a, b, c, d, e]" using assms(1) by (auto simp: numeral_eq_Suc length_Suc_conv)
  ultimately show ?thesis by (simp add: read_memory_def)
qed

text \<open>Without the line, the first line of the table is tried and put back.\<close>

lemma read_memory_legacy:
  assumes a: "valid_ld a" and name: "\<not> is_dig (hd (proc_name a))" "hd (proc_name a) \<notin> {CHR ''-'', CHR ''+''}"
  shows "read_memory (show_proc a @ s) = (1048576, [16777216, 0, 0, 0], show_proc a @ s)"
proof -
  let ?n = "proc_name a"
  let ?l = "show_nat (nat (l_start a)) @ CHR '' '' # ?n @ CHR '' '' # show_nat (nat (l_prio a))"
  obtain ch cs where n: "?n = ch # cs" using a by (cases ?n) (auto simp: valid_ld_def)
  have ws: "\<forall>ch\<in>set ?n. \<not> is_ws ch" and p: "l_path a = ''input/proc/'' @ ?n" "length (l_path a) < 100"
    using a unfolding valid_ld_def by blast+
  have "length ?n < 89" using arg_cong [OF p(1), of length] p(2) by simp
  moreover have "length (show_nat (nat v)) \<le> 20" if "v < 2 ^ 64" for v
    using length_show_nat [of "nat v" 19] that by simp
  then have "length (show_nat (nat (l_start a))) \<le> 20" "length (show_nat (nat (l_prio a))) \<le> 20"
    using a by (simp_all add: valid_ld_def)
  ultimately have "Suc (length ?l) < 256" by simp
  moreover have "CHR 0x0A \<notin> set ?l" using show_nat_no_nl ws by (auto simp: is_ws_def)
  ultimately have f: "fgets 256 (show_proc a @ s) = Some (?l @ [CHR 0x0A], s)"
    using fgets_line [of ?l 256 s] by (simp add: show_proc_def)
  have "scan_num ([] @ show_nat (nat (l_start a)) @ (CHR '' '' # ?n @ CHR '' '' # show_nat (nat (l_prio a)) @ [CHR 0x0A])) =
      Some (int (nat (l_start a)), CHR '' '' # ?n @ CHR '' '' # show_nat (nat (l_prio a)) @ [CHR 0x0A])"
    by (intro scan_num_show_nat stops_nl) simp
  moreover have "scan_num (CHR '' '' # ?n @ t) = None" for t
    using n ws name by (simp add: scan_num_def skip_ws_cons is_ws_def Let_def)
  ultimately have "length (fst (scan_nums conv_int 5 (?l @ [CHR 0x0A]))) = 1"
    by (simp add: numeral_eq_Suc)
  then show ?thesis by (auto simp: read_memory_def f split: list.splits)
qed

lemma read_config_show:
  assumes v: "valid_config cfg"
  shows "read_config (show_config False cfg) = Inr cfg"
    and "legacy_ok cfg \<Longrightarrow> read_config (show_config True cfg) =
      Inr (cfg\<lparr>memramsz := 1048576, memswpsz := [16777216, 0, 0, 0]\<rparr>)"
proof -
  let ?h = "[time_slot cfg, int (num_cpus cfg), int (length (ld_processes cfg))]" and ?m = "memramsz cfg # memswpsz cfg"
  have r: "\<forall>a\<in>set ?h. 0 \<le> a \<and> conv_int a = a" "\<forall>a\<in>set ?m. int_range a" "length ?m = 5" "\<forall>a\<in>set (ld_processes cfg). valid_ld a"
    using v conv_int_id by (simp_all add: valid_config_def)
  have h: "scan_nums conv_int 3 (num_line ?h @ s) = (?h, CHR 0x0A # s)" for s
    using scan_num_line [OF r(1), of s] by (simp add: numeral_3_eq_3)
  have sk: "skip_ws (CHR 0x0A # num_line ?m @ s) = num_line ?m @ s" for s
    by (simp add: skip_ws_cons is_ws_def skip_show_nat)
  show "read_config (show_config False cfg) = Inr cfg"
    using h r by (simp add: read_config_def show_config_def sk read_memory_line skip_procs read_procs_show del: num_line.simps)
  assume "legacy_ok cfg"
  then obtain a as where p: "ld_processes cfg = a # as" "\<not> is_dig (hd (proc_name a))" "hd (proc_name a) \<notin> {CHR ''-'', CHR ''+''}"
    by (auto simp: legacy_ok_def split: list.splits)
  from r(4) p(1) have "read_memory (concat (map show_proc (ld_processes cfg))) =
      (1048576, [16777216, 0, 0, 0], concat (map show_proc (ld_processes cfg)))"
    using read_memory_legacy [OF _ p(2,3)] by simp
  moreover have "skip_ws (CHR 0x0A # concat (map show_proc (ld_processes cfg))) = concat (map show_proc (ld_processes cfg))"
    using skip_procs by (simp add: skip_ws_cons is_ws_def)
  ultimately show "read_config (show_config True cfg) = Inr (cfg\<lparr>memramsz := 1048576, memswpsz := [16777216, 0, 0, 0]\<rparr>)"
    using h r(4) by (simp add: read_config_def show_config_def read_procs_show del: num_line.simps)
qed

section \<open>Properties\<close>

text \<open>C31: Reading the written form of a configuration gives the configuration back; a legacy file, without the line of the
  memory sizes, gives the default sizes.\<close>

theorem read_config_roundtrip:
  assumes "valid_config cfg"
  shows "read_config (show_config False cfg) = Inr cfg \<and>
    (legacy_ok cfg \<longrightarrow> read_config (show_config True cfg) =
      Inr (cfg\<lparr>memramsz := 1048576, memswpsz := [16777216, 0, 0, 0]\<rparr>))"
  using read_config_show [OF assms] by blast

text \<open>The shape of the sample configurations.\<close>

definition sample_config :: config where
  "sample_config = \<lparr>time_slot = 6, num_cpus = 2, memramsz = 2048, memswpsz = [16777216, 0, 0, 0],
     ld_processes = [\<lparr>l_path = ''input/proc/p0s'', l_start = 0, l_prio = 0\<rparr>,
       \<lparr>l_path = ''input/proc/p1s'', l_start = 2, l_prio = 15\<rparr>]\<rparr>"

lemma show_sample:
  "show_config False sample_config =
     ''6 2 2'' @ CHR 0x0A # ''2048 16777216 0 0 0'' @ CHR 0x0A # ''0 p0s 0'' @ CHR 0x0A # ''2 p1s 15'' @ [CHR 0x0A]"
  by (simp add: show_config_def sample_config_def args_text_def show_nat.simps show_proc_def proc_name_def char_of_def bit_0)

theorem read_config_roundtrip_witness:
  "read_config (''6 2 2'' @ CHR 0x0A # ''2048 16777216 0 0 0'' @ CHR 0x0A # ''0 p0s 0'' @ CHR 0x0A # ''2 p1s 15'' @ [CHR 0x0A]) =
     Inr sample_config \<and>
   read_config (show_config True sample_config) = Inr (sample_config\<lparr>memramsz := 1048576\<rparr>)"
proof -
  have v: "valid_config sample_config"
    by (simp add: valid_config_def sample_config_def valid_ld_def proc_name_def is_ws_def int_range_def)
  have "legacy_ok sample_config" by (simp add: legacy_ok_def sample_config_def proc_name_def is_dig_def)
  moreover have "sample_config\<lparr>memswpsz := [16777216, 0, 0, 0]\<rparr> = sample_config" by (simp add: sample_config_def)
  ultimately show ?thesis using read_config_roundtrip [OF v] unfolding show_sample
    by (simp add: sample_config_def)
qed

end
