(* ===== verification/Runs.thy ===== *)
theory Runs imports Isolation Config begin

text \<open>
  Concrete runs of the machine, which show that the hypotheses of the properties can hold: one processor
  and one process whose program is a parameter, up to its first instruction; and one processor that
  has nothing to run.
\<close>

section \<open>Programs\<close>

definition demo_prog :: "inst_t list" where
  "demo_prog = replicate 2 \<lparr>opcode = CALC, arg_0 = 0, arg_1 = 0, arg_2 = 0, arg_3 = 0\<rparr>"

definition alloc_prog :: "inst_t list" where
  "alloc_prog = [\<lparr>opcode = ALLOC, arg_0 = 300, arg_1 = 3, arg_2 = 0, arg_3 = 0\<rparr>]"

definition clean_mm :: mm_struct where
  "clean_mm = blank_mm\<lparr>symrgtbl := replicate 30 \<lparr>rg_start = 0, rg_end = 0\<rparr>\<rparr>"

definition empty_env :: os_env where
  "empty_env = \<lparr>e_cfg = \<lparr>time_slot = 2, num_cpus = 1, memramsz = 1024, memswpsz = replicate 4 1024, ld_processes = []\<rparr>,
     e_file = (\<lambda>_. None), e_zeroed = True, e_pcb0 = (\<lambda>_. sample_pcb),
     e_text0 = (\<lambda>_ _. hd demo_prog), e_pgd0 = (\<lambda>_ _. 0), e_mm0 = (\<lambda>_. clean_mm)\<rparr>"

text \<open>The time slot \<open>ts\<close> and one process with the program \<open>prog\<close>; the file of the configuration and that of the program.\<close>

definition prog_cfg :: "int \<Rightarrow> config" where
  "prog_cfg ts = (e_cfg empty_env)\<lparr>time_slot := ts,
     ld_processes := [\<lparr>l_path = ''input/proc/p0'', l_start = 0, l_prio = 15\<rparr>]\<rparr>"

definition prog_env :: "int \<Rightarrow> inst_t list \<Rightarrow> os_env" where
  "prog_env ts prog = empty_env\<lparr>e_cfg := prog_cfg ts,
     e_file := (\<lambda>f. Some (if f = ''input/os'' then show_config False (prog_cfg ts) else show_prog 1 prog))\<rparr>"

abbreviation demo_env :: "int \<Rightarrow> os_env" where
  "demo_env ts \<equiv> prog_env ts demo_prog"

definition prog_ok :: "inst_t list \<Rightarrow> bool" where
  "prog_ok prog \<longleftrightarrow> prog \<noteq> [] \<and> (\<forall>i\<in>set prog. valid_ins i) \<and> length prog < 1000"

lemma progs_ok [simp]: "prog_ok demo_prog" "prog_ok alloc_prog"
  by (simp_all add: prog_ok_def demo_prog_def alloc_prog_def valid_ins_def operands_def)

lemma env_sel [simp]:
  "num_cpus (e_cfg empty_env) = 1" "memramsz (e_cfg empty_env) = 1024" "memswpsz (e_cfg empty_env) = replicate 4 1024"
  "ld_processes (e_cfg empty_env) = []" "e_zeroed empty_env"
  "num_cpus (e_cfg (prog_env ts prog)) = 1" "memramsz (e_cfg (prog_env ts prog)) = 1024"
  "memswpsz (e_cfg (prog_env ts prog)) = replicate 4 1024"
  "ld_processes (e_cfg (prog_env ts prog)) = [\<lparr>l_path = ''input/proc/p0'', l_start = 0, l_prio = 15\<rparr>]"
  "time_slot (e_cfg (prog_env ts prog)) = ts" "e_zeroed (prog_env ts prog)"
  "e_pcb0 (prog_env ts prog) i = sample_pcb" "e_pgd0 (prog_env ts prog) i = (\<lambda>_. 0)" "e_mm0 (prog_env ts prog) i = clean_mm"
  by (simp_all add: prog_env_def prog_cfg_def empty_env_def)

lemma prog_clean: "clean_env (prog_env ts prog)"
  by (simp add: clean_env_def clean_size_def sample_pcb_def clean_mm_def blank_mm_def PAGING_PAGE_PRESENT_def
      PAGING_MAX_MMSWP_def list_all_iff)

text \<open>A control block with the loaded program.\<close>

definition has_prog :: "pcb_t \<Rightarrow> inst_t list \<Rightarrow> bool" where
  "has_prog b prog \<longleftrightarrow> pc b = 0 \<and> c_size (code b) = length prog \<and> list_all2 same_ins (c_text (code b)) prog"

lemma prog_load:
  assumes "prog_ok prog" and "x \<noteq> ''input/os''"
  shows "\<exists>b. load sample_pcb (e_text0 (prog_env ts prog) i) n fname (e_file (prog_env ts prog) x) =
     Inr (Returns b, to_u32 (n + 1)) \<and> has_prog b prog"
  using load_show [of prog 1 sample_pcb "e_text0 (prog_env ts prog) i" n fname] assms
  by (auto simp: prog_env_def has_prog_def prog_ok_def)

lemma demo_calc: "has_prog b demo_prog \<Longrightarrow> list_all (\<lambda>ins. opcode ins = CALC) (c_text (code b)) \<and> length (c_text (code b)) = 2"
  by (auto simp: demo_prog_def has_prog_def list_all2_conv_all_nth list_all_length same_ins_def)

lemma prog_good:
  assumes ok: "prog_ok prog" and nk: "\<And>b. has_prog b prog \<Longrightarrow> no_kill b"
  shows "good_env (prog_env ts prog)"
  unfolding good_env_def Let_def
proof (intro allI impI conjI)
  fix i :: nat assume "i < length (ld_processes (e_cfg (prog_env ts prog)))"
  then have i: "i = 0" by simp
  then show "nat (to_u32 (l_prio (ld_processes (e_cfg (prog_env ts prog)) ! i))) < MAX_PRIO"
    by (simp add: to_u32_def MAX_PRIO_def)
  fix n b n'
  let ?a = "ld_processes (e_cfg (prog_env ts prog)) ! i"
  assume l: "load (e_pcb0 (prog_env ts prog) i) (e_text0 (prog_env ts prog) i) n (l_path ?a)
    (e_file (prog_env ts prog) (l_path ?a)) = Inr (Returns b, n')"
  have "l_path ?a \<noteq> ''input/os''" using i by simp
  with l prog_load [OF ok, of "l_path ?a" ts i n "l_path ?a"] have "has_prog b prog" by auto
  then show "no_kill b" by (rule nk)
qed

lemma demo_good: "good_env (demo_env ts)"
proof (rule prog_good)
  fix b assume "has_prog b demo_prog"
  from demo_calc [OF this] show "no_kill b" by (auto simp: no_kill_def list_all_iff)
qed simp

lemma alloc_good: "good_env (prog_env ts alloc_prog)"
proof (rule prog_good)
  show "no_kill b" if "has_prog b alloc_prog" for b
    using that by (auto simp: no_kill_def alloc_prog_def has_prog_def list_all2_conv_all_nth list_all_length same_ins_def)
qed simp

lemma empty_good: "good_env empty_env"
  by (simp add: good_env_def)

section \<open>The start\<close>

definition null_memphy :: memphy_struct where
  "null_memphy = stack_memphy\<lparr>free_fp_list := Null\<rparr>"

lemma main_starts:
  assumes "memramsz (e_cfg env) = 1024" and "memswpsz (e_cfg env) = replicate 4 1024"
  obtains s where "main env null_memphy (replicate 4 null_memphy) = Inr s" and "iso_reach env s" and "os_reach env s"
proof -
  obtain s where m: "main env null_memphy (replicate 4 null_memphy) = Inr s"
    using assms init_memphy_free_list [of 1024 "e_zeroed env" null_memphy 1]
    by (auto simp: main_def Let_def numeral_eq_Suc)
  moreover have "iso_reach env s"
    using m by (rule iso_reach.boot) (simp_all add: PAGING_MAX_MMSWP_def null_memphy_def list_all_iff)
  ultimately show thesis using that os_reach.boot by blast
qed

lemma main_state:
  assumes "main env null_memphy (replicate 4 null_memphy) = Inr s" and "memramsz (e_cfg env) = 1024"
  shows "o_tm s = timer_init (num_cpus (e_cfg env) + 1)" "o_cpu s = (\<lambda>_. cpu0)" "o_ld s = LLoad 0" "\<not> o_done s"
    "o_sched s = init_scheduler zero_sched" "o_pcbs s = Map.empty" "o_pid s = 1"
    "free_frames (k_mram (o_k s)) = [0, 1, 2, 3]"
  using assms init_memphy_free_list [of 1024 "e_zeroed env" null_memphy 1]
  by (auto simp: main_def Let_def bindR_eq_Inr free_frames_def upto_rec1)

section \<open>A run up to the first instruction\<close>

lemma iso_reach_os: "iso_reach env s \<Longrightarrow> os_reach env s"
  by (induction rule: iso_reach.induct) (auto intro: os_reach.intros)

text \<open>The process has been loaded at address 1: its block, and what is left of the memory.\<close>

definition has_proc :: "os_t \<Rightarrow> pcb_t \<Rightarrow> inst_t list \<Rightarrow> bool" where
  "has_proc s b prog \<longleftrightarrow> o_pcbs s = [1 \<mapsto> b] \<and> has_prog b prog \<and> prio b = 15 \<and>
     mm b = Some (init_mm True (\<lambda>_. 0) clean_mm) \<and> free_frames (k_mram (o_k s)) = [0, 1, 2, 3]"

lemma has_procD:
  assumes "has_proc s b prog"
  shows "o_pcbs s 1 = Some b" "prio b = 15" "pc b = 0"
  using assms by (simp_all add: has_proc_def has_prog_def)

lemma thread_steps:
  assumes "iso_reach (prog_env ts prog) s" and "o_tm s = timer_init 2" and "c_pc (o_cpu s 0) \<noteq> CRun"
  shows "cpu_routine (prog_env ts prog) 0 s = Some (Inr s') \<Longrightarrow> iso_reach (prog_env ts prog) s'"
    and "p \<notin> dom (o_pcbs s) \<Longrightarrow> ld_routine (prog_env ts prog) p s = Inr (Returns s') \<Longrightarrow> iso_reach (prog_env ts prog) s'"
proof -
  have c: "all_cautious (prog_env ts prog) s" using assms(3) by (simp add: all_cautious_def)
  show "iso_reach (prog_env ts prog) s'" if "cpu_routine (prog_env ts prog) 0 s = Some (Inr s')"
    by (rule iso_reach.step [OF assms(1) c], rule os_step.cpu [of 0])
      (use that assms(2) in \<open>simp_all add: is_running_def fresh_dev_def\<close>)
  show "iso_reach (prog_env ts prog) s'"
    if "p \<notin> dom (o_pcbs s)" "ld_routine (prog_env ts prog) p s = Inr (Returns s')"
    by (rule iso_reach.step [OF assms(1) c], rule os_step.loader [of _ _ p])
      (use that assms(2) in \<open>simp_all add: is_running_def fresh_dev_def\<close>)
qed

lemma demo_loaded:
  assumes "prog_ok prog"
  shows "\<exists>s b. iso_reach (prog_env ts prog) s \<and> o_tm s = timer_init 2 \<and> o_cpu s 0 = cpu0 \<and>
     o_sched s = placed 1 15 (init_scheduler zero_sched) \<and> has_proc s b prog"
proof -
  let ?e = "prog_env ts prog"
  let ?m = "init_mm True (\<lambda>_. 0) clean_mm"
  obtain s where m: "main ?e null_memphy (replicate 4 null_memphy) = Inr s" and r0: "iso_reach ?e s"
    using main_starts [of ?e] by auto
  note f = main_state [OF m]
  have tm: "o_tm s = timer_init 2" using f(1) by (simp add: numeral_2_eq_2)
  have c: "c_pc (o_cpu s 0) \<noteq> CRun" using f(2) by (simp add: cpu0_def)
  obtain b where l: "load sample_pcb (e_text0 ?e 0) 1 ''input/proc/p0'' (e_file ?e ''input/proc/p0'') = Inr (Returns b, to_u32 2)"
      and b: "has_prog b prog"
    using prog_load [OF assms, of "''input/proc/p0''" ts 0 1 "''input/proc/p0''"] by auto
  define b1 where "b1 = b\<lparr>prio := 15\<rparr>"
  define s1 where "s1 = set_pcbs [1 \<mapsto> b1] (s\<lparr>o_pid := to_u32 2, o_ld := LWait 0 1\<rparr>)"
  have "ld_routine ?e 1 s = Inr (Returns s1)"
    using l f by (simp add: ld_routine_def ld_load_def s1_def b1_def to_u32_def)
  with f(6) have r1: "iso_reach ?e s1" by (intro thread_steps(2) [OF r0 tm c]) auto
  define b2 where "b2 = b1\<lparr>mm := Some ?m, active_mswp := 0, queues_set := True\<rparr>"
  define s2 where "s2 = set_pcbs [1 \<mapsto> b2] (set_sched (placed 1 15 (o_sched s)) (s1\<lparr>o_ld := LNext 1\<rparr>))"
  have "add_proc 1 [1 \<mapsto> b1\<lparr>mm := Some ?m, active_mswp := 0\<rparr>] (o_sched s) = Inr ([1 \<mapsto> b2], placed 1 15 (o_sched s))"
    using add_proc_placed [of "[1 \<mapsto> b1\<lparr>mm := Some ?m, active_mswp := 0\<rparr>]" 1 "b1\<lparr>mm := Some ?m, active_mswp := 0\<rparr>"]
    by (simp add: b1_def b2_def MAX_PRIO_def)
  then have "ld_routine ?e 2 s1 = Inr (Returns s2)"
    using tm by (simp add: ld_routine_def ld_add_def s1_def s2_def current_time_def deref_Some Let_def set_sched_def set_pcbs_def)
  then have "iso_reach ?e s2"
    using tm c by (intro thread_steps(2) [OF r1, of 2]) (auto simp: s1_def)
  moreover have "has_proc s2 b2 prog" using f(8) b by (simp add: has_proc_def s2_def s1_def b2_def b1_def has_prog_def)
  moreover have "o_tm s2 = timer_init 2" "o_cpu s2 0 = cpu0" "o_sched s2 = placed 1 15 (init_scheduler zero_sched)"
    using tm f by (simp_all add: s2_def s1_def)
  ultimately show ?thesis by (intro exI [of _ s2] exI [of _ b2]) simp
qed

text \<open>The processor has taken it, and the slots of its priority are not used up.\<close>

lemma demo_taken:
  assumes "prog_ok prog"
  shows "\<exists>s b. iso_reach (prog_env ts prog) s \<and> o_tm s = timer_init 2 \<and>
     o_cpu s 0 = cpu0\<lparr>c_proc := Some 1, c_pc := CGetSlot\<rparr> \<and> 0 < slot (o_sched s) ! 15 \<and> has_proc s b prog"
proof -
  let ?e = "prog_env ts prog"
  obtain s b where r: "iso_reach ?e s" and f: "o_tm s = timer_init 2" "o_cpu s 0 = cpu0"
      "o_sched s = placed 1 15 (init_scheduler zero_sched)" "has_proc s b prog"
    using demo_loaded [OF assms] by blast
  have m15: "15 < MAX_PRIO" by (simp add: MAX_PRIO_def)
  then have wf: "sched_wf (o_sched s)" using init_sched_facts(1) by (simp add: f(3) placed_wf)
  have rd: "ready_at (o_sched s) j = (if j = 15 then [1] else [])" if "j < MAX_PRIO" for j
    using that m15 init_sched_facts by (simp add: f(3) placed_ready MAX_QUEUE_SIZE_def)
  then have "\<not> queue_empty (o_sched s)" using m15 wf by (metis queue_empty_iff not_Cons_self2)
  with get_proc_returns [OF wf] obtain p sc where g: "get_proc (o_sched s) = Some (Some p, sc)" by auto
  then have "get_mlq_proc (o_sched s) = Some (Some p, sc)" by (simp add: get_proc_def)
  from served_front [OF wf this] obtain i where "i < MAX_PRIO" "ready_at (o_sched s) i = p # ready_at sc i" "slot sc ! i > 0"
    by blast
  with rd have p: "p = 1" "0 < slot sc ! 15" by (auto split: if_splits)
  define s' where "s' = set_cpu 0 (cpu0\<lparr>c_proc := Some 1, c_pc := CGetSlot\<rparr>) (set_sched sc s)"
  have "cpu_routine ?e 0 s = Some (Inr s')"
    using f(2) g p by (simp add: cpu_routine_def cpu_fetch_def cpu0_def s'_def)
  then have "iso_reach ?e s'" using f(2) by (intro thread_steps(1) [OF r f(1)]) (simp_all add: cpu0_def)
  with f p show ?thesis by (intro exI [of _ s'] exI [of _ b]) (simp add: s'_def has_proc_def)
qed

text \<open>It has been dispatched, with the budget \<open>min ts v\<close> for some \<open>v > 0\<close>.\<close>

lemma demo_dispatched:
  assumes "prog_ok prog"
  shows "\<exists>s v b. iso_reach (prog_env ts prog) s \<and> o_tm s = timer_init 2 \<and> 0 < v \<and>
     o_cpu s 0 = \<lparr>c_pc = CRun, c_proc = Some 1, c_time_left = min ts v, c_use_time = 0, c_remaining = v\<rparr> \<and>
     has_proc s b prog"
proof -
  let ?e = "prog_env ts prog"
  obtain s b where r: "iso_reach ?e s" and f: "o_tm s = timer_init 2"
      "o_cpu s 0 = cpu0\<lparr>c_proc := Some 1, c_pc := CGetSlot\<rparr>" "0 < slot (o_sched s) ! 15" "has_proc s b prog"
    using demo_taken [OF assms] by blast
  let ?v = "slot (o_sched s) ! 15"
  define c where "c = cpu0\<lparr>c_proc := Some 1, c_remaining := ?v, c_pc := CCheck\<rparr>"
  define s1 where "s1 = set_cpu 0 c s"
  have "cpu_routine ?e 0 s = Some (Inr s1)"
    using f has_procD [OF f(4)] by (simp add: cpu_routine_def the_proc_def deref_Some get_slot_def MAX_PRIO_def s1_def c_def)
  then have r1: "iso_reach ?e s1" using f(2) by (intro thread_steps(1) [OF r f(1)]) simp_all
  define s2 where "s2 = set_cpu 0 (c\<lparr>c_time_left := min ts ?v, c_use_time := 0, c_pc := CRun\<rparr>) s1"
  have "cpu_routine ?e 0 s1 = Some (Inr s2)"
    by (auto simp: cpu_routine_def Let_def cpu_check_def s1_def s2_def c_def cpu0_def min_def)
  then have "iso_reach ?e s2"
    using f(1) by (intro thread_steps(1) [OF r1]) (simp_all add: s1_def c_def cpu0_def)
  with f show ?thesis
    by (intro exI [of _ s2] exI [of _ ?v] exI [of _ b]) (simp add: s2_def s1_def c_def cpu0_def has_proc_def)
qed

text \<open>Its first instruction, a \<open>calc\<close>, has been executed.\<close>

lemma demo_ran:
  assumes "-2147483648 < ts" and "ts \<le> 2147483647"
  shows "\<exists>s v. os_reach (demo_env ts) s \<and> o_tm s = timer_init 2 \<and> 0 < v \<and>
     o_cpu s 0 = \<lparr>c_pc = CNext, c_proc = Some 1, c_time_left = min ts v - 1, c_use_time = 1, c_remaining = v\<rparr>"
proof -
  let ?e = "demo_env ts"
  obtain s v b where r: "iso_reach ?e s" and f: "o_tm s = timer_init 2" "0 < v"
      "o_cpu s 0 = \<lparr>c_pc = CRun, c_proc = Some 1, c_time_left = min ts v, c_use_time = 0, c_remaining = v\<rparr>"
      "has_proc s b demo_prog"
    using demo_dispatched [OF progs_ok(1), of ts] by blast
  have b: "o_pcbs s 1 = Some b" "pc b = 0" "c_size (code b) = 2"
    using f(4) by (simp_all add: has_proc_def has_prog_def demo_prog_def)
  have js: "opcode (c_text (code b) ! 0) = CALC" "0 < length (c_text (code b))"
    using demo_calc [of b] f(4) by (auto simp: has_proc_def list_all_length)
  have "\<exists>k. run True 1 (o_k s) = Inr (0, NoOut, k)"
    using b js by (simp add: run_def deref_Some exec_ins_def calc_def)
  then obtain k where "run True 1 (o_k s) = Inr (0, NoOut, k)" by blast
  moreover have ck: "ck_int (min ts v - 1) = Inr (min ts v - 1)" "ck_int 1 = Inr 1"
    using assms f(2) by (auto simp: ck_int_def)
  ultimately have "cpu_routine ?e 0 s =
      Some (Inr (set_cpu 0 ((o_cpu s 0)\<lparr>c_time_left := min ts v - 1, c_use_time := 1, c_pc := CNext\<rparr>) (s\<lparr>o_k := k\<rparr>)))"
    (is "_ = Some (Inr ?s')")
    using f(3) b by (simp add: cpu_routine_def cpu_run_def the_proc_def deref_Some)
  moreover have "is_running 0 s" by (simp add: is_running_def f(1) fresh_dev_def)
  ultimately have "os_reach ?e ?s'" by (intro os_reach.step [OF iso_reach_os [OF r]] os_step.cpu) auto
  with f show ?thesis by (intro exI [of _ ?s'] exI [of _ v]) simp
qed

lemma calc_runs:
  shows "\<exists>s. os_reach (demo_env ts) s \<and> o_tm s = timer_init 2 \<and> o_cpu s 0 = cpu0\<lparr>c_proc := Some 1, c_pc := CGetSlot\<rparr>"
    and "\<exists>s v. os_reach (demo_env ts) s \<and> 0 < v \<and>
      o_cpu s 0 = \<lparr>c_pc = CRun, c_proc = Some 1, c_time_left = min ts v, c_use_time = 0, c_remaining = v\<rparr>"
  using demo_taken [OF progs_ok(1), of ts] demo_dispatched [OF progs_ok(1), of ts] iso_reach_os by blast+

text \<open>The other program: its \<open>alloc\<close> brings two pages online.\<close>

lemma alloc_online:
  assumes inv: "proc_inv others c" and m: "v_mm c = init_mm True (\<lambda>_. 0) clean_mm"
    and free: "free_frames (v_mram c) = [0, 1, 2, 3]"
  obtains out c' where "liballoc True c 300 3 = Inr (0, out, c')" "online (v_mm c') 0"
proof -
  have v: "mmap (v_mm c) = Node \<lparr>vm_id = 1, vm_start = 0, vm_end = 0, sbrk = 0,
      vm_freerg_list = Node \<lparr>rg_start = 0, rg_end = 0\<rparr> Null\<rparr> Null"
    by (simp add: m init_mm_def Let_def init_vm_rg_def to_u64_def enlist_vm_rg_node_def)
  then have e: "heap_end (v_mm c) = 0" by (simp add: heap_end_def)
  have g: "grow 300 = 512" by (simp add: grow_def)
  obtain c1 where i: "inc_vma_limit True c 0 300 = Inr (0, c1)" and on: "online (v_mm c1) 0"
    using inc_vma_limit_inv [OF inv, of 0 300 True] by (auto simp: e g free heap_overlap_def)
  have none: "carve (Node \<lparr>rg_start = 0, rg_end = 0\<rparr> Null) 300 = Inr None" by (simp add: to_u64_def)
  obtain m' where a: "alloc_rg True c 0 3 300 = Inr (0, Some 0, c1\<lparr>v_mm := m'\<rparr>)"
      and inv': "proc_inv others (c1\<lparr>v_mm := m'\<rparr>)" and p: "pgd m' = pgd (v_mm c1)"
    using alloc_rg_extends [OF inv v _ _ _ _ _ i, of 3] none by (auto simp: e g)
  obtain out where "report False (c1\<lparr>v_mm := m'\<rparr>) = Inr out"
    using report_heap inv' by (fastforce simp: proc_inv_def)
  with a have "liballoc True c 300 3 = Inr (0, out, c1\<lparr>v_mm := m'\<rparr>)" by (simp add: liballoc_def to_i32_def)
  with on p that [of out "c1\<lparr>v_mm := m'\<rparr>"] show thesis by (simp add: online_def)
qed

lemma alloc_ran:
  "\<exists>s b m. iso_reach (prog_env 2 alloc_prog) s \<and> o_pcbs s 1 = Some b \<and> mm b = Some m \<and> online m 0 \<and>
     o_tm s = timer_init 2 \<and> c_pc (o_cpu s 0) = CNext \<and> c_proc (o_cpu s 0) = Some 1"
proof -
  let ?e = "prog_env 2 alloc_prog" and ?m = "init_mm True (\<lambda>_. 0) clean_mm"
  obtain s v b where r: "iso_reach ?e s" and f: "o_tm s = timer_init 2" "0 < v"
      "o_cpu s 0 = \<lparr>c_pc = CRun, c_proc = Some 1, c_time_left = min 2 v, c_use_time = 0, c_remaining = v\<rparr>"
      "has_proc s b alloc_prog"
    using demo_dispatched [OF progs_ok(2), of 2] by blast
  have b: "o_pcbs s = [1 \<mapsto> b]" "pc b = 0" "c_size (code b) = 1" "mm b = Some ?m" "length (c_text (code b)) = 1"
    using f(4) by (auto simp: has_proc_def has_prog_def alloc_prog_def list_all2_conv_all_nth)
  have ins: "opcode (c_text (code b) ! 0) = ALLOC" "arg_0 (c_text (code b) ! 0) = 300" "arg_1 (c_text (code b) ! 0) = 3"
    using f(4) by (auto simp: has_proc_def has_prog_def alloc_prog_def list_all2_conv_all_nth same_ins_def operands_def)
  have safe: "all_cautious ?e s"
    using f(3) b ins by (auto simp: all_cautious_def cautious_def safe_ins_def next_ins_def to_i32_def grow_def
        heap_end_def ctx_of_def init_mm_def Let_def)
  let ?b = "b\<lparr>pc := 1\<rparr>"
  let ?k = "(o_k s)\<lparr>k_pcbs := [1 \<mapsto> ?b]\<rparr>"
  have "kernel_inv (o_k s)" using iso_reach_mem [OF r prog_clean] by (simp add: mem_inv_def)
  from kernel_invD [OF this, of 1 b ?m] b(1,4)
  have inv: "proc_inv (others_of (o_pcbs s) 1) (ctx_of ?k ?b ?m)" by (simp add: ctx_of_def)
  obtain out c where c: "liballoc True (ctx_of ?k ?b ?m) 300 3 = Inr (0, out, c)" "online (v_mm c) 0"
    by (rule alloc_online [OF inv]) (use f(4) in \<open>simp_all add: ctx_of_def has_proc_def\<close>)
  have "run True 1 (o_k s) = Inr (0, MemOut out, put_ctx ?k 1 ?b c)"
    using b ins c(1) by (simp add: run_def deref_Some exec_ins_def with_ctx_def)
  moreover have "ck_int (min 2 v - 1) = Inr (min 2 v - 1)" "ck_int 1 = Inr 1" using f(2) by (auto simp: ck_int_def)
  ultimately have "cpu_routine ?e 0 s = Some (Inr (set_cpu 0
      ((o_cpu s 0)\<lparr>c_time_left := min 2 v - 1, c_use_time := 1, c_pc := CNext\<rparr>) (s\<lparr>o_k := put_ctx ?k 1 ?b c\<rparr>)))"
    (is "_ = Some (Inr ?s')")
    using f(3) b by (simp add: cpu_routine_def cpu_run_def the_proc_def deref_Some)
  moreover have "is_running 0 s" by (simp add: is_running_def f(1) fresh_dev_def)
  ultimately have "iso_reach ?e ?s'" by (intro iso_reach.step [OF r safe] os_step.cpu) auto
  with c(2) f(1,3) show ?thesis
    by (intro exI [of _ ?s'] exI [of _ "?b\<lparr>mm := Some (v_mm c)\<rparr>"] exI [of _ "v_mm c"]) (simp add: put_ctx_def)
qed

text \<open>Nothing to run: loader and processor end.\<close>

lemma empty_ended:
  "\<exists>s. os_reach empty_env s \<and> c_pc (o_cpu s 0) = CStopped"
proof -
  let ?e = "empty_env"
  obtain s where m: "main ?e null_memphy (replicate 4 null_memphy) = Inr s" and r0: "os_reach ?e s"
    using main_starts [of ?e] by auto
  note f = main_state [OF m]
  have tm: "o_tm s = timer_init 2" using f(1) by (simp add: numeral_2_eq_2)
  define s1 where "s1 = s\<lparr>o_done := True, o_ld := LDetach\<rparr>"
  have "ld_routine ?e 1 s = Inr (Returns s1)" using f by (simp add: ld_routine_def s1_def)
  then have r1: "os_reach ?e s1"
    using tm f(6) by (intro os_reach.step [OF r0] os_step.loader [of _ _ 1]) (simp_all add: is_running_def fresh_dev_def)
  have wf: "sched_wf (o_sched s)" and em: "all_ready (o_sched s) = {}"
    using init_sched_facts by (auto simp: f(5) all_ready_def)
  have g: "get_proc (o_sched s) = Some (None, o_sched s)"
    using get_proc_returns [OF wf] em empty_ready [OF wf] by auto
  have step: "os_reach ?e s'" if "os_reach ?e s0" "o_tm s0 = timer_init 2" "cpu_routine ?e 0 s0 = Some (Inr s')" for s0 s'
    using that by (intro os_reach.step [OF that(1)] os_step.cpu) (auto simp: is_running_def fresh_dev_def)
  define s2 where "s2 = set_cpu 0 (cpu0\<lparr>c_pc := CNone\<rparr>) s1"
  have "cpu_routine ?e 0 s1 = Some (Inr s2)"
    using f g by (simp add: cpu_routine_def cpu_fetch_def s1_def s2_def cpu0_def set_sched_def)
  then have r2: "os_reach ?e s2" using tm by (intro step [OF r1]) (simp add: s1_def)
  define s3 where "s3 = set_cpu 0 (cpu0\<lparr>c_pc := CDetach\<rparr>) s2"
  have "cpu_routine ?e 0 s2 = Some (Inr s3)" by (simp add: cpu_routine_def s2_def s3_def s1_def)
  then have r3: "os_reach ?e s3" using tm by (intro step [OF r2]) (simp add: s1_def s2_def)
  define s4 where "s4 = set_cpu 0 (cpu0\<lparr>c_pc := CStopped\<rparr>) (s3\<lparr>o_tm := detach_event 0 (o_tm s3)\<rparr>)"
  have "cpu_routine ?e 0 s3 = Some (Inr s4)" by (simp add: cpu_routine_def s3_def s4_def)
  then have "os_reach ?e s4" using tm by (intro step [OF r3]) (simp add: s1_def s2_def s3_def)
  then show ?thesis by (intro exI [of _ s4]) (simp add: s4_def)
qed

end
