(* ===== verification/Slices.thy ===== *)
theory Slices imports Machine begin

text \<open>
  The time slice of a processor (\<^verbatim>\<open>time_left\<close> and \<^verbatim>\<open>use_time\<close> of \<^verbatim>\<open>src/os.c\<close>): the invariant \<open>slice_ok\<close>, kept by
  every step of every thread.
\<close>

text \<open>
  Used and remaining time of a slice: together at most \<open>time_slot\<close>, and for a running process at most
  the slots of its priority that the processor read when it took the process.
\<close>

definition slice_ok :: "config \<Rightarrow> cpu_t \<Rightarrow> bool" where
  "slice_ok cfg c \<longleftrightarrow> 0 \<le> c_use_time c \<and> c_use_time c + c_time_left c \<le> max 0 (time_slot cfg) \<and>
     (c_pc c = CNone \<longrightarrow> c_proc c = None) \<and>
     (c_pc c \<in> {CCharge, CFetch False, CGetSlot, CNone} \<or> (c_proc c = None \<and> c_pc c \<in> {CTop, CCheck, CNext}) \<longrightarrow> c_time_left c = 0) \<and>
     (c_proc c \<noteq> None \<and> c_pc c \<in> {CTop, CRun, CNext} \<or> c_pc c = CCheck \<and> c_time_left c \<noteq> 0 \<longrightarrow>
        c_use_time c + c_time_left c \<le> c_remaining c)"

lemma ck_int_Inr: "ck_int x = Inr y \<Longrightarrow> y = x"
  by (simp add: ck_int_def split: if_splits)

lemma cpu_fetch_cpu:
  "cpu_fetch i c nn s = Some s' \<Longrightarrow>
     \<exists>r. o_cpu s' i = c\<lparr>c_proc := r, c_pc := (if r = None then nn else CGetSlot)\<rparr>"
  by (auto simp: cpu_fetch_def split: option.splits)

lemma cpu_top_cpu:
  assumes "cpu_top i c s = Inr s'"
  shows "o_cpu s' i = c\<lparr>c_pc := CFree\<rparr> \<or> o_cpu s' i = c\<lparr>c_pc := CCharge\<rparr> \<and> c_time_left c = 0 \<or>
     o_cpu s' i = c\<lparr>c_pc := CCheck\<rparr> \<and> c_time_left c \<noteq> 0"
proof -
  from assms obtain p b where p: "the_proc c s = Inr (p, b)" by (auto simp: cpu_top_def bindR_eq_Inr)
  consider "pc b = c_size (code b)" | "pc b \<noteq> c_size (code b)" "c_time_left c = 0" | "pc b \<noteq> c_size (code b)" "c_time_left c \<noteq> 0"
    by blast
  then show ?thesis using assms p by cases (auto simp: cpu_top_def bindR_eq_Inr)
qed

lemma cpu_routine_slice:
  assumes r: "cpu_routine env i s = Some (Inr s')" and ok: "slice_ok (e_cfg env) (o_cpu s i)"
  shows "slice_ok (e_cfg env) (o_cpu s' i)"
proof -
  let ?c = "o_cpu s i"
  note k = ok [unfolded slice_ok_def]
  show ?thesis
  proof (cases "c_pc ?c")
    case CTop
    show ?thesis
    proof (cases "c_proc ?c")
      case None
      with CTop r obtain x where "o_cpu s' i = ?c\<lparr>c_proc := x, c_pc := (if x = None then CNone else CGetSlot)\<rparr>"
        by (auto simp: cpu_routine_def dest: cpu_fetch_cpu)
      then show ?thesis using k CTop None by (simp add: slice_ok_def)
    next
      case (Some p)
      with CTop r have "cpu_top i ?c s = Inr s'" by (simp add: cpu_routine_def)
      from cpu_top_cpu [OF this] show ?thesis using k CTop Some by (auto simp: slice_ok_def)
    qed
  next
    case (CFetch fin)
    let ?c' = "if fin then ?c\<lparr>c_time_left := 0, c_use_time := 0\<rparr> else ?c"
    from CFetch r obtain x where "o_cpu s' i = ?c'\<lparr>c_proc := x, c_pc := (if x = None then CCheck else CGetSlot)\<rparr>"
      by (auto simp: cpu_routine_def Let_def dest: cpu_fetch_cpu split: if_splits)
    then show ?thesis using k CFetch by (auto simp: slice_ok_def)
  next
    case CCheck
    with r have s': "s' = cpu_check (e_cfg env) i ?c s" by (simp add: cpu_routine_def)
    show ?thesis unfolding s' cpu_check_def using k CCheck by (auto simp: slice_ok_def)
  next
    case CRun
    with r obtain tl ut where c: "o_cpu s' i = ?c\<lparr>c_time_left := tl, c_use_time := ut, c_pc := CNext\<rparr>"
        and p: "c_proc ?c \<noteq> None" and t: "ck_int (c_time_left ?c - 1) = Inr tl" "ck_int (c_use_time ?c + 1) = Inr ut"
      by (auto simp: cpu_routine_def Let_def cpu_run_def the_proc_def bindR_eq_Inr split: option.splits)
    have "tl = c_time_left ?c - 1" "ut = c_use_time ?c + 1" using t by (blast dest: ck_int_Inr)+
    then show ?thesis using k p c CRun by (auto simp: slice_ok_def)
  qed (use r k in \<open>auto simp: cpu_routine_def Let_def slice_ok_def bindR_eq_Inr the_proc_def split: option.splits if_splits\<close>)
qed

lemma cpu_routine_other: "cpu_routine env i s = Some (Inr s') \<Longrightarrow> j \<noteq> i \<Longrightarrow> o_cpu s' j = o_cpu s j"
  by (cases "c_pc (o_cpu s i)") (auto simp: cpu_defs bindR_eq_Inr split: if_splits option.splits)

lemma os_step_cpu_other:
  assumes "os_step env s s'"
  shows "o_cpu s' j = o_cpu s j \<or> (\<exists>i. j = i \<and> is_running i s \<and> cpu_routine env i s = Some (Inr s'))"
  using assms
proof cases
  case (cpu i)
  then show ?thesis using cpu_routine_other [OF cpu(3), of j] by (cases "j = i") auto
qed (auto dest: ld_routine_cpu)

lemma os_reach_slice: "os_reach env s \<Longrightarrow> slice_ok (e_cfg env) (o_cpu s i)"
proof (induction rule: os_reach.induct)
  case (boot mram0 mswp0 s)
  then show ?case by (auto simp: main_def Let_def bindR_eq_Inr slice_ok_def cpu0_def)
next
  case (step s s')
  then show ?case using os_step_cpu_other [OF step(2), of i] cpu_routine_slice by metis
qed

section \<open>One processor\<close>

text \<open>
  With a single processor nobody uses up the slots of a priority between \<open>get_proc\<close> and \<open>get_slot\<close>: the process
  that has been taken has slots left, and the rest of its slice never gets negative.
\<close>

definition one_ok :: "config \<Rightarrow> os_t \<Rightarrow> bool" where
  "one_ok cfg s \<longleftrightarrow> (let c = o_cpu s 0 in 0 \<le> c_time_left c \<and> (c_pc c = CRun \<longrightarrow> 0 < c_time_left c) \<and>
     (c_pc c = CCheck \<and> c_proc c \<noteq> None \<and> c_time_left c = 0 \<longrightarrow> 0 < c_remaining c) \<and>
     (c_pc c = CGetSlot \<longrightarrow> (\<exists>p b. c_proc c = Some p \<and> o_pcbs s p = Some b \<and> 0 < slot (o_sched s) ! prio b)))"

lemma one_okD:
  assumes "one_ok cfg s"
  shows "0 \<le> c_time_left (o_cpu s 0)" "c_pc (o_cpu s 0) = CRun \<Longrightarrow> 0 < c_time_left (o_cpu s 0)"
    "c_pc (o_cpu s 0) = CCheck \<Longrightarrow> c_proc (o_cpu s 0) \<noteq> None \<Longrightarrow> c_time_left (o_cpu s 0) = 0 \<Longrightarrow> 0 < c_remaining (o_cpu s 0)"
    "c_pc (o_cpu s 0) = CGetSlot \<Longrightarrow> \<exists>p b. c_proc (o_cpu s 0) = Some p \<and> o_pcbs s p = Some b \<and> 0 < slot (o_sched s) ! prio b"
  using assms unfolding one_ok_def Let_def by blast+

text \<open>What a fetch brings.\<close>

lemma fetched_slot:
  assumes inv: "os_inv n s" and f: "cpu_fetch i c nn s = Some s'" and nn: "nn \<noteq> CGetSlot" "nn \<noteq> CRun"
  shows "(c_proc (o_cpu s' i) = None \<and> c_pc (o_cpu s' i) = nn) \<or> (c_pc (o_cpu s' i) = CGetSlot \<and>
    (\<exists>p b. c_proc (o_cpu s' i) = Some p \<and> o_pcbs s' p = Some b \<and> 0 < slot (o_sched s') ! prio b))"
proof -
  note v = os_invD(3) [OF inv]
  from f obtain r sc where g: "get_proc (o_sched s) = Some (r, sc)"
    and s': "s' = set_cpu i (c\<lparr>c_proc := r, c_pc := (if r = None then nn else CGetSlot)\<rparr>) (set_sched sc s)"
    by (auto simp: cpu_fetch_def split: option.splits)
  show ?thesis
  proof (cases r)
    case None
    then show ?thesis by (simp add: s')
  next
    case (Some p)
    obtain k where k: "k < MAX_PRIO" "ready_at (o_sched s) k = p # ready_at sc k" "0 < slot sc ! k"
      using get_proc_cases [OF os_own_invD(1) [OF v] g] Some by auto
    with os_own_invD(3) [OF v k(1), of p] obtain b where "o_pcbs s p = Some b" "prio b = k" by auto
    with k(3) Some s' show ?thesis by (simp add: set_sched_def set_cpu_def)
  qed
qed

lemma one_ok_cpu:
  assumes inv: "os_inv n s" and ts: "0 < time_slot (e_cfg env)" and ok: "one_ok (e_cfg env) s"
    and sl: "slice_ok (e_cfg env) (o_cpu s 0)" and r: "cpu_routine env 0 s = Some (Inr s')"
  shows "one_ok (e_cfg env) s'"
proof -
  let ?c = "o_cpu s 0"
  note d = one_okD [OF ok]
  have fetch: "one_ok (e_cfg env) s'" if f: "cpu_fetch 0 c nn s = Some s'" and nn: "nn \<in> {CNone, CCheck}" and l: "c_time_left c = 0" for c nn
  proof -
    obtain q where "o_cpu s' 0 = c\<lparr>c_proc := q, c_pc := (if q = None then nn else CGetSlot)\<rparr>"
      using cpu_fetch_cpu [OF f] by blast
    with fetched_slot [OF inv f] nn l show ?thesis unfolding one_ok_def by (auto split: if_splits)
  qed
  show ?thesis
  proof (cases "c_pc ?c")
    case CTop
    show ?thesis
    proof (cases "c_proc ?c")
      case None
      with CTop r have f: "cpu_fetch 0 ?c CNone s = Some s'" by (simp add: cpu_routine_def)
      have "c_time_left ?c = 0" using sl CTop None by (simp add: slice_ok_def)
      with fetch [OF f] show ?thesis by blast
    next
      case (Some p)
      with CTop r have "cpu_top 0 ?c s = Inr s'" by (simp add: cpu_routine_def)
      from cpu_top_cpu [OF this] d(1) show ?thesis by (auto simp: one_ok_def)
    qed
  next
    case (CFetch fin)
    let ?c' = "if fin then ?c\<lparr>c_time_left := 0, c_use_time := 0\<rparr> else ?c"
    from CFetch r have f: "cpu_fetch 0 ?c' CCheck s = Some s'" by (simp add: cpu_routine_def Let_def split: if_splits)
    have "c_time_left ?c' = 0" using sl CFetch by (auto simp: slice_ok_def)
    with fetch [OF f] show ?thesis by blast
  next
    case CGetSlot
    with d(4) obtain p b where p: "c_proc ?c = Some p" "o_pcbs s p = Some b" "0 < slot (o_sched s) ! prio b" by blast
    with CGetSlot r d(1) show ?thesis
      by (auto simp: cpu_routine_def Let_def the_proc_held [OF p(1,2)] bindR_eq_Inr get_slot_def one_ok_def split: if_splits)
  next
    case CCheck
    with r have s': "s' = cpu_check (e_cfg env) 0 ?c s" by (simp add: cpu_routine_def)
    show ?thesis unfolding s' using ts d(1) d(3) [OF CCheck] by (auto simp: cpu_check_def one_ok_def Let_def)
  next
    case CRun
    with r obtain tl ut where "o_cpu s' 0 = ?c\<lparr>c_time_left := tl, c_use_time := ut, c_pc := CNext\<rparr>"
        and t: "ck_int (c_time_left ?c - 1) = Inr tl"
      by (auto simp: cpu_routine_def Let_def cpu_run_def bindR_eq_Inr split: option.splits)
    with d(2) [OF CRun] ck_int_Inr [OF t] show ?thesis by (simp add: one_ok_def)
  qed (use r d(1) in \<open>auto simp: cpu_routine_def Let_def one_ok_def bindR_eq_Inr split: if_splits\<close>)
qed

lemma one_ok_ld:
  assumes r: "ld_routine env p s = Inr (Returns s')" and ok: "one_ok cfg s" and p: "p \<notin> dom (o_pcbs s)"
  shows "one_ok cfg s'"
proof -
  have c: "o_cpu s' = o_cpu s" by (rule ld_routine_cpu [OF r])
  have "slot (o_sched s') = slot (o_sched s) \<and> (\<forall>q b. o_pcbs s q = Some b \<longrightarrow> (\<exists>b'. o_pcbs s' q = Some b' \<and> prio b' = prio b))"
  proof (cases "o_ld s")
    case (LLoad i)
    with r p show ?thesis
      by (cases "i < length (ld_processes (e_cfg env))")
        (auto simp: ld_routine_def set_pcbs_def elim!: ld_load_Returns)
  next
    case (LWait i q)
    with r show ?thesis
      by (cases "current_time (o_tm s) < l_start (ld_processes (e_cfg env) ! i)")
        (auto simp: ld_routine_def set_pcbs_def set_sched_def elim!: ld_add_Returns)
  qed (use r in \<open>auto simp: ld_routine_def\<close>)
  then show ?thesis using ok c unfolding one_ok_def Let_def by metis
qed

lemma os_reach_one:
  assumes "os_reach env s" and "good_env env" and "num_cpus (e_cfg env) = 1" and "0 < time_slot (e_cfg env)"
  shows "one_ok (e_cfg env) s"
  using assms
proof (induction rule: os_reach.induct)
  case (boot mram0 mswp0 s)
  then show ?case by (auto simp: main_def Let_def bindR_eq_Inr one_ok_def cpu0_def)
next
  case (step s s')
  then have ok: "one_ok (e_cfg env) s" and inv: "os_inv 1 s" using os_reach_inv [of env s] by auto
  have keep: "one_ok (e_cfg env) (s\<lparr>o_tm := t\<rparr>)" for t using ok by (simp add: one_ok_def)
  from step(2) show ?case
  proof cases
    case (cpu i)
    with step(5) have "i = 0" by simp
    with one_ok_cpu [OF inv step(6) ok os_reach_slice [OF step(1)]] cpu(3) show ?thesis by blast
  next
    case (loader p)
    with one_ok_ld [OF loader(3) ok] show ?thesis by blast
  qed (use keep in simp_all)
qed

end
