(* ===== verification/Machine_Props.thy ===== *)
theory Machine_Props imports Runs Slices begin

text \<open>
  Properties of the running machine (\<^verbatim>\<open>src/os.c\<close>).  The witnesses use the runs of theory \<open>Runs\<close>.
\<close>

section \<open>Properties\<close>

text \<open>C7: isolation in every interleaving of processors, loader and timer, as long as every instruction stays
  inside the memory of its process: the pages of different processes lie on different frames, which
  exist and are not free, and a processor changes neither the control block of a process it does not
  hold nor any byte of its frames; the loader changes no byte of memory.\<close>

theorem machine_isolates_processes:
  assumes "iso_reach env s" and "clean_env env"
    and "o_pcbs s p = Some b" and "mm b = Some m"
  shows "mapped m \<subseteq> real_frames (k_mram (o_k s)) \<and> mapped m \<inter> set (free_frames (k_mram (o_k s))) = {} \<and>
    (\<forall>q c n. q \<noteq> p \<longrightarrow> o_pcbs s q = Some c \<longrightarrow> mm c = Some n \<longrightarrow> mapped m \<inter> mapped n = {}) \<and>
    (\<forall>i s'. i < num_cpus (e_cfg env) \<longrightarrow> all_cautious env s \<longrightarrow> c_proc (o_cpu s i) \<noteq> Some p \<longrightarrow>
       cpu_routine env i s = Some (Inr s') \<longrightarrow> o_pcbs s' p = Some b \<and>
       (\<forall>a. a div 256 \<in> mapped m \<longrightarrow> storage (k_mram (o_k s')) a = storage (k_mram (o_k s)) a)) \<and>
    (\<forall>x s'. x \<notin> dom (o_pcbs s) \<longrightarrow> ld_routine env x s = Inr (Returns s') \<longrightarrow>
       storage (k_mram (o_k s')) = storage (k_mram (o_k s)))"
proof -
  have inv: "mem_inv (o_k s)" using assms(1,2) by (rule iso_reach_mem)
  then have "kernel_inv (o_k s)" by (simp add: mem_inv_def)
  from kernel_invD [OF this assms(3,4)]
  have f: "frames_inv (others_of (o_pcbs s) p) {} m (k_mram (o_k s))" by (simp add: proc_inv_def ctx_of_def)
  have pm: "pmapped (o_pcbs s) p = mapped m" using assms(3,4) by (simp add: pmapped_def)
  have q: "mapped n \<subseteq> others_of (o_pcbs s) p" if "q \<noteq> p" "o_pcbs s q = Some c" "mm c = Some n" for q c n
    using that by (auto simp: others_of_def pmapped_def)
  show ?thesis
  proof (intro conjI allI impI)
    show "mapped m \<subseteq> real_frames (k_mram (o_k s))" "mapped m \<inter> set (free_frames (k_mram (o_k s))) = {}"
      using f by (simp_all add: frames_inv_def)
    show "mapped m \<inter> mapped n = {}" if "q \<noteq> p" "o_pcbs s q = Some c" "mm c = Some n" for q c n
      using q [OF that] f unfolding frames_inv_def by blast
  next
    fix i s' assume *: "i < num_cpus (e_cfg env)" "all_cautious env s" "c_proc (o_cpu s i) \<noteq> Some p"
      "cpu_routine env i s = Some (Inr s')"
    from cpu_routine_touches [OF inv *(4,2,1)] *(3) pm assms(3)
    show "o_pcbs s' p = Some b" "a div 256 \<in> mapped m \<Longrightarrow> storage (k_mram (o_k s')) a = storage (k_mram (o_k s)) a" for a
      by (auto simp: touches_only_def)
  next
    fix x s' assume "x \<notin> dom (o_pcbs s)" "ld_routine env x s = Inr (Returns s')"
    with ld_routine_mem [OF inv assms(2)] show "storage (k_mram (o_k s')) = storage (k_mram (o_k s))" by blast
  qed
qed

theorem machine_isolates_processes_witness:
  "\<exists>s b m. iso_reach (prog_env 2 alloc_prog) s \<and> o_pcbs s 1 = Some b \<and> mm b = Some m \<and> mapped m \<noteq> {} \<and>
     mapped m \<subseteq> real_frames (k_mram (o_k s)) \<and> mapped m \<inter> set (free_frames (k_mram (o_k s))) = {}"
proof -
  obtain s b m where s: "iso_reach (prog_env 2 alloc_prog) s" "o_pcbs s 1 = Some b" "mm b = Some m" "online m 0"
    using alloc_ran by blast
  then have "mapped m \<noteq> {}" by (auto simp: mapped_def)
  with s machine_isolates_processes [OF s(1) prog_clean s(2,3)] show ?thesis by blast
qed

text \<open>C9: in every interleaving of the processors, the loader and the timer, a step of a processor between
  its scheduler calls returns and never follows a pointer to a freed control block, never leaves an array
  and never waits for ever for a process, whatever the other threads do; only the instruction of the process itself
  may fault.  The configuration is assumed to have priorities below 140 and no program that
  calls \<open>killall\<close>.\<close>

theorem processor_never_faults:
  assumes "os_reach env s" and "good_env env" and "i < num_cpus (e_cfg env)" and "is_running i s"
    and "c_pc (o_cpu s i) \<noteq> CRun"
  shows "\<exists>s'. cpu_routine env i s = Some (Inr s') \<and> os_reach env s'"
proof -
  from cpu_routine_runs [OF os_reach_inv [OF assms(1,2)] assms(3-5), of env] obtain s' where
    "cpu_routine env i s = Some (Inr s')" by blast
  with assms(1,3,4) show ?thesis by (blast intro: os_reach.step os_step.cpu)
qed

theorem processor_never_faults_witness:
  "\<exists>s s'. c_pc (o_cpu s 0) = CGetSlot \<and> cpu_routine (demo_env 2) 0 s = Some (Inr s')"
proof -
  obtain s where s: "os_reach (demo_env 2) s" "o_tm s = timer_init 2" "o_cpu s 0 = cpu0\<lparr>c_proc := Some 1, c_pc := CGetSlot\<rparr>"
    using calc_runs(1) [of 2] by blast
  have "\<exists>s'. cpu_routine (demo_env 2) 0 s = Some (Inr s') \<and> os_reach (demo_env 2) s'"
    by (rule processor_never_faults [OF s(1) demo_good]) (simp_all add: s is_running_def fresh_dev_def)
  then obtain s' where "cpu_routine (demo_env 2) 0 s = Some (Inr s')" by blast
  with s(3) show ?thesis by (intro exI [of _ s] exI [of _ s']) simp
qed

text \<open>C10: a process has one holder: while a processor holds a process its control block is allocated, it is in no
  ready queue, no other processor holds it and the loader does not either, so that no process ever runs
  on two processors at the same time.\<close>

theorem one_holder:
  assumes "os_reach env s" and "good_env env" and "i < num_cpus (e_cfg env)" and "owned (o_cpu s i) = Some p"
  shows "p \<in> dom (o_pcbs s) \<and> p \<notin> all_ready (o_sched s) \<and> ld_owned (o_ld s) \<noteq> Some p \<and>
    (\<forall>j<num_cpus (e_cfg env). j \<noteq> i \<longrightarrow> owned (o_cpu s j) \<noteq> Some p)"
proof -
  let ?n = "num_cpus (e_cfg env)"
  note v = os_invD(3) [OF os_reach_inv [OF assms(1,2)]]
  have h: "holder ?n s i = Some p" using assms(3,4) by (simp add: holder_cpu)
  have u: "holder ?n s d = Some p \<Longrightarrow> d = i" for d using os_own_invD(5) [OF v h] by metis
  have "ld_owned (o_ld s) \<noteq> Some p" using u [of ?n] assms(3) by (auto simp: holder_def)
  moreover have "owned (o_cpu s j) \<noteq> Some p" if "j < ?n" "j \<noteq> i" for j using u [of j] that by (auto simp: holder_cpu)
  ultimately show ?thesis using os_own_invD(4) [OF v h] by blast
qed

theorem one_holder_witness:
  "\<exists>s. owned (o_cpu s 0) = Some 1 \<and> c_pc (o_cpu s 0) = CRun \<and> 1 \<in> dom (o_pcbs s) \<and> 1 \<notin> all_ready (o_sched s)"
proof -
  obtain s v where s: "os_reach (demo_env 2) s"
      "o_cpu s 0 = \<lparr>c_pc = CRun, c_proc = Some 1, c_time_left = min 2 v, c_use_time = 0, c_remaining = v\<rparr>"
    using calc_runs(2) [of 2] by blast
  then have o: "owned (o_cpu s 0) = Some 1" by (simp add: owned_def)
  have "1 \<in> dom (o_pcbs s) \<and> 1 \<notin> all_ready (o_sched s) \<and> ld_owned (o_ld s) \<noteq> Some 1 \<and>
      (\<forall>j<num_cpus (e_cfg (demo_env 2)). j \<noteq> 0 \<longrightarrow> owned (o_cpu s j) \<noteq> Some 1)"
    by (rule one_holder [OF s(1) demo_good _ o]) simp
  with o s(2) show ?thesis by (intro exI [of _ s]) simp
qed

text \<open>No process is left behind: when all processors have stopped (and there is at least one), the loader has
  loaded every process, no ready queue holds a process and no processor does.\<close>

theorem no_process_left:
  assumes "os_reach env s" and "good_env env" and "0 < num_cpus (e_cfg env)"
    and "\<forall>i<num_cpus (e_cfg env). c_pc (o_cpu s i) = CStopped"
  shows "all_ready (o_sched s) = {} \<and> o_done s \<and> o_ld s \<in> {LDetach, LEnded} \<and>
    (\<forall>i<num_cpus (e_cfg env). c_proc (o_cpu s i) = None)"
proof -
  let ?n = "num_cpus (e_cfg env)"
  note e = end_invD [OF os_reach_end_inv [OF assms(1-3)]]
  have ended: "cpu_ended (o_cpu s i)" if "i < ?n" for i using that assms(4) by (simp add: cpu_ended_def)
  with e(1) [OF assms(3)] assms(3) have d: "o_done s" by blast
  have "\<not> served ?n s" using d ended by (auto simp: served_def cpu_active_def)
  with e(3) have "all_ready (o_sched s) = {}" by blast
  moreover have "c_proc (o_cpu s i) = None" if "i < ?n" for i
    using os_invD(4) [OF os_reach_inv [OF assms(1,2)], of i] assms(4) that by (simp add: cpu_shape_def)
  ultimately show ?thesis using d e(2) by blast
qed

theorem no_process_left_witness: "\<exists>s. os_reach empty_env s \<and> c_pc (o_cpu s 0) = CStopped \<and> all_ready (o_sched s) = {}"
proof -
  obtain s where s: "os_reach empty_env s" "c_pc (o_cpu s 0) = CStopped" using empty_ended by blast
  with no_process_left [OF s(1) empty_good] show ?thesis by auto
qed

text \<open>C24: the machine refines the timer: in every reachable state the timer component is a reachable state of
  the barrier with one device for each processor and one for the loader, and every step of the machine is a
  step of the barrier or leaves it alone, so the barrier properties hold of the whole system.\<close>

theorem machine_refines_timer:
  assumes "os_reach env s" and "os_step env s s'"
  shows "reach (num_cpus (e_cfg env) + 1) (o_tm s) \<and> (o_tm s' = o_tm s \<or> tstep (o_tm s) (o_tm s'))"
  using os_reach_timer [OF assms(1)] os_step_timer [OF assms(2)] reach_dev_list by (simp del: upt_Suc)

theorem machine_refines_timer_witness:
  "\<exists>s s'. os_step (demo_env 2) s s' \<and> tstep (o_tm s) (o_tm s')"
proof -
  obtain s v where s: "os_reach (demo_env 2) s" "o_tm s = timer_init 2"
      "o_cpu s 0 = \<lparr>c_pc = CNext, c_proc = Some 1, c_time_left = min 2 v - 1, c_use_time = 1, c_remaining = v\<rparr>"
    using demo_ran [of 2] by auto
  let ?s' = "set_cpu 0 ((o_cpu s 0)\<lparr>c_pc := CTop\<rparr>) (s\<lparr>o_tm := next_slot_done 0 (o_tm s)\<rparr>)"
  have "cpu_routine (demo_env 2) 0 s = Some (Inr ?s')" by (simp add: cpu_routine_def s(3))
  then have st: "os_step (demo_env 2) s ?s'"
    by (intro os_step.cpu [of 0]) (simp_all add: is_running_def s(2) fresh_dev_def)
  have "t_done (devs (o_tm ?s') 0) \<noteq> t_done (devs (o_tm s) 0)" by (simp add: s(2) next_slot_done_def fresh_dev_def)
  then have "o_tm ?s' \<noteq> o_tm s" by metis
  with machine_refines_timer [OF s(1) st] st show ?thesis by blast
qed

text \<open>The time slice: a process that is being run has used and has left, together, at most the configured
  time slot and at most the slots of its priority that were read when it was taken; a process that is
  put back is charged a time between 0 and the time slot.\<close>

theorem time_slice_bounded:
  assumes "os_reach env s" and "c_proc (o_cpu s i) = Some p"
  shows "(c_pc (o_cpu s i) \<in> {CRun, CNext} \<longrightarrow> c_use_time (o_cpu s i) + c_time_left (o_cpu s i) \<le>
      min (max 0 (time_slot (e_cfg env))) (c_remaining (o_cpu s i))) \<and>
    (c_pc (o_cpu s i) = CCharge \<longrightarrow> c_time_left (o_cpu s i) = 0 \<and> 0 \<le> c_use_time (o_cpu s i) \<and>
      c_use_time (o_cpu s i) \<le> max 0 (time_slot (e_cfg env)))"
  using os_reach_slice [OF assms(1), of i] assms(2) by (auto simp: slice_ok_def)

theorem time_slice_bounded_witness:
  "\<exists>s v. os_reach (demo_env 2) s \<and> c_pc (o_cpu s 0) = CRun \<and> min 2 v \<le> min 2 (c_remaining (o_cpu s 0)) \<and> 0 < v"
proof -
  obtain s v where s: "os_reach (demo_env 2) s" "0 < v"
      "o_cpu s 0 = \<lparr>c_pc = CRun, c_proc = Some 1, c_time_left = min 2 v, c_use_time = 0, c_remaining = v\<rparr>"
    using calc_runs(2) [of 2] by blast
  with time_slice_bounded [OF s(1), of 0 1] show ?thesis by (intro exI [of _ s] exI [of _ v]) simp
qed

text \<open>C25: a budget that is not positive is never noticed: the test is \<open>time_left == 0\<close>, so once the remaining
  time of a slice is negative (a configured time slot of 0, or slots used up by another processor between
  \<open>get_proc\<close> and \<open>get_slot\<close>) no step of any thread preempts the process; it runs until it has finished.\<close>

theorem negative_budget_never_preempted:
  assumes "os_step env s s'" and "c_proc (o_cpu s i) = Some p" and "c_time_left (o_cpu s i) < 0"
    and "c_pc (o_cpu s i) \<in> {CTop, CCheck, CRun, CNext}"
  shows "(c_proc (o_cpu s' i) = Some p \<and> c_time_left (o_cpu s' i) < 0 \<and> c_pc (o_cpu s' i) \<in> {CTop, CCheck, CRun, CNext}) \<or>
    (c_pc (o_cpu s' i) = CFree \<and> (\<exists>b. o_pcbs s p = Some b \<and> pc b = c_size (code b)))"
  using os_step_cpu_other [OF assms(1), of i]
proof
  assume "o_cpu s' i = o_cpu s i"
  with assms show ?thesis by simp
next
  assume "\<exists>k. i = k \<and> is_running k s \<and> cpu_routine env k s = Some (Inr s')"
  then have r: "cpu_routine env i s = Some (Inr s')" by blast
  from assms(4) consider "c_pc (o_cpu s i) = CTop" | "c_pc (o_cpu s i) = CCheck" | "c_pc (o_cpu s i) = CRun" | "c_pc (o_cpu s i) = CNext"
    by blast
  then show ?thesis
  proof cases
    case 1
    then show ?thesis using r assms(2,3)
      by (auto simp: cpu_routine_def Let_def cpu_top_def the_proc_def bindR_eq_Inr split: if_splits)
  next
    case 2
    then show ?thesis using r assms(2,3) by (auto simp: cpu_routine_def Let_def cpu_check_def)
  next
    case 3
    then show ?thesis using r assms(2,3)
      by (auto simp: cpu_routine_def Let_def cpu_run_def the_proc_def bindR_eq_Inr dest!: ck_int_Inr)
  next
    case 4
    then show ?thesis using r assms(2,3) by (auto simp: cpu_routine_def Let_def)
  qed
qed

theorem negative_budget_never_preempted_witness:
  "\<exists>s s'. os_reach (demo_env 0) s \<and> os_step (demo_env 0) s s' \<and> c_pc (o_cpu s 0) = CNext \<and>
     c_proc (o_cpu s' 0) = Some 1 \<and> c_time_left (o_cpu s' 0) < 0"
proof -
  obtain s v where s: "os_reach (demo_env 0) s" "o_tm s = timer_init 2" "0 < v"
      "o_cpu s 0 = \<lparr>c_pc = CNext, c_proc = Some 1, c_time_left = min 0 v - 1, c_use_time = 1, c_remaining = v\<rparr>"
    using demo_ran [of 0] by auto
  let ?s' = "set_cpu 0 ((o_cpu s 0)\<lparr>c_pc := CTop\<rparr>) (s\<lparr>o_tm := next_slot_done 0 (o_tm s)\<rparr>)"
  have "cpu_routine (demo_env 0) 0 s = Some (Inr ?s')" by (simp add: cpu_routine_def s(4))
  then have st: "os_step (demo_env 0) s ?s'"
    by (intro os_step.cpu [of 0]) (simp_all add: is_running_def s(2) fresh_dev_def)
  from negative_budget_never_preempted [OF st, of 0 1] s st show ?thesis by (intro exI [of _ s] exI [of _ ?s']) auto
qed

end
