(* ===== verification/Trace.thy ===== *)
theory Trace imports Slices begin

text \<open>
  What the machine does as a list of events: the lines that the threads of \<^verbatim>\<open>src/os.c\<close> print, and the
  instructions they execute.  \<open>replay\<close> follows such a list and records which program every process runs,
  which instructions of it have been executed and which processor has announced it.

  The lemmas show that the events of every interleaving can be replayed: an instruction is executed
  only by the processor that has dispatched its process, and a process that finishes has
  executed its program from the first to the last instruction.
\<close>

section \<open>Events\<close>

text \<open>
  \<open>Loaded\<close> with the index in the configuration, the process, its path, number and priority; the messages of the
  processors with the processor, the process and its number; an executed instruction with what the
  library prints for it.
\<close>

datatype os_event =
  Loaded nat pcb_ref string int int
| Dispatched nat pcb_ref int
| PutBack nat pcb_ref int
| Finished nat pcb_ref int
| Stopped nat
| Executed nat pcb_ref inst_t run_out

text \<open>The events of the next step of processor \<open>i\<close>; a message is printed before the scheduler call that follows it.\<close>

definition cpu_events :: "os_env \<Rightarrow> nat \<Rightarrow> os_t \<Rightarrow> os_event list" where
  "cpu_events env i s =
    (let c = o_cpu s i in
     case c_proc c of
       None \<Rightarrow> (if c_pc c \<in> {CNone, CCheck} \<and> o_done s then [Stopped i] else [])
     | Some p \<Rightarrow>
         (case o_pcbs s p of
            None \<Rightarrow> []
          | Some b \<Rightarrow>
              (case c_pc c of
                 CTop \<Rightarrow>
                   if pc b = c_size (code b) then [Finished i p (pid b)]
                   else if c_time_left c = 0 then [PutBack i p (pid b)] else []
               | CCheck \<Rightarrow> if c_time_left c = 0 then [Dispatched i p (pid b)] else []
               | CRun \<Rightarrow>
                   if pc b < c_size (code b) then
                     (case run (e_zeroed env) p (o_k s) of
                        Inl _ \<Rightarrow> []
                      | Inr (_, out, _) \<Rightarrow> [Executed i p (c_text (code b) ! pc b) out])
                   else []
               | _ \<Rightarrow> [])))"

definition ld_events :: "os_env \<Rightarrow> os_t \<Rightarrow> os_event list" where
  "ld_events env s =
    (case o_ld s of
       LWait i p \<Rightarrow>
         (let a = ld_processes (e_cfg env) ! i in
          if current_time (o_tm s) < l_start a then []
          else (case o_pcbs s p of None \<Rightarrow> [] | Some b \<Rightarrow> [Loaded i p (l_path a) (pid b) (l_prio a)]))
     | _ \<Rightarrow> [])"

inductive os_run :: "os_env \<Rightarrow> os_event list \<Rightarrow> os_t \<Rightarrow> bool" for env where
  boot: "main env mram0 mswp0 = Inr s \<Longrightarrow> os_run env [] s"
| cpu: "os_run env tr s \<Longrightarrow> i < num_cpus (e_cfg env) \<Longrightarrow> is_running i s \<Longrightarrow>
    cpu_routine env i s = Some (Inr s') \<Longrightarrow> os_run env (tr @ cpu_events env i s) s'"
| loader: "os_run env tr s \<Longrightarrow> is_running (num_cpus (e_cfg env)) s \<Longrightarrow> p \<notin> dom (o_pcbs s) \<Longrightarrow>
    ld_routine env p s = Inr (Returns s') \<Longrightarrow> os_run env (tr @ ld_events env s) s'"
| enter: "os_run env tr s \<Longrightarrow> d \<le> num_cpus (e_cfg env) \<Longrightarrow> t_place (devs (o_tm s) d) = Blocked \<Longrightarrow>
    next_slot_enter d (o_tm s) = Some t \<Longrightarrow> os_run env tr (s\<lparr>o_tm := t\<rparr>)"
| tick: "os_run env tr s \<Longrightarrow> timer_routine (o_tm s) = Some t \<Longrightarrow> os_run env tr (s\<lparr>o_tm := t\<rparr>)"
| stop: "os_run env tr s \<Longrightarrow> \<forall>d\<le>num_cpus (e_cfg env). t_place (devs (o_tm s) d) = Detached \<Longrightarrow>
    os_run env tr (s\<lparr>o_tm := stop_timer_flag (o_tm s)\<rparr>)"

lemma os_run_reach: "os_run env tr s \<Longrightarrow> os_reach env s"
  by (induction rule: os_run.induct) (auto intro: os_reach.intros os_step.intros)

lemma os_reach_run: "os_reach env s \<Longrightarrow> \<exists>tr. os_run env tr s"
proof (induction rule: os_reach.induct)
  case (step s s')
  then obtain tr where "os_run env tr s" by blast
  with step(2) show ?case by (cases rule: os_step.cases) (blast intro: os_run.intros)+
qed (blast intro: os_run.boot)

section \<open>Following the events\<close>

text \<open>Whether a processor has announced the process.\<close>

datatype place = Waiting | On nat

type_synonym life = "nat \<times> inst_t list \<times> place"

fun track :: "os_event \<Rightarrow> (pcb_ref \<rightharpoonup> life) \<times> (nat \<times> inst_t list) list \<Rightarrow>
    ((pcb_ref \<rightharpoonup> life) \<times> (nat \<times> inst_t list) list) option" where
  "track (Loaded i p _ _ _) (l, fin) = (if l p = None then Some (l(p \<mapsto> (i, [], Waiting)), fin) else None)"
| "track (Dispatched j p _) (l, fin) =
    (case l p of Some (i, xs, Waiting) \<Rightarrow> Some (l(p \<mapsto> (i, xs, On j)), fin) | _ \<Rightarrow> None)"
| "track (PutBack j p _) (l, fin) =
    (case l p of Some (i, xs, On k) \<Rightarrow> if k = j then Some (l(p \<mapsto> (i, xs, Waiting)), fin) else None | _ \<Rightarrow> None)"
| "track (Executed j p ins _) (l, fin) =
    (case l p of Some (i, xs, On k) \<Rightarrow> if k = j then Some (l(p \<mapsto> (i, xs @ [ins], On k)), fin) else None | _ \<Rightarrow> None)"
| "track (Finished j p _) (l, fin) =
    (case l p of Some (i, xs, On k) \<Rightarrow> if k = j then Some (l(p := None), fin @ [(i, xs)]) else None | _ \<Rightarrow> None)"
| "track (Stopped j) st = Some st"

definition replay :: "os_event list \<Rightarrow> ((pcb_ref \<rightharpoonup> life) \<times> (nat \<times> inst_t list) list) option" where
  "replay tr = foldl (\<lambda>st e. Option.bind st (track e)) (Some (Map.empty, [])) tr"

lemma replay_simps [simp]:
  "replay [] = Some (Map.empty, [])" "replay (tr @ [e]) = Option.bind (replay tr) (track e)"
  by (simp_all add: replay_def)

section \<open>The effect of a step\<close>

text \<open>The program of the \<open>i\<close>-th process of the configuration.\<close>

definition program :: "os_env \<Rightarrow> nat \<Rightarrow> code_seg_t" where
  "program env i =
    (let a = ld_processes (e_cfg env) ! i in
     case load (e_pcb0 env i) (e_text0 env i) 1 (l_path a) (e_file env (l_path a)) of
       Inr (Returns b, _) \<Rightarrow> code b
     | _ \<Rightarrow> \<lparr>c_text = [], c_size = 0\<rparr>)"

lemma load_program:
  assumes "load (e_pcb0 env i) (e_text0 env i) n (l_path (ld_processes (e_cfg env) ! i))
      (e_file env (l_path (ld_processes (e_cfg env) ! i))) = Inr (Returns b, n')"
  shows "code b = program env i" and "pc b = 0" and "c_size (code b) = length (c_text (code b))"
  using assms by (auto simp: program_def Let_def elim!: load_Returns)

text \<open>An instruction moves the program counter of its process by one and changes nothing else but its memory descriptor.\<close>

lemma run_pc:
  assumes r: "run z p k = Inr (st, out, k')" and b: "k_pcbs k p = Some b" and nk: "no_kill b"
    and more: "pc b < c_size (code b)"
  shows "pc b < length (c_text (code b)) \<and> (\<exists>m. k_pcbs k' = (k_pcbs k)(p \<mapsto> b\<lparr>pc := pc b + 1, mm := m\<rparr>))"
proof -
  let ?b = "b\<lparr>pc := pc b + 1\<rparr>"
  let ?k = "k\<lparr>k_pcbs := (k_pcbs k)(p \<mapsto> ?b)\<rparr>"
  let ?ins = "c_text (code b) ! pc b"
  from more r b have l: "pc b < length (c_text (code b))" and e: "exec_ins z p ?ins ?k = Inr (st, out, k')"
    by (auto simp: run_def deref_Some split: if_splits)
  have "opcode ?ins = SYSCALL \<Longrightarrow> arg_0 ?ins \<noteq> 101" using nk l by (auto simp: no_kill_def list_all_length)
  from exec_ins_frame [OF e _ this, of ?b] l show ?thesis by auto
qed

text \<open>The processor has announced the process it holds.\<close>

definition on_cpu :: "cpu_t \<Rightarrow> pcb_ref \<Rightarrow> bool" where
  "on_cpu c p \<longleftrightarrow> c_proc c = Some p \<and> (c_pc c \<in> {CRun, CNext, CTop} \<or> c_pc c = CCheck \<and> c_time_left c \<noteq> 0)"

inductive cpu_effect :: "nat \<Rightarrow> os_t \<Rightarrow> os_event list \<Rightarrow> os_t \<Rightarrow> bool" for i s where
  exec: "c_pc (o_cpu s i) = CRun \<Longrightarrow> c_proc (o_cpu s i) = Some p \<Longrightarrow> o_pcbs s p = Some b \<Longrightarrow>
    pc b < c_size (code b) \<Longrightarrow> pc b < length (c_text (code b)) \<Longrightarrow>
    o_pcbs s' = (o_pcbs s)(p \<mapsto> b\<lparr>pc := pc b + 1, mm := m\<rparr>) \<Longrightarrow>
    c_pc (o_cpu s' i) = CNext \<Longrightarrow> c_proc (o_cpu s' i) = Some p \<Longrightarrow>
    cpu_effect i s [Executed i p (c_text (code b) ! pc b) out] s'"
| finish: "c_pc (o_cpu s i) = CTop \<Longrightarrow> c_proc (o_cpu s i) = Some p \<Longrightarrow> o_pcbs s p = Some b \<Longrightarrow>
    pc b = c_size (code b) \<Longrightarrow> o_pcbs s' = o_pcbs s \<Longrightarrow>
    c_pc (o_cpu s' i) = CFree \<Longrightarrow> c_proc (o_cpu s' i) = Some p \<Longrightarrow> cpu_effect i s [Finished i p (pid b)] s'"
| put: "c_pc (o_cpu s i) = CTop \<Longrightarrow> c_proc (o_cpu s i) = Some p \<Longrightarrow> o_pcbs s p = Some b \<Longrightarrow>
    o_pcbs s' = (o_pcbs s)(p \<mapsto> b\<lparr>queues_set := True\<rparr>) \<Longrightarrow> c_pc (o_cpu s' i) = CCharge \<Longrightarrow>
    cpu_effect i s [PutBack i p (pid b)] s'"
| dispatch: "c_pc (o_cpu s i) = CCheck \<Longrightarrow> c_proc (o_cpu s i) = Some p \<Longrightarrow> o_pcbs s p = Some b \<Longrightarrow>
    c_time_left (o_cpu s i) = 0 \<Longrightarrow> o_pcbs s' = o_pcbs s \<Longrightarrow>
    c_pc (o_cpu s' i) = CRun \<Longrightarrow> c_proc (o_cpu s' i) = Some p \<Longrightarrow> cpu_effect i s [Dispatched i p (pid b)] s'"
| free: "c_pc (o_cpu s i) = CFree \<Longrightarrow> c_proc (o_cpu s i) = Some p \<Longrightarrow> o_pcbs s' = (o_pcbs s)(p := None) \<Longrightarrow>
    c_pc (o_cpu s' i) = CFetch True \<Longrightarrow> cpu_effect i s [] s'"
| quiet: "o_pcbs s' = o_pcbs s \<Longrightarrow> c_pc (o_cpu s i) \<noteq> CFree \<Longrightarrow> c_pc (o_cpu s' i) \<noteq> CFree \<Longrightarrow>
    (\<And>p. on_cpu (o_cpu s' i) p = on_cpu (o_cpu s i) p) \<Longrightarrow> evs \<in> {[], [Stopped i]} \<Longrightarrow> cpu_effect i s evs s'"

lemma quiet_nil:
  "o_pcbs s' = o_pcbs s \<Longrightarrow> c_pc (o_cpu s i) \<noteq> CFree \<Longrightarrow> c_pc (o_cpu s' i) \<noteq> CFree \<Longrightarrow>
    (\<And>p. on_cpu (o_cpu s' i) p = on_cpu (o_cpu s i) p) \<Longrightarrow> cpu_effect i s [] s'"
  by (rule cpu_effect.quiet) auto

lemma cpu_routine_effect:
  assumes inv: "os_inv n s" and i: "i < n" and sl: "slice_ok (e_cfg env) (o_cpu s i)"
    and r: "cpu_routine env i s = Some (Inr s')"
  shows "cpu_effect i s (cpu_events env i s) s'"
proof -
  let ?c = "o_cpu s i"
  have sh: "cpu_shape ?c" using os_invD(4) [OF inv] .
  have blk: "\<exists>b. o_pcbs s p = Some b \<and> no_kill b" if "owned ?c = Some p" for p
    using held_alloc [OF inv i that] by metis
  show ?thesis
  proof (cases "c_pc ?c")
    case CTop
    show ?thesis
    proof (cases "c_proc ?c")
      case None
      with CTop have e: "cpu_events env i s = []" by (simp add: cpu_events_def Let_def)
      from CTop None r have f: "cpu_fetch i ?c CNone s = Some s'" by (simp add: cpu_routine_def Let_def)
      then show ?thesis unfolding e using CTop None
        by (intro quiet_nil) (auto simp: cpu_fetch_def on_cpu_def split: option.splits if_splits)
    next
      case (Some p)
      with CTop blk obtain b where b: "o_pcbs s p = Some b" by (auto simp: owned_def)
      have t: "cpu_top i ?c s = Inr s'" using CTop Some r by (simp add: cpu_routine_def Let_def)
      consider "pc b = c_size (code b)" | "pc b \<noteq> c_size (code b)" "c_time_left ?c = 0"
        | "pc b \<noteq> c_size (code b)" "c_time_left ?c \<noteq> 0" by blast
      then show ?thesis
      proof cases
        case 1
        with CTop Some b t show ?thesis
          by (auto simp: cpu_events_def cpu_top_def the_proc_held [OF Some b] bindR_eq_Inr intro!: cpu_effect.finish)
      next
        case 2
        with CTop Some b t show ?thesis
          by (auto simp: cpu_events_def cpu_top_def the_proc_held [OF Some b] bindR_eq_Inr
              elim!: put_proc_InrE intro!: cpu_effect.put)
      next
        case 3
        with CTop Some b t show ?thesis
          by (auto simp: cpu_events_def cpu_top_def the_proc_held [OF Some b] on_cpu_def intro!: quiet_nil)
      qed
    qed
  next
    case CNone
    with sh have "c_proc ?c = None" by (simp add: cpu_shape_def)
    with CNone r show ?thesis
      by (auto simp: cpu_events_def cpu_routine_def Let_def on_cpu_def intro!: cpu_effect.quiet)
  next
    case CFree
    then obtain p where p: "c_proc ?c = Some p" using sh by (auto simp: cpu_shape_def)
    with CFree blk obtain b where b: "o_pcbs s p = Some b" by (auto simp: owned_def)
    from CFree p b r show ?thesis
      by (auto simp: cpu_events_def cpu_routine_def Let_def the_proc_held [OF p b] intro!: cpu_effect.free [of s i p])
  next
    case CCharge
    then have "cpu_events env i s = []" by (auto simp: cpu_events_def Let_def split: option.splits)
    with CCharge r show ?thesis
      by (auto simp: cpu_routine_def Let_def bindR_eq_Inr on_cpu_def intro!: quiet_nil)
  next
    case (CFetch fin)
    then have "cpu_events env i s = []" by (auto simp: cpu_events_def Let_def split: option.splits)
    with CFetch r show ?thesis
      by (auto simp: cpu_routine_def Let_def cpu_fetch_def on_cpu_def split: option.splits if_splits intro!: quiet_nil)
  next
    case CGetSlot
    then have "cpu_events env i s = []" by (auto simp: cpu_events_def Let_def split: option.splits)
    moreover have "c_time_left ?c = 0" using sl CGetSlot by (simp add: slice_ok_def)
    ultimately show ?thesis using CGetSlot r
      by (auto simp: cpu_routine_def Let_def bindR_eq_Inr on_cpu_def intro!: quiet_nil)
  next
    case CCheck
    then have s': "s' = cpu_check (e_cfg env) i ?c s" using r by (simp add: cpu_routine_def)
    show ?thesis
    proof (cases "c_proc ?c")
      case None
      with CCheck show ?thesis unfolding s'
        by (auto simp: cpu_events_def cpu_check_def on_cpu_def intro!: cpu_effect.quiet)
    next
      case (Some p)
      with CCheck blk obtain b where "o_pcbs s p = Some b" by (auto simp: owned_def)
      with CCheck Some show ?thesis unfolding s'
        by (auto simp: cpu_events_def cpu_check_def on_cpu_def intro!: cpu_effect.dispatch quiet_nil)
    qed
  next
    case CRun
    then obtain p where p: "c_proc ?c = Some p" using sh by (auto simp: cpu_shape_def)
    with CRun blk obtain b where b: "o_pcbs s p = Some b" "no_kill b" by (auto simp: owned_def)
    from r CRun obtain st out k tl ut where k: "run (e_zeroed env) p (o_k s) = Inr (st, out, k)"
      and s': "s' = set_cpu i (?c\<lparr>c_time_left := tl, c_use_time := ut, c_pc := CNext\<rparr>) (s\<lparr>o_k := k\<rparr>)"
      by (auto simp: cpu_routine_def Let_def cpu_run_def the_proc_held [OF p b(1)] bindR_eq_Inr)
    show ?thesis
    proof (cases "pc b < c_size (code b)")
      case True
      with CRun p b(1) k have e: "cpu_events env i s = [Executed i p (c_text (code b) ! pc b) out]"
        by (simp add: cpu_events_def)
      from run_pc [OF k b True] obtain m where l: "pc b < length (c_text (code b))"
        "k_pcbs k = (o_pcbs s)(p \<mapsto> b\<lparr>pc := pc b + 1, mm := m\<rparr>)" by blast
      show ?thesis unfolding e by (rule cpu_effect.exec [OF CRun p b(1) True l(1)]) (simp_all add: s' l(2) p)
    next
      case False
      with k b(1) have "k = o_k s" by (simp add: run_def deref_Some)
      with False CRun p b(1) show ?thesis unfolding s'
        by (auto simp: cpu_events_def on_cpu_def intro!: quiet_nil)
    qed
  next
    case CNext
    then have "cpu_events env i s = []" by (auto simp: cpu_events_def Let_def split: option.splits)
    with CNext r show ?thesis by (auto simp: cpu_routine_def Let_def on_cpu_def intro!: quiet_nil)
  next
    case CDetach
    then have "cpu_events env i s = []" by (auto simp: cpu_events_def Let_def split: option.splits)
    with CDetach r show ?thesis by (auto simp: cpu_routine_def Let_def on_cpu_def intro!: quiet_nil)
  next
    case CStopped
    with r show ?thesis by (simp add: cpu_routine_def Let_def)
  qed
qed

section \<open>The invariant\<close>

text \<open>Every process of the configuration that has been loaded is either in progress or finished, once.\<close>

definition index_of :: "(pcb_ref \<rightharpoonup> life) \<Rightarrow> pcb_ref \<Rightarrow> nat" where
  "index_of l p = fst (the (l p))"

definition index_inv :: "nat \<Rightarrow> (pcb_ref \<rightharpoonup> life) \<Rightarrow> (nat \<times> inst_t list) list \<Rightarrow> bool" where
  "index_inv k l fin \<longleftrightarrow> distinct (map fst fin) \<and> inj_on (index_of l) (dom l) \<and>
     set (map fst fin) \<inter> index_of l ` dom l = {} \<and> set (map fst fin) \<union> index_of l ` dom l = {..<k}"

lemma index_inv_same:
  assumes "index_inv k l fin" and "l p = Some x" and "fst y = fst x"
  shows "index_inv k (l(p \<mapsto> y)) fin"
proof -
  have "index_of (l(p \<mapsto> y)) = index_of l" using assms(2,3) by (auto simp: index_of_def)
  moreover have "dom (l(p \<mapsto> y)) = dom l" using assms(2) by auto
  ultimately show ?thesis using assms(1) by (simp add: index_inv_def)
qed

lemma index_inv_new:
  assumes inv: "index_inv k l fin" and p: "l p = None"
  shows "index_inv (Suc k) (l(p \<mapsto> (k, xs, w))) fin"
proof -
  let ?l = "l(p \<mapsto> (k, xs, w))"
  note v = inv [unfolded index_inv_def]
  have same: "index_of ?l q = index_of l q" if "q \<in> dom l" for q using that p by (auto simp: index_of_def)
  have im: "index_of ?l ` dom l = index_of l ` dom l" by (rule image_cong [OF refl]) (rule same)
  have kp: "index_of ?l p = k" by (simp add: index_of_def)
  have d: "dom ?l = insert p (dom l)" by simp
  have img: "index_of ?l ` dom ?l = insert k (index_of l ` dom l)" by (simp only: d image_insert kp im)
  have fresh: "k \<notin> index_of l ` dom l" "k \<notin> set (map fst fin)" using v by blast+
  have "inj_on (index_of ?l) (dom l)" using v same by (simp add: inj_on_def)
  then have inj: "inj_on (index_of ?l) (dom ?l)" unfolding d inj_on_insert using fresh(1) im kp by auto
  show ?thesis unfolding index_inv_def img lessThan_Suc
    using v inj fresh by (intro conjI) (blast+)
qed

lemma index_inv_finish:
  assumes inv: "index_inv k l fin" and p: "l p = Some x"
  shows "index_inv k (l(p := None)) (fin @ [(fst x, xs)])"
proof -
  let ?l = "l(p := None)"
  note v = inv [unfolded index_inv_def]
  have same: "index_of ?l q = index_of l q" if "q \<in> dom l - {p}" for q using that by (auto simp: index_of_def)
  have d: "dom ?l = dom l - {p}" "p \<in> dom l" using p by auto
  have inj: "inj_on (index_of l) (dom l)" using v by blast
  have "index_of ?l ` (dom l - {p}) = index_of l ` (dom l - {p})" using same by (rule image_cong [OF refl])
  also have "\<dots> = index_of l ` dom l - {fst x}"
    using inj_on_image_set_diff [OF inj, of "dom l" "{p}"] d(2) p by (simp add: index_of_def)
  finally have im: "index_of ?l ` dom ?l = index_of l ` dom l - {fst x}" by (simp only: d(1))
  have "index_of l p = fst x" using p by (simp add: index_of_def)
  then have x: "fst x \<in> index_of l ` dom l" using d(2) by (metis imageI)
  have inj': "inj_on (index_of ?l) (dom ?l)" unfolding d(1)
    using inj same by (simp add: inj_on_def)
  have m: "set (map fst (fin @ [(fst x, xs)])) = insert (fst x) (set (map fst fin))"
    "distinct (map fst (fin @ [(fst x, xs)])) \<longleftrightarrow> fst x \<notin> set (map fst fin) \<and> distinct (map fst fin)"
    by auto
  have "fst x \<notin> set (map fst fin)" using v x by blast
  then show ?thesis unfolding index_inv_def im m using v x inj' by (intro conjI) (blast+)
qed

text \<open>How many processes the loader has handed over.\<close>

definition loads :: "os_env \<Rightarrow> ld_pc \<Rightarrow> nat" where
  "loads env l = (case l of LLoad i \<Rightarrow> i | LWait i _ \<Rightarrow> i | LNext i \<Rightarrow> i | _ \<Rightarrow> length (ld_processes (e_cfg env)))"

definition ld_wf :: "os_env \<Rightarrow> os_t \<Rightarrow> bool" where
  "ld_wf env s \<longleftrightarrow> loads env (o_ld s) \<le> length (ld_processes (e_cfg env)) \<and>
     (\<forall>i q. o_ld s = LWait i q \<longrightarrow> i < length (ld_processes (e_cfg env)) \<and>
        (\<exists>b. o_pcbs s q = Some b \<and> code b = program env i \<and> pc b = 0))"

text \<open>In progress: handed over by the loader, and no processor has reported its end.\<close>

definition in_progress :: "nat \<Rightarrow> os_t \<Rightarrow> pcb_ref \<Rightarrow> bool" where
  "in_progress n s p \<longleftrightarrow> p \<in> dom (o_pcbs s) \<and> ld_owned (o_ld s) \<noteq> Some p \<and>
     (\<forall>j<n. c_pc (o_cpu s j) = CFree \<longrightarrow> c_proc (o_cpu s j) \<noteq> Some p)"

definition life_ok :: "os_env \<Rightarrow> nat \<Rightarrow> os_t \<Rightarrow> pcb_ref \<Rightarrow> life \<Rightarrow> bool" where
  "life_ok env n s p x \<longleftrightarrow> (case x of (i, xs, w) \<Rightarrow>
     (\<exists>b. o_pcbs s p = Some b \<and> code b = program env i \<and> pc b \<le> c_size (code b) \<and> xs = take (pc b) (c_text (code b))) \<and>
     (\<forall>j<n. on_cpu (o_cpu s j) p \<longleftrightarrow> w = On j) \<and> (\<forall>j. w = On j \<longrightarrow> j < n))"

definition trace_inv :: "os_env \<Rightarrow> nat \<Rightarrow> os_t \<Rightarrow> (pcb_ref \<rightharpoonup> life) \<Rightarrow> (nat \<times> inst_t list) list \<Rightarrow> bool" where
  "trace_inv env n s l fin \<longleftrightarrow> ld_wf env s \<and> dom l = {p. in_progress n s p} \<and>
     (\<forall>p x. l p = Some x \<longrightarrow> life_ok env n s p x) \<and> index_inv (loads env (o_ld s)) l fin \<and>
     (\<forall>(i, xs) \<in> set fin. xs = c_text (program env i))"

lemma trace_invD:
  assumes "trace_inv env n s l fin"
  shows "ld_wf env s" "dom l = {p. in_progress n s p}" "l p = Some x \<Longrightarrow> life_ok env n s p x"
    "index_inv (loads env (o_ld s)) l fin" "\<forall>(i, xs) \<in> set fin. xs = c_text (program env i)"
  using assms unfolding trace_inv_def by blast+

lemma program_size: "c_size (program env i) = length (c_text (program env i))"
proof -
  let ?a = "ld_processes (e_cfg env) ! i"
  show ?thesis
  proof (cases "\<exists>b n. load (e_pcb0 env i) (e_text0 env i) 1 (l_path ?a) (e_file env (l_path ?a)) = Inr (Returns b, n)")
    case True
    then obtain b n where l: "load (e_pcb0 env i) (e_text0 env i) 1 (l_path ?a) (e_file env (l_path ?a)) = Inr (Returns b, n)"
      by blast
    from load_program(1,3) [OF l] show ?thesis by simp
  next
    case False
    then show ?thesis by (auto simp: program_def Let_def split: sum.splits exec.splits)
  qed
qed

section \<open>A step of a processor\<close>

lemma held_alone:
  assumes inv: "os_inv n s" and i: "i < n" and h: "owned (o_cpu s i) = Some p"
  shows "p \<in> dom (o_pcbs s)" and "ld_owned (o_ld s) \<noteq> Some p"
    and "j < n \<Longrightarrow> owned (o_cpu s j) = Some p \<Longrightarrow> j = i"
proof -
  note v = os_invD(3) [OF inv]
  have hi: "holder n s i = Some p" using h i by (simp add: holder_cpu)
  from os_own_invD(4) [OF v hi] show "p \<in> dom (o_pcbs s)" by blast
  show "ld_owned (o_ld s) \<noteq> Some p" using os_own_invD(5) [OF v hi, of n] i by (auto simp: holder_def)
  show "j = i" if "j < n" "owned (o_cpu s j) = Some p"
    using os_own_invD(5) [OF v hi, of j] that by (simp add: holder_cpu)
qed

lemma on_cpu_owned: "on_cpu c p \<Longrightarrow> owned c = Some p"
  by (auto simp: on_cpu_def owned_def)

lemma freeing_owned: "c_pc c = CFree \<Longrightarrow> owned c = c_proc c"
  by (simp add: owned_def)

text \<open>A process in progress that a step does not concern.\<close>

lemma life_frame:
  assumes ok: "life_ok env n s q x" and "o_pcbs s' q = o_pcbs s q"
    and "\<And>j. j < n \<Longrightarrow> on_cpu (o_cpu s' j) q = on_cpu (o_cpu s j) q"
  shows "life_ok env n s' q x"
  using assms by (simp add: life_ok_def split: prod.splits)

lemma held_in_progress:
  assumes inv: "os_inv n s" and i: "i < n" and h: "owned (o_cpu s i) = Some p" and nf: "c_pc (o_cpu s i) \<noteq> CFree"
  shows "in_progress n s p"
proof -
  have "c_proc (o_cpu s j) \<noteq> Some p" if j: "j < n" "c_pc (o_cpu s j) = CFree" for j
  proof
    assume "c_proc (o_cpu s j) = Some p"
    with j have "owned (o_cpu s j) = Some p" by (simp add: freeing_owned)
    from held_alone(3) [OF inv i h j(1) this] j(2) nf show False by simp
  qed
  with held_alone(1,2) [OF inv i h] show ?thesis by (simp add: in_progress_def)
qed

lemma held_on_cpu:
  assumes inv: "os_inv n s" and i: "i < n" and h: "owned (o_cpu s i) = Some p" and j: "j < n" "j \<noteq> i"
  shows "\<not> on_cpu (o_cpu s j) p"
  using held_alone(3) [OF inv i h j(1)] j(2) on_cpu_owned by blast

text \<open>What the step of processor \<open>i\<close> on its process \<open>p\<close> leaves alone.\<close>

definition only_touches :: "nat \<Rightarrow> pcb_ref \<Rightarrow> os_t \<Rightarrow> os_t \<Rightarrow> bool" where
  "only_touches i p s s' \<longleftrightarrow> o_ld s' = o_ld s \<and> (\<forall>j. j \<noteq> i \<longrightarrow> o_cpu s' j = o_cpu s j) \<and>
     (\<forall>q. q \<noteq> p \<longrightarrow> o_pcbs s' q = o_pcbs s q) \<and> c_proc (o_cpu s i) = Some p \<and>
     (c_proc (o_cpu s' i) = Some p \<or> (\<forall>q. \<not> on_cpu (o_cpu s' i) q) \<and> c_pc (o_cpu s' i) \<noteq> CFree)"

lemma only_touchesD:
  assumes t: "only_touches i p s s'" and q: "q \<noteq> p"
  shows "o_ld s' = o_ld s" "o_pcbs s' q = o_pcbs s q" "on_cpu (o_cpu s' j) q = on_cpu (o_cpu s j) q"
    and "in_progress n s' q = in_progress n s q"
proof -
  show 1: "o_ld s' = o_ld s" "o_pcbs s' q = o_pcbs s q" using t q by (auto simp: only_touches_def)
  show "on_cpu (o_cpu s' j) q = on_cpu (o_cpu s j) q"
    using t q by (cases "j = i") (auto simp: only_touches_def on_cpu_def)
  have "(c_pc (o_cpu s' j) = CFree \<longrightarrow> c_proc (o_cpu s' j) \<noteq> Some q) = (c_pc (o_cpu s j) = CFree \<longrightarrow> c_proc (o_cpu s j) \<noteq> Some q)" for j
    using t q by (cases "j = i") (auto simp: only_touches_def)
  then show "in_progress n s' q = in_progress n s q" using 1 by (simp add: in_progress_def domIff)
qed

lemma ld_wf_touch:
  assumes wf: "ld_wf env s" and "o_ld s' = o_ld s" and "ld_owned (o_ld s) \<noteq> Some p"
    and "\<And>q. q \<noteq> p \<Longrightarrow> o_pcbs s' q = o_pcbs s q"
  shows "ld_wf env s'"
  using assms unfolding ld_wf_def by (auto simp: ld_owned_def)

text \<open>
  The step of a processor on the process it holds: the invariant holds again when the process is described
  by the new life \<open>y\<close>, or has left.
\<close>

lemma trace_inv_touch:
  assumes inv: "os_inv n s" and i: "i < n" and h: "owned (o_cpu s i) = Some p"
    and t: "trace_inv env n s l fin" and f: "only_touches i p s s'"
    and y: "case y of Some z \<Rightarrow> in_progress n s' p \<and> life_ok env n s' p z | None \<Rightarrow> \<not> in_progress n s' p"
    and ix: "index_inv (loads env (o_ld s)) (l(p := y)) fin'" and fin': "\<forall>(i, xs) \<in> set fin'. xs = c_text (program env i)"
  shows "trace_inv env n s' (l(p := y)) fin'"
proof -
  note d = trace_invD [OF t] and u = only_touchesD [OF f]
  have ld: "o_ld s' = o_ld s" using f by (simp add: only_touches_def)
  have "ld_wf env s'" using ld_wf_touch [OF d(1) ld held_alone(2) [OF inv i h] u(2)] .
  moreover have "q \<in> dom (l(p := y)) \<longleftrightarrow> in_progress n s' q" for q
  proof (cases "q = p")
    case True
    with y show ?thesis by (auto split: option.splits)
  next
    case False
    have "q \<in> dom l \<longleftrightarrow> in_progress n s q" using d(2) by simp
    with u(4) [OF False, of n] False show ?thesis by auto
  qed
  moreover have "life_ok env n s' q x" if "(l(p := y)) q = Some x" for q x
  proof (cases "q = p")
    case True
    with that y show ?thesis by simp
  next
    case False
    with that have "life_ok env n s q x" using d(3) by simp
    then show ?thesis using u(2,3) [OF False] by (rule life_frame)
  qed
  ultimately show ?thesis using ix fin' unfolding trace_inv_def ld by blast
qed

lemma life_okD:
  assumes "life_ok env n s p (k, xs, w)" and "o_pcbs s p = Some b"
  shows "code b = program env k" "pc b \<le> c_size (program env k)" "xs = take (pc b) (c_text (code b))"
    and "j < n \<Longrightarrow> on_cpu (o_cpu s j) p \<longleftrightarrow> w = On j"
  using assms by (auto simp: life_ok_def)

lemma stays_in_progress:
  assumes inv: "os_inv n s" and i: "i < n" and h: "owned (o_cpu s i) = Some p"
    and same: "o_ld s' = o_ld s" "\<And>j. j \<noteq> i \<Longrightarrow> o_cpu s' j = o_cpu s j"
    and "o_pcbs s' p \<noteq> None" and nf: "c_pc (o_cpu s' i) \<noteq> CFree"
  shows "in_progress n s' p"
proof -
  have "c_proc (o_cpu s' j) \<noteq> Some p" if j: "j < n" "c_pc (o_cpu s' j) = CFree" for j
  proof
    assume c: "c_proc (o_cpu s' j) = Some p"
    have "j \<noteq> i" using nf j(2) by blast
    with same(2) c j(2) have "owned (o_cpu s j) = Some p" by (simp add: freeing_owned)
    from held_alone(3) [OF inv i h j(1) this] \<open>j \<noteq> i\<close> show False by simp
  qed
  with held_alone(2) [OF inv i h] assms(6) same(1) show ?thesis by (simp add: in_progress_def domIff)
qed

lemma cpu_effect_trace:
  assumes inv: "os_inv n s" and i: "i < n" and e: "cpu_effect i s evs s'"
    and same: "o_ld s' = o_ld s" "\<And>j. j \<noteq> i \<Longrightarrow> o_cpu s' j = o_cpu s j"
    and t: "trace_inv env n s l fin" and l: "replay tr = Some (l, fin)"
  shows "\<exists>l' fin'. replay (tr @ evs) = Some (l', fin') \<and> trace_inv env n s' l' fin'"
proof -
  note d = trace_invD [OF t]
  have life: "\<exists>x. l p = Some x \<and> life_ok env n s p x" if "in_progress n s p" for p
    using that d(2,3) by blast
  from e show ?thesis
  proof cases
    case (exec p b m out)
    then have h: "owned (o_cpu s i) = Some p" by (simp add: owned_def)
    from life [OF held_in_progress [OF inv i h]] exec(2) obtain k xs w where
      x: "l p = Some (k, xs, w)" and ok: "life_ok env n s p (k, xs, w)" by auto
    note ok' = life_okD [OF ok exec(4)]
    have w: "w = On i" using ok'(4) [OF i] exec(2,3) by (simp add: on_cpu_def)
    let ?ins = "c_text (code b) ! pc b"
    let ?y = "(k, xs @ [?ins], On i)"
    have "xs @ [?ins] = take (Suc (pc b)) (c_text (code b))" using ok'(3) exec(6) by (simp add: take_Suc_conv_app_nth)
    moreover have "on_cpu (o_cpu s' j) p \<longleftrightarrow> j = i" if "j < n" for j
      using held_on_cpu [OF inv i h that] same(2) [of j] exec(8,9) by (cases "j = i") (auto simp: on_cpu_def)
    ultimately have y: "life_ok env n s' p ?y"
      using exec(5,7) ok'(1) i by (auto simp: life_ok_def)
    have f: "only_touches i p s s'" using same exec by (simp add: only_touches_def)
    have "in_progress n s' p" by (rule stays_in_progress [OF inv i h same]) (simp_all add: exec(7,8))
    with y have "trace_inv env n s' (l(p \<mapsto> ?y)) fin"
      by (intro trace_inv_touch [OF inv i h t f] index_inv_same [OF d(4) x] d(5)) simp_all
    then show ?thesis using exec(1) l x w by simp
  next
    case (finish p b)
    then have h: "owned (o_cpu s i) = Some p" by (simp add: owned_def)
    from life [OF held_in_progress [OF inv i h]] finish(2) obtain k xs w where
      x: "l p = Some (k, xs, w)" and ok: "life_ok env n s p (k, xs, w)" by auto
    note ok' = life_okD [OF ok finish(4)]
    have w: "w = On i" using ok'(4) [OF i] finish(2,3) by (simp add: on_cpu_def)
    have xs: "xs = c_text (program env k)" using ok'(1,3) finish(5) program_size [of env k] by simp
    have f: "only_touches i p s s'" using same finish by (simp add: only_touches_def)
    have "\<not> in_progress n s' p" using i finish(7,8) by (auto simp: in_progress_def)
    then have "trace_inv env n s' (l(p := None)) (fin @ [(k, xs)])"
      using index_inv_finish [OF d(4) x, of xs] d(5) xs by (intro trace_inv_touch [OF inv i h t f]) auto
    then show ?thesis using finish(1) l x w by simp
  next
    case (put p b)
    then have h: "owned (o_cpu s i) = Some p" by (simp add: owned_def)
    from life [OF held_in_progress [OF inv i h]] put(2) obtain k xs w where
      x: "l p = Some (k, xs, w)" and ok: "life_ok env n s p (k, xs, w)" by auto
    note ok' = life_okD [OF ok put(4)]
    have w: "w = On i" using ok'(4) [OF i] put(2,3) by (simp add: on_cpu_def)
    have f: "only_touches i p s s'" using same put by (auto simp: only_touches_def on_cpu_def)
    have "\<not> on_cpu (o_cpu s' j) p" if "j < n" for j
      using held_on_cpu [OF inv i h that] same(2) [of j] put(6) by (cases "j = i") (auto simp: on_cpu_def)
    then have y: "life_ok env n s' p (k, xs, Waiting)" using ok'(1-3) put(5) by (simp add: life_ok_def)
    have "in_progress n s' p" by (rule stays_in_progress [OF inv i h same]) (simp_all add: put(5,6))
    with y have "trace_inv env n s' (l(p \<mapsto> (k, xs, Waiting))) fin"
      by (intro trace_inv_touch [OF inv i h t f] index_inv_same [OF d(4) x] d(5)) simp_all
    then show ?thesis using put(1) l x w by simp
  next
    case (dispatch p b)
    then have h: "owned (o_cpu s i) = Some p" by (simp add: owned_def)
    from life [OF held_in_progress [OF inv i h]] dispatch(2) obtain k xs w where
      x: "l p = Some (k, xs, w)" and ok: "life_ok env n s p (k, xs, w)" by auto
    note ok' = life_okD [OF ok dispatch(4)]
    have "\<not> on_cpu (o_cpu s j) p" if "j < n" for j
      using held_on_cpu [OF inv i h that] dispatch(2,5) by (cases "j = i") (auto simp: on_cpu_def)
    then have w: "w = Waiting" using ok by (cases w) (auto simp: life_ok_def)
    have f: "only_touches i p s s'" using same dispatch by (simp add: only_touches_def)
    have "on_cpu (o_cpu s' j) p \<longleftrightarrow> j = i" if "j < n" for j
      using held_on_cpu [OF inv i h that] same(2) [of j] dispatch(7,8) by (cases "j = i") (auto simp: on_cpu_def)
    then have y: "life_ok env n s' p (k, xs, On i)" using ok'(1-3) dispatch(4,6) i by (auto simp: life_ok_def)
    have "in_progress n s' p" by (rule stays_in_progress [OF inv i h same]) (simp_all add: dispatch(4,6,7))
    with y have "trace_inv env n s' (l(p \<mapsto> (k, xs, On i))) fin"
      by (intro trace_inv_touch [OF inv i h t f] index_inv_same [OF d(4) x] d(5)) simp_all
    then show ?thesis using dispatch(1) l x w by simp
  next
    case (free p)
    then have h: "owned (o_cpu s i) = Some p" by (simp add: owned_def)
    have "\<not> in_progress n s p" using i free(2,3) by (auto simp: in_progress_def)
    then have x: "l p = None" using d(2) by blast
    have f: "only_touches i p s s'" using same free by (simp add: only_touches_def on_cpu_def)
    have "trace_inv env n s' (l(p := None)) fin"
      using d(4,5) x free(4) by (intro trace_inv_touch [OF inv i h t f]) (simp_all add: in_progress_def fun_upd_idem)
    then show ?thesis using free(1) l x by (simp add: fun_upd_idem)
  next
    case quiet
    have on: "on_cpu (o_cpu s' j) q = on_cpu (o_cpu s j) q" for j q
      using quiet(4) same(2) by (cases "j = i") simp_all
    have "(c_pc (o_cpu s' j) = CFree \<longrightarrow> c_proc (o_cpu s' j) \<noteq> Some q) = (c_pc (o_cpu s j) = CFree \<longrightarrow> c_proc (o_cpu s j) \<noteq> Some q)" for j q
      using quiet(2,3) same(2) by (cases "j = i") simp_all
    then have "in_progress n s' q = in_progress n s q" for q using quiet(1) same(1) by (simp add: in_progress_def)
    moreover have "life_ok env n s' q x = life_ok env n s q x" for q x using on quiet(1) by (simp add: life_ok_def)
    moreover have "ld_wf env s' = ld_wf env s" using quiet(1) same(1) by (simp add: ld_wf_def)
    ultimately have "trace_inv env n s' l fin" using t same(1) by (simp add: trace_inv_def)
    then show ?thesis using quiet(5) l by (auto simp: Option.bind_eq_Some_conv)
  qed
qed

section \<open>A step of the loader\<close>

lemma trace_inv_same:
  assumes t: "trace_inv env n s l fin" and same: "o_pcbs s' = o_pcbs s" "o_cpu s' = o_cpu s"
    and ld: "ld_owned (o_ld s') = ld_owned (o_ld s)" "loads env (o_ld s') = loads env (o_ld s)" and wf: "ld_wf env s'"
  shows "trace_inv env n s' l fin"
proof -
  have "in_progress n s' q = in_progress n s q" for q using same ld(1) by (simp add: in_progress_def)
  moreover have "life_ok env n s' q x = life_ok env n s q x" for q x using same by (simp add: life_ok_def)
  ultimately show ?thesis using t ld(2) wf by (simp add: trace_inv_def)
qed

lemma ld_trace_load:
  assumes t: "trace_inv env n s l fin" and ld: "o_ld s = LLoad i" "i < length (ld_processes (e_cfg env))"
    and p: "p \<notin> dom (o_pcbs s)" and r: "ld_load env p i s = Inr (Returns s')"
  shows "trace_inv env n s' l fin"
proof -
  note d = trace_invD [OF t]
  let ?a = "ld_processes (e_cfg env) ! i"
  from r obtain b pid' where b: "load (e_pcb0 env i) (e_text0 env i) (o_pid s) (l_path ?a) (e_file env (l_path ?a)) = Inr (Returns b, pid')"
    and s': "s' = set_pcbs ((o_pcbs s)(p \<mapsto> b\<lparr>prio := nat (to_u32 (l_prio ?a))\<rparr>)) (s\<lparr>o_pid := pid', o_ld := LWait i p\<rparr>)"
    by (rule ld_load_Returns)
  have "ld_wf env s'" using load_program [OF b] ld(2) s' by (simp add: ld_wf_def loads_def)
  moreover have "in_progress n s' q = in_progress n s q" for q
    using s' p ld(1) by (cases "q = p") (auto simp: in_progress_def ld_owned_def)
  moreover have "life_ok env n s' q x" if "l q = Some x" for q x
  proof (rule life_frame [OF d(3) [OF that]])
    have "q \<in> dom (o_pcbs s)" using that d(2) by (auto simp: in_progress_def)
    with p have "q \<noteq> p" by blast
    then show "o_pcbs s' q = o_pcbs s q" by (simp add: s')
  qed (simp add: s')
  moreover have "loads env (o_ld s') = loads env (o_ld s)" using ld(1) s' by (simp add: loads_def)
  ultimately show ?thesis using d(2,4,5) by (simp add: trace_inv_def)
qed

lemma ld_trace_add:
  assumes inv: "os_inv n s" and t: "trace_inv env n s l fin" and ld: "o_ld s = LWait i q"
    and r: "ld_add env q i s = Inr (Returns s')"
  shows "l q = None" and "trace_inv env n s' (l(q \<mapsto> (i, [], Waiting))) fin"
proof -
  note d = trace_invD [OF t]
  from r obtain b b' where b: "o_pcbs s q = Some b" and b': "code b' = code b" "pc b' = pc b"
    and s': "s' = set_pcbs ((o_pcbs s)(q \<mapsto> b')) (set_sched (placed q (prio b) (o_sched s)) (s\<lparr>o_ld := LNext (i + 1)\<rparr>))"
    by (rule ld_add_Returns)
  have own: "ld_owned (o_ld s) = Some q" using ld by (simp add: ld_owned_def)
  then show x: "l q = None" using d(2) by (auto simp: in_progress_def domIff)
  have free: "owned (o_cpu s j) \<noteq> Some q" if "j < n" for j using held_alone(2) [OF inv that] own by blast
  have wf: "i < length (ld_processes (e_cfg env))" "code b = program env i" "pc b = 0"
    using d(1) ld b by (auto simp: ld_wf_def)
  have "ld_wf env s'" using wf(1) s' by (simp add: ld_wf_def loads_def)
  moreover have "in_progress n s' p \<longleftrightarrow> p = q \<or> in_progress n s p" for p
  proof (cases "p = q")
    case True
    have "c_proc (o_cpu s j) \<noteq> Some q" if "j < n" "c_pc (o_cpu s j) = CFree" for j
      using free [OF that(1)] that(2) by (simp add: freeing_owned)
    with True s' show ?thesis by (simp add: in_progress_def ld_owned_def)
  next
    case False
    with s' own show ?thesis by (auto simp: in_progress_def ld_owned_def)
  qed
  moreover have "life_ok env n s' p x" if "(l(q \<mapsto> (i, [], Waiting))) p = Some x" for p x
  proof (cases "p = q")
    case True
    have "\<not> on_cpu (o_cpu s j) q" if "j < n" for j using free [OF that] on_cpu_owned by blast
    with True that s' wf b' show ?thesis by (auto simp: life_ok_def)
  next
    case False
    with that have "life_ok env n s p x" using d(3) by simp
    then show ?thesis by (rule life_frame) (simp_all add: s' False)
  qed
  moreover have "index_inv (loads env (o_ld s')) (l(q \<mapsto> (i, [], Waiting))) fin"
    using index_inv_new [OF d(4) x] ld s' by (simp add: loads_def)
  ultimately show "trace_inv env n s' (l(q \<mapsto> (i, [], Waiting))) fin"
    using d(2,5) unfolding trace_inv_def by auto
qed

lemma ld_trace:
  assumes inv: "os_inv n s" and p: "p \<notin> dom (o_pcbs s)" and r: "ld_routine env p s = Inr (Returns s')"
    and t: "trace_inv env n s l fin" and l: "replay tr = Some (l, fin)"
  shows "\<exists>l' fin'. replay (tr @ ld_events env s) = Some (l', fin') \<and> trace_inv env n s' l' fin'"
proof -
  have wf: "ld_wf env s" using t by (simp add: trace_inv_def)
  have same: ?thesis if "ld_events env s = []" "trace_inv env n s' l fin" using that l by simp
  show ?thesis
  proof (cases "o_ld s")
    case (LLoad i)
    then have e: "ld_events env s = []" by (simp add: ld_events_def)
    show ?thesis
    proof (cases "i < length (ld_processes (e_cfg env))")
      case True
      with r LLoad have "ld_load env p i s = Inr (Returns s')" by (simp add: ld_routine_def)
      from same [OF e ld_trace_load [OF t LLoad True p this]] show ?thesis .
    next
      case False
      with r LLoad have s': "s' = s\<lparr>o_done := True, o_ld := LDetach\<rparr>" by (simp add: ld_routine_def)
      from wf False LLoad have "i = length (ld_processes (e_cfg env))" by (simp add: ld_wf_def loads_def)
      with LLoad s' have "trace_inv env n s' l fin"
        by (intro trace_inv_same [OF t]) (simp_all add: ld_owned_def loads_def ld_wf_def)
      with same e show ?thesis by blast
    qed
  next
    case (LWait i q)
    let ?a = "ld_processes (e_cfg env) ! i"
    show ?thesis
    proof (cases "current_time (o_tm s) < l_start ?a")
      case True
      with r LWait have "s' = s\<lparr>o_tm := next_slot_done (num_cpus (e_cfg env)) (o_tm s)\<rparr>" by (simp add: ld_routine_def)
      with wf have "trace_inv env n s' l fin" by (intro trace_inv_same [OF t]) (simp_all add: ld_wf_def)
      moreover have "ld_events env s = []" using LWait True by (simp add: ld_events_def)
      ultimately show ?thesis using same by blast
    next
      case False
      with r LWait have a: "ld_add env q i s = Inr (Returns s')" by (simp add: ld_routine_def)
      from wf LWait obtain b where "o_pcbs s q = Some b" by (auto simp: ld_wf_def)
      with LWait False have "ld_events env s = [Loaded i q (l_path ?a) (pid b) (l_prio ?a)]" by (simp add: ld_events_def Let_def)
      with ld_trace_add [OF inv t LWait a] l show ?thesis by simp
    qed
  next
    case (LNext i)
    with r have "s' = s\<lparr>o_tm := next_slot_done (num_cpus (e_cfg env)) (o_tm s), o_ld := LLoad i\<rparr>" by (simp add: ld_routine_def)
    with wf LNext have "trace_inv env n s' l fin"
      by (intro trace_inv_same [OF t]) (simp_all add: ld_wf_def ld_owned_def loads_def)
    with same LNext show ?thesis by (simp add: ld_events_def)
  next
    case LDetach
    with r have "s' = s\<lparr>o_tm := detach_event (num_cpus (e_cfg env)) (o_tm s), o_ld := LEnded\<rparr>" by (simp add: ld_routine_def)
    with wf LDetach have "trace_inv env n s' l fin"
      by (intro trace_inv_same [OF t]) (simp_all add: ld_wf_def ld_owned_def loads_def)
    with same LDetach show ?thesis by (simp add: ld_events_def)
  next
    case LEnded
    with r have "s' = s" by (simp add: ld_routine_def)
    with same t LEnded show ?thesis by (simp add: ld_events_def)
  qed
qed

text \<open>Every run of the machine can be followed.\<close>

lemma os_run_trace:
  "os_run env tr s \<Longrightarrow> good_env env \<Longrightarrow>
     \<exists>l fin. replay tr = Some (l, fin) \<and> trace_inv env (num_cpus (e_cfg env)) s l fin"
proof (induction rule: os_run.induct)
  case (boot mram0 mswp0 s)
  then have s: "o_pcbs s = Map.empty" "o_ld s = LLoad 0" by (auto simp: main_def Let_def bindR_eq_Inr)
  have "trace_inv env (num_cpus (e_cfg env)) s Map.empty []"
    by (simp add: trace_inv_def s in_progress_def index_inv_def loads_def ld_wf_def)
  then show ?case by simp
next
  case (cpu tr s i s')
  note r = os_run_reach [OF cpu(1)]
  note inv = os_reach_inv [OF r cpu(6)]
  from cpu obtain l fin where l: "replay tr = Some (l, fin)" and t: "trace_inv env (num_cpus (e_cfg env)) s l fin" by blast
  have "o_ld s' = o_ld s" using cpu_act_others [OF cpu_routine_act [OF inv cpu(2,3,4)]] by blast
  then show ?case
    using cpu_routine_effect [OF inv cpu(2) os_reach_slice [OF r] cpu(4)] cpu_routine_other [OF cpu(4)]
    by (intro cpu_effect_trace [OF inv cpu(2) _ _ _ t l])
next
  case (loader tr s p s')
  from loader obtain l fin where "replay tr = Some (l, fin)" "trace_inv env (num_cpus (e_cfg env)) s l fin" by blast
  with ld_trace [OF os_reach_inv [OF os_run_reach [OF loader(1)] loader(6)] loader(3,4)] show ?case by blast
next
  case (enter tr s d t)
  then obtain l fin where "replay tr = Some (l, fin)" and t: "trace_inv env (num_cpus (e_cfg env)) s l fin" by blast
  moreover from t have "trace_inv env (num_cpus (e_cfg env)) (s\<lparr>o_tm := t\<rparr>) l fin"
    by (intro trace_inv_same [OF t]) (simp_all add: trace_inv_def ld_wf_def)
  ultimately show ?case by blast
next
  case (tick tr s t)
  then obtain l fin where "replay tr = Some (l, fin)" and t: "trace_inv env (num_cpus (e_cfg env)) s l fin" by blast
  moreover from t have "trace_inv env (num_cpus (e_cfg env)) (s\<lparr>o_tm := t\<rparr>) l fin"
    by (intro trace_inv_same [OF t]) (simp_all add: trace_inv_def ld_wf_def)
  ultimately show ?case by blast
next
  case (stop tr s)
  then obtain l fin where "replay tr = Some (l, fin)" and t: "trace_inv env (num_cpus (e_cfg env)) s l fin" by blast
  moreover from t have "trace_inv env (num_cpus (e_cfg env)) (s\<lparr>o_tm := stop_timer_flag (o_tm s)\<rparr>) l fin"
    by (intro trace_inv_same [OF t]) (simp_all add: trace_inv_def ld_wf_def)
  ultimately show ?case by blast
qed

end
