(* ===== verification/Clock.thy ===== *)
theory Clock imports Trace begin

text \<open>
  How long the machine runs.  As long as the loader is attached, it keeps the clock below the last start time
  plus one slot for every process it has handed over; after that, every slot in which some
  processor is still attached has an instruction executed by each attached processor.  So the clock
  never passes \<open>clock_limit\<close>: the last start time, plus the number of processes, plus 1, plus for every process the number
  of its instructions and 1.
\<close>

section \<open>The bound\<close>

definition last_start :: "os_env \<Rightarrow> nat" where
  "last_start env = nat (foldr (\<lambda>a m. max (l_start a) m) (ld_processes (e_cfg env)) 0)"

definition procs :: "os_env \<Rightarrow> nat" where
  "procs env = length (ld_processes (e_cfg env))"

definition work :: "os_env \<Rightarrow> nat" where
  "work env = (\<Sum>i<procs env. c_size (program env i) + 1)"

definition clock_limit :: "os_env \<Rightarrow> nat" where
  "clock_limit env = last_start env + procs env + 1 + work env"

lemma foldr_max: "x \<in> set xs \<Longrightarrow> f x \<le> foldr (\<lambda>a m. max (f a) m) xs (z::int)"
  by (induction xs) auto

lemma start_le: "i < procs env \<Longrightarrow> l_start (ld_processes (e_cfg env) ! i) \<le> int (last_start env)"
  using foldr_max [of "ld_processes (e_cfg env) ! i" "ld_processes (e_cfg env)" l_start 0]
  by (simp add: last_start_def procs_def)

section \<open>The loader and the clock\<close>

definition ld_place :: "nat \<Rightarrow> os_t \<Rightarrow> bool" where
  "ld_place n s \<longleftrightarrow>
     (t_place (devs (o_tm s) n) = Blocked \<longrightarrow> (\<exists>i. o_ld s = LLoad i) \<or> (\<exists>i p. o_ld s = LWait i p)) \<and>
     (t_place (devs (o_tm s) n) = Detached \<longleftrightarrow> o_ld s = LEnded)"

definition is_late :: "timer_t \<Rightarrow> nat \<Rightarrow> nat" where
  "is_late t d = (if late t d then 1 else 0)"

definition ld_clock :: "os_env \<Rightarrow> nat \<Rightarrow> os_t \<Rightarrow> bool" where
  "ld_clock env n s \<longleftrightarrow>
     (case o_ld s of
        LLoad i \<Rightarrow> ticks (o_tm s) + is_late (o_tm s) n \<le> last_start env + i
      | LWait i _ \<Rightarrow> ticks (o_tm s) + is_late (o_tm s) n \<le> last_start env + i
      | LNext i \<Rightarrow> ticks (o_tm s) + 1 \<le> last_start env + i
      | _ \<Rightarrow> True)"

lemma is_late_running: "t_place (devs t d) = Running \<Longrightarrow> is_late t d = 0"
  by (simp add: is_late_def late_def)

lemma is_late_le: "is_late t d \<le> 1"
  by (simp add: is_late_def)

lemma ld_clock_step:
  assumes run: "is_running n s" and n: "n = num_cpus (e_cfg env)" and r: "ld_routine env p s = Inr (Returns s')"
    and c: "ld_clock env n s" and pl: "ld_place n s" and wf: "ld_wf env s"
    and time: "tcount (o_tm s) = int (ticks (o_tm s))"
  shows "ld_clock env n s' \<and> ld_place n s'"
proof -
  have rn: "t_place (devs (o_tm s) n) = Running" using run by (simp add: is_running_def)
  note l = is_late_running [OF rn]
  show ?thesis
  proof (cases "o_ld s")
    case (LLoad i)
    show ?thesis
    proof (cases "i < length (ld_processes (e_cfg env))")
      case True
      with r LLoad have "ld_load env p i s = Inr (Returns s')" by (simp add: ld_routine_def)
      then obtain b x where "s' = set_pcbs ((o_pcbs s)(p \<mapsto> b)) (s\<lparr>o_pid := x, o_ld := LWait i p\<rparr>)"
        by (rule ld_load_Returns) blast
      with c LLoad rn show ?thesis by (simp add: ld_clock_def ld_place_def)
    next
      case False
      with r LLoad have "s' = s\<lparr>o_done := True, o_ld := LDetach\<rparr>" by (simp add: ld_routine_def)
      with rn show ?thesis by (simp add: ld_clock_def ld_place_def)
    qed
  next
    case (LWait i q)
    show ?thesis
    proof (cases "current_time (o_tm s) < l_start (ld_processes (e_cfg env) ! i)")
      case True
      from wf LWait have "i < procs env" by (simp add: ld_wf_def procs_def)
      with True time start_le [of i env] have "ticks (o_tm s) < last_start env" by (simp add: current_time_def)
      moreover from r LWait True n have "s' = s\<lparr>o_tm := next_slot_done n (o_tm s)\<rparr>" by (simp add: ld_routine_def)
      ultimately show ?thesis using LWait is_late_le [of "o_tm s'" n]
        by (simp add: ld_clock_def ld_place_def next_slot_done_def)
    next
      case False
      with r LWait have "ld_add env q i s = Inr (Returns s')" by (simp add: ld_routine_def)
      then have "o_ld s' = LNext (i + 1)" "o_tm s' = o_tm s" by (elim ld_add_Returns, simp)+
      with c LWait rn l show ?thesis by (simp add: ld_clock_def ld_place_def)
    qed
  next
    case (LNext i)
    with r n have "s' = s\<lparr>o_tm := next_slot_done n (o_tm s), o_ld := LLoad i\<rparr>" by (simp add: ld_routine_def)
    with c LNext is_late_le [of "o_tm s'" n] show ?thesis
      by (simp add: ld_clock_def ld_place_def next_slot_done_def)
  next
    case LDetach
    with r n have "s' = s\<lparr>o_tm := detach_event n (o_tm s), o_ld := LEnded\<rparr>" by (simp add: ld_routine_def)
    then show ?thesis by (simp add: ld_clock_def ld_place_def detach_event_def)
  next
    case LEnded
    with r c pl show ?thesis by (simp add: ld_routine_def)
  qed
qed

section \<open>Turns of the timer\<close>

text \<open>A turn either leaves the time alone, and makes no device late, or ends the slot.\<close>

lemma timer_turn:
  assumes inv: "timer_inv t" and r: "timer_routine t = Some t'"
  shows "(ticks t' = ticks t \<and> (\<forall>d. late t' d \<longrightarrow> late t d)) \<or>
    (ticks t' = ticks t + 1 \<and> (\<forall>d\<in>set (dev_list t). \<not> late t' d) \<and>
     (\<forall>d\<in>set (dev_list t). late t d \<or> gone (devs t d)) \<and> (\<exists>d\<in>set (dev_list t). late t d))"
proof -
  note p = timer_invD [OF inv]
  show ?thesis
  proof (cases "\<exists>fsh event. tpc t = Scan [] fsh event \<and> fsh \<noteq> event")
    case True
    then obtain fsh event where sc: "tpc t = Scan [] fsh event" "fsh \<noteq> event" by blast
    with r have t': "t' = t\<lparr>tcount := to_u64 (tcount t + 1), ticks := ticks t + 1, tpc := Release (dev_list t)\<rparr>"
      by (simp add: timer_routine_def)
    have all: "gone (devs t d) \<or> (in_step (ticks t) (devs t d) \<and> t_done (devs t d))" if "d \<in> set (dev_list t)" for d
      using p(5) sc(1) that by auto
    have "\<exists>d\<in>set (dev_list t). \<not> gone (devs t d)"
      using scan_end(1) [OF p(5) [unfolded sc(1)] p(3)] sc(2) by blast
    moreover have "late t d \<or> gone (devs t d)" if "d \<in> set (dev_list t)" for d
      using all [OF that] by (auto simp: late_def in_step_def)
    moreover have "\<not> late t' d" if "d \<in> set (dev_list t)" for d
      using all [OF that] by (auto simp: t' late_def in_step_def gone_def)
    ultimately show ?thesis by (auto simp: t')
  next
    case False
    have "ticks t' = ticks t" using r False
      by (auto simp: timer_routine_def split: timer_pc.splits list.splits if_splits)
    moreover have "late t d" if "late t' d" for d using r False that
      by (auto simp: timer_routine_def late_def split: timer_pc.splits list.splits if_splits)
    ultimately show ?thesis by blast
  qed
qed

section \<open>The account of the slots\<close>

text \<open>
  \<open>r i\<close> counts the instructions processor \<open>i\<close> has run, \<open>w k\<close> those run for process \<open>k\<close>; a process without
  instructions is run once.
\<close>

definition ran_out :: "nat \<Rightarrow> os_t \<Rightarrow> pcb_ref \<Rightarrow> bool" where
  "ran_out n s p \<longleftrightarrow> (\<exists>j<n. c_proc (o_cpu s j) = Some p \<and> c_pc (o_cpu s j) \<in> {CNext, CTop}) \<and>
     (\<exists>b. o_pcbs s p = Some b \<and> pc b = c_size (code b))"

definition slack :: "nat \<Rightarrow> os_t \<Rightarrow> pcb_ref \<Rightarrow> nat" where
  "slack n s p = (if ran_out n s p then 1 else 0)"

definition ran_ok :: "os_env \<Rightarrow> nat \<Rightarrow> os_t \<Rightarrow> (pcb_ref \<rightharpoonup> life) \<Rightarrow> (nat \<Rightarrow> nat) \<Rightarrow> bool" where
  "ran_ok env n s l w \<longleftrightarrow> (\<forall>k. w k \<le> c_size (program env k) + 1) \<and> (\<forall>k\<ge>loads env (o_ld s). w k = 0) \<and>
     (\<forall>p k xs pl. l p = Some (k, xs, pl) \<longrightarrow> w k \<le> length xs + slack n s p)"

definition slot_of :: "os_t \<Rightarrow> nat \<Rightarrow> nat" where
  "slot_of s i = ticks (o_tm s) + (if c_pc (o_cpu s i) = CNext then 1 else is_late (o_tm s) i)"

definition base :: "os_env \<Rightarrow> nat" where
  "base env = last_start env + procs env + 1"

definition slots_ok :: "os_env \<Rightarrow> nat \<Rightarrow> os_t \<Rightarrow> (nat \<Rightarrow> nat) \<Rightarrow> bool" where
  "slots_ok env n s r \<longleftrightarrow> (\<forall>i<n. t_place (devs (o_tm s) i) \<noteq> Detached \<longrightarrow> slot_of s i \<le> base env + r i) \<and>
     ticks (o_tm s) \<le> base env + sum r {..<n}"

definition account :: "os_env \<Rightarrow> nat \<Rightarrow> os_t \<Rightarrow> (pcb_ref \<rightharpoonup> life) \<Rightarrow> (nat \<Rightarrow> nat) \<Rightarrow> (nat \<Rightarrow> nat) \<Rightarrow> bool" where
  "account env n s l r w \<longleftrightarrow> ran_ok env n s l w \<and> slots_ok env n s r \<and> sum r {..<n} \<le> sum w {..<procs env}"

lemma accountD:
  assumes "account env n s l r w"
  shows "ran_ok env n s l w" "slots_ok env n s r" "sum r {..<n} \<le> sum w {..<procs env}"
  using assms by (simp_all add: account_def)

lemma account_limit:
  assumes "account env n s l r w"
  shows "ticks (o_tm s) \<le> clock_limit env"
proof -
  have "sum w {..<procs env} \<le> work env" unfolding work_def
    using accountD(1) [OF assms] by (intro sum_mono) (simp add: ran_ok_def)
  then show ?thesis using accountD(2,3) [OF assms] by (simp add: slots_ok_def base_def clock_limit_def)
qed

lemma sum_upd: "i < n \<Longrightarrow> sum (r(i := r i + 1)) {..<n} = sum r {..<n::nat} + (1::nat)"
  by (simp add: sum.remove [of "{..<n}" i])

text \<open>While the loader is attached the clock is below \<open>base\<close>.\<close>

lemma ld_before:
  assumes "ld_clock env n s" and "ld_wf env s" and "o_ld s \<notin> {LDetach, LEnded}"
  shows "ticks (o_tm s) + is_late (o_tm s) n < base env"
  using assms is_late_le [of "o_tm s" n] by (cases "o_ld s") (auto simp: ld_clock_def base_def ld_wf_def loads_def procs_def)

section \<open>A processor and the account\<close>

text \<open>The lives after a step that runs no instruction.\<close>

lemma effect_lives:
  assumes e: "cpu_effect i s evs s'" and nr: "c_pc (o_cpu s i) \<noteq> CRun"
    and l: "replay tr = Some (l, fin)" "replay (tr @ evs) = Some (l', fin')" and q: "l' q = Some (k, xs, pl)"
  shows "\<exists>pl'. l q = Some (k, xs, pl')"
  using e
proof cases
  case quiet
  with l q show ?thesis by auto
qed (use nr l q in \<open>auto simp: fun_upd_apply split: option.splits prod.splits place.splits if_splits\<close>)

lemma ran_out_keep:
  assumes inv: "os_inv n s" and i: "i < n" and e: "cpu_effect i s evs s'"
    and same: "\<And>j. j \<noteq> i \<Longrightarrow> o_cpu s' j = o_cpu s j" and rn: "ran_out n s q"
    and nf: "c_pc (o_cpu s i) = CTop \<Longrightarrow> c_proc (o_cpu s i) \<noteq> Some q"
    and nx: "c_pc (o_cpu s i) = CNext \<Longrightarrow> c_pc (o_cpu s' i) = CTop \<and> c_proc (o_cpu s' i) = c_proc (o_cpu s i)"
  shows "ran_out n s' q"
proof -
  from rn obtain j b where j: "j < n" "c_proc (o_cpu s j) = Some q" "c_pc (o_cpu s j) \<in> {CNext, CTop}"
    and b: "o_pcbs s q = Some b" "pc b = c_size (code b)" by (auto simp: ran_out_def)
  then have own: "owned (o_cpu s j) = Some q" by (auto simp: owned_def)
  have other: "owned (o_cpu s i) \<noteq> Some q" if "j \<noteq> i" using held_alone(3) [OF inv j(1) own i] that by auto
  have blk: "\<exists>b'. o_pcbs s' q = Some b' \<and> pc b' = c_size (code b')"
  proof (cases "j = i")
    case True
    with j nf have "c_pc (o_cpu s i) = CNext" by auto
    with e b show ?thesis by cases auto
  next
    case False
    with other have "c_proc (o_cpu s i) \<noteq> Some q \<or> c_pc (o_cpu s i) \<in> {CCharge, CFetch True, CFetch False}"
      by (auto simp: owned_def split: cpu_pc.splits)
    with e b show ?thesis by cases auto
  qed
  show ?thesis
  proof (cases "j = i")
    case True
    with j nf have "c_pc (o_cpu s i) = CNext" by auto
    with nx True j blk i show ?thesis by (auto simp: ran_out_def)
  next
    case False
    with same j blk show ?thesis by (auto simp: ran_out_def)
  qed
qed

lemma idle_not_done:
  assumes "cpu_routine env i s = Some (Inr s')" and "c_pc (o_cpu s' i) = CNext" and "c_pc (o_cpu s i) \<noteq> CRun"
  shows "\<not> o_done s"
  using assms by (cases "c_pc (o_cpu s i)") (auto simp: cpu_defs bindR_eq_Inr split: if_splits option.splits)

lemma run_to_next:
  assumes "cpu_routine env i s = Some (Inr s')" and "c_pc (o_cpu s i) = CRun"
  shows "c_pc (o_cpu s' i) = CNext \<and> c_proc (o_cpu s' i) = c_proc (o_cpu s i)"
  using assms by (auto simp: cpu_defs bindR_eq_Inr)

lemma next_to_top:
  assumes "cpu_routine env i s = Some (Inr s')" and "c_pc (o_cpu s i) = CNext"
  shows "c_pc (o_cpu s' i) = CTop \<and> c_proc (o_cpu s' i) = c_proc (o_cpu s i)"
  using assms by (auto simp: cpu_defs bindR_eq_Inr)

lemma top_finish:
  assumes r: "cpu_routine env i s = Some (Inr s')" and "c_pc (o_cpu s i) = CTop" and p: "c_proc (o_cpu s i) = Some p"
    and b: "o_pcbs s p = Some b" "pc b = c_size (code b)"
  shows "c_pc (o_cpu s' i) = CFree"
  using assms by (auto simp: cpu_routine_def Let_def cpu_top_def the_proc_held [OF p b(1)] bindR_eq_Inr)

definition counted :: "os_t \<Rightarrow> nat \<Rightarrow> (nat \<Rightarrow> nat) \<Rightarrow> nat \<Rightarrow> nat" where
  "counted s i r = (if c_pc (o_cpu s i) = CRun then r(i := r i + 1) else r)"

lemma cpu_slots:
  assumes inv: "os_inv n s" and i: "i < n" and run: "is_running i s" and r: "cpu_routine env i s = Some (Inr s')"
    and ok: "slots_ok env n s f" and before: "\<not> o_done s \<Longrightarrow> ticks (o_tm s) < base env"
  shows "slots_ok env n s' (counted s i f)"
proof -
  note act = cpu_routine_act [OF inv i run r] and tm = cpu_routine_tm [OF r]
  have tk: "ticks (o_tm s') = ticks (o_tm s)"
    by (cases "c_pc (o_cpu s i)") (simp_all add: tm next_slot_done_def detach_event_def)
  have rn: "t_place (devs (o_tm s) i) = Running" using run by (simp add: is_running_def)
  have le: "f j \<le> counted s i f j" for j by (simp add: counted_def)
  have "slot_of s' j \<le> base env + counted s i f j"
    if j: "j < n" "t_place (devs (o_tm s') j) \<noteq> Detached" for j
  proof (cases "j = i")
    case False
    have "devs (o_tm s') j = devs (o_tm s) j" using False
      by (cases "c_pc (o_cpu s i)") (simp_all add: tm next_slot_done_def detach_event_def)
    then have "slot_of s' j = slot_of s j" using cpu_act_others [OF act] False tk
      by (simp add: slot_of_def is_late_def late_def)
    with ok j le [of j] \<open>devs (o_tm s') j = _\<close> show ?thesis by (fastforce simp: slots_ok_def)
  next
    case True
    from ok i rn have old: "slot_of s i \<le> base env + f i" by (simp add: slots_ok_def)
    show ?thesis
    proof (cases "c_pc (o_cpu s i) = CNext")
      case True
      with old tk next_to_top [OF r True] is_late_le [of "o_tm s'" i] le [of i] \<open>j = i\<close> show ?thesis
        by (simp add: slot_of_def)
    next
      case nn: False
      with j(2) \<open>j = i\<close> tm have same: "o_tm s' = o_tm s" by (cases "c_pc (o_cpu s i)") (simp_all add: detach_event_def)
      have t: "ticks (o_tm s) \<le> base env + f i" using old by (simp add: slot_of_def split: if_splits)
      show ?thesis
      proof (cases "c_pc (o_cpu s i) = CRun")
        case True
        with run_to_next [OF r True] same t \<open>j = i\<close> show ?thesis by (simp add: slot_of_def counted_def)
      next
        case False
        with idle_not_done [OF r] before same t \<open>j = i\<close> is_late_running [OF rn] show ?thesis
          by (auto simp: slot_of_def counted_def)
      qed
    qed
  qed
  moreover have "sum f {..<n} \<le> sum (counted s i f) {..<n}" using le by (rule sum_mono)
  ultimately show ?thesis using ok tk unfolding slots_ok_def by fastforce
qed

text \<open>The step that runs an instruction, and the others.\<close>

lemma cpu_ran:
  assumes inv: "os_inv n s" and i: "i < n" and r: "cpu_routine env i s = Some (Inr s')" and run: "is_running i s"
    and e: "cpu_effect i s evs s'" and t: "trace_inv env n s l fin"
    and l: "replay tr = Some (l, fin)" "replay (tr @ evs) = Some (l', fin')" and ok: "ran_ok env n s l w"
    and nr: "c_pc (o_cpu s i) \<noteq> CRun"
  shows "ran_ok env n s' l' w"
proof -
  note act = cpu_routine_act [OF inv i run r]
  have ld: "o_ld s' = o_ld s" and others: "\<And>j. j \<noteq> i \<Longrightarrow> o_cpu s' j = o_cpu s j" using cpu_act_others [OF act] by blast+
  have "w k \<le> length xs + slack n s' q" if q: "l' q = Some (k, xs, pl)" for q k xs pl
  proof -
    obtain pl0 where q0: "l q = Some (k, xs, pl0)" using effect_lives [OF e nr l q] by blast
    then have le: "w k \<le> length xs + slack n s q" using ok by (auto simp: ran_ok_def)
    show ?thesis
    proof (cases "ran_out n s q \<and> \<not> ran_out n s' q")
      case False
      with le show ?thesis by (simp add: slack_def split: if_splits)
    next
      case True
      then have rn: "ran_out n s q" and no: "\<not> ran_out n s' q" by blast+
      have top: "c_pc (o_cpu s i) = CTop" "c_proc (o_cpu s i) = Some q"
        using ran_out_keep [OF inv i e others rn] no next_to_top [OF r] by blast+
      from rn obtain b where b: "o_pcbs s q = Some b" "pc b = c_size (code b)" by (auto simp: ran_out_def)
      have own: "owned (o_cpu s i) = Some q" using top by (simp add: owned_def)
      have "l' q = None" using e
      proof cases
        case (finish p b')
        with l top(2) show ?thesis by (auto split: option.splits prod.splits place.splits if_splits)
      next
        case (put p b')
        with top_finish [OF r top b] show ?thesis by simp
      next
        case quiet
        with top_finish [OF r top b] show ?thesis by simp
      qed (use top in auto)
      with q show ?thesis by simp
    qed
  qed
  then show ?thesis using ok ld unfolding ran_ok_def by metis
qed

lemma run_event:
  assumes r: "cpu_routine env i s = Some (Inr s')" and c: "c_pc (o_cpu s i) = CRun" and p: "c_proc (o_cpu s i) = Some p"
    and b: "o_pcbs s p = Some b" and m: "pc b < c_size (code b)"
  shows "\<exists>out. cpu_events env i s = [Executed i p (c_text (code b) ! pc b) out]"
  using assms by (auto simp: cpu_routine_def Let_def cpu_run_def cpu_events_def the_proc_held [OF p b] bindR_eq_Inr)

lemma ran_ok_run:
  assumes ok: "ran_ok env n s l w" and l: "l p = Some (k, xs, pl)" and inj: "inj_on (index_of l) (dom l)"
    and k: "k < loads env (o_ld s)" and ld: "o_ld s' = o_ld s" and none: "\<not> ran_out n s p"
    and size: "length xs \<le> c_size (program env k)"
    and l': "l' = l(p \<mapsto> (k, ys, pl'))" "length xs + 1 \<le> length ys + slack n s' p"
    and keep: "\<And>q. q \<noteq> p \<Longrightarrow> ran_out n s q \<Longrightarrow> ran_out n s' q"
  shows "ran_ok env n s' l' (w(k := w k + 1))"
proof -
  note d = ok [unfolded ran_ok_def]
  have "w k \<le> length xs + slack n s p" using d l by blast
  then have wk: "w k \<le> length xs" using none by (simp add: slack_def)
  have "(w(k := w k + 1)) j \<le> length zs + slack n s' q" if q: "l' q = Some (j, zs, pz)" for q j zs pz
  proof (cases "q = p")
    case True
    with q l' wk show ?thesis by simp
  next
    case False
    with q l'(1) have lq: "l q = Some (j, zs, pz)" by simp
    have "j \<noteq> k"
    proof
      assume "j = k"
      with lq l have "index_of l q = index_of l p" by (simp add: index_of_def)
      with inj lq l have "q = p" by (auto dest: inj_onD)
      with False show False by simp
    qed
    moreover have "slack n s q \<le> slack n s' q" using keep [OF False] by (simp add: slack_def)
    moreover have "w j \<le> length zs + slack n s q" using d lq by blast
    ultimately show ?thesis by simp
  qed
  moreover have "(w(k := w k + 1)) j \<le> c_size (program env j) + 1" for j
    using d wk size by (cases "j = k") auto
  ultimately show ?thesis using d k ld by (simp add: ran_ok_def)
qed

lemma cpu_ran_run:
  assumes inv: "os_inv n s" and i: "i < n" and r: "cpu_routine env i s = Some (Inr s')" and run: "is_running i s"
    and e: "cpu_effect i s (cpu_events env i s) s'" and t: "trace_inv env n s l fin"
    and l: "replay tr = Some (l, fin)" "replay (tr @ cpu_events env i s) = Some (l', fin')" and ok: "ran_ok env n s l w"
    and c: "c_pc (o_cpu s i) = CRun"
  shows "\<exists>k < loads env (o_ld s). ran_ok env n s' l' (w(k := w k + 1))"
proof -
  note act = cpu_routine_act [OF inv i run r] and d = trace_invD [OF t]
  have ld: "o_ld s' = o_ld s" and others: "\<And>j. j \<noteq> i \<Longrightarrow> o_cpu s' j = o_cpu s j" using cpu_act_others [OF act] by blast+
  obtain p where p: "c_proc (o_cpu s i) = Some p" using os_invD(4) [OF inv, of i] c by (auto simp: cpu_shape_def)
  with c have own: "owned (o_cpu s i) = Some p" by (simp add: owned_def)
  have "p \<in> dom l" using held_in_progress [OF inv i own] c d(2) by simp
  then obtain k xs pl where x: "l p = Some (k, xs, pl)" by auto
  note life = d(3) [OF x]
  then obtain b where b: "o_pcbs s p = Some b" by (auto simp: life_ok_def)
  note lo = life_okD [OF life b]
  have len: "length xs = pc b" "length xs \<le> c_size (program env k)" using lo program_size [of env k] by simp_all
  have k: "k < loads env (o_ld s)"
    using d(4) x unfolding index_inv_def by (metis Un_iff domI fst_conv image_eqI index_of_def lessThan_iff option.sel)
  have none: "\<not> ran_out n s p"
  proof
    assume "ran_out n s p"
    then obtain j where j: "j < n" "c_proc (o_cpu s j) = Some p" "c_pc (o_cpu s j) \<in> {CNext, CTop}" by (auto simp: ran_out_def)
    then have "owned (o_cpu s j) = Some p" by (auto simp: owned_def)
    from held_alone(3) [OF inv i own j(1) this] j(3) c show False by auto
  qed
  have keep: "ran_out n s' q" if "ran_out n s q" for q
    using ran_out_keep [OF inv i e others that] c by simp
  note n = run_to_next [OF r c]
  have inj: "inj_on (index_of l) (dom l)" using d(4) by (simp add: index_inv_def)
  note step = ran_ok_run [OF ok x inj k ld none len(2) _ _ keep]
  have "\<exists>ys pl'. l' = l(p \<mapsto> (k, ys, pl')) \<and> length xs + 1 \<le> length ys + slack n s' p"
  proof (cases "pc b < c_size (code b)")
    case True
    from run_event [OF r c p b True] obtain out where "cpu_events env i s = [Executed i p (c_text (code b) ! pc b) out]" by blast
    with l x show ?thesis by (auto split: place.splits if_splits)
  next
    case False
    then have full: "pc b = c_size (code b)" using lo(1,2) by simp
    have "o_pcbs s' = o_pcbs s \<and> l' = l" using e
    proof cases
      case (exec p' b' m out)
      with p b False show ?thesis by simp
    next
      case quiet
      with l show ?thesis by auto
    qed (use c in auto)
    moreover from this n p b full i have "ran_out n s' p" by (auto simp: ran_out_def)
    ultimately show ?thesis using x by (intro exI [of _ xs] exI [of _ pl]) (simp add: slack_def fun_upd_idem)
  qed
  with step k show ?thesis by blast
qed

section \<open>The loader and the account\<close>

lemma ld_blocks:
  assumes r: "ld_routine env p s = Inr (Returns s')" and p: "p \<notin> dom (o_pcbs s)" and b: "o_pcbs s q = Some b"
  shows "\<exists>b'. o_pcbs s' q = Some b' \<and> pc b' = pc b \<and> code b' = code b"
proof (cases "o_ld s")
  case (LLoad i)
  have "q \<noteq> p" using p b by blast
  with LLoad r b show ?thesis
    by (cases "i < length (ld_processes (e_cfg env))") (auto simp: ld_routine_def elim!: ld_load_Returns)
next
  case (LWait i q')
  with r b show ?thesis
    by (cases "current_time (o_tm s) < l_start (ld_processes (e_cfg env) ! i)")
      (auto simp: ld_routine_def elim!: ld_add_Returns)
qed (use r b in \<open>auto simp: ld_routine_def\<close>)

lemma ld_lives:
  assumes l: "replay tr = Some (l, fin)" "replay (tr @ ld_events env s) = Some (l', fin')"
    and q: "l' q = Some (k, xs, pl)"
  shows "l q = Some (k, xs, pl) \<or> (xs = [] \<and> k = loads env (o_ld s))"
proof (cases "ld_events env s = []")
  case True
  with l q show ?thesis by simp
next
  case False
  then obtain i p where ld: "o_ld s = LWait i p" by (cases "o_ld s") (simp_all add: ld_events_def)
  with False obtain pth n pr where ev: "ld_events env s = [Loaded i p pth n pr]"
    by (cases "o_pcbs s p") (auto simp: ld_events_def Let_def split: if_splits)
  from l ev have "l' = l(p \<mapsto> (i, [], Waiting))" by (simp split: if_splits)
  with q ld show ?thesis by (auto simp: loads_def split: if_splits)
qed

lemma ld_loads:
  assumes "ld_routine env p s = Inr (Returns s')" and "ld_wf env s"
  shows "loads env (o_ld s) \<le> loads env (o_ld s')"
proof (cases "o_ld s")
  case (LLoad i)
  with assms show ?thesis
    by (cases "i < length (ld_processes (e_cfg env))")
      (auto simp: ld_routine_def loads_def ld_wf_def elim!: ld_load_Returns)
next
  case (LWait i q')
  with assms show ?thesis
    by (cases "current_time (o_tm s) < l_start (ld_processes (e_cfg env) ! i)")
      (auto simp: ld_routine_def loads_def elim!: ld_add_Returns)
qed (use assms in \<open>auto simp: ld_routine_def loads_def\<close>)

lemma ld_ran:
  assumes r: "ld_routine env p s = Inr (Returns s')" and p: "p \<notin> dom (o_pcbs s)" and wf: "ld_wf env s"
    and l: "replay tr = Some (l, fin)" "replay (tr @ ld_events env s) = Some (l', fin')" and ok: "ran_ok env n s l w"
  shows "ran_ok env n s' l' w"
proof -
  have keep: "slack n s q \<le> slack n s' q" for q
    using ld_blocks [OF r p, of q] ld_routine_cpu [OF r] by (fastforce simp: slack_def ran_out_def)
  have d: "w j = 0" if "j \<ge> loads env (o_ld s)" for j using ok that by (simp add: ran_ok_def)
  have "w k \<le> length xs + slack n s' q" if "l' q = Some (k, xs, pl)" for q k xs pl
    using ld_lives [OF l that]
  proof
    assume "l q = Some (k, xs, pl)"
    with ok have "w k \<le> length xs + slack n s q" unfolding ran_ok_def by blast
    with keep [of q] show ?thesis by linarith
  next
    assume "xs = [] \<and> k = loads env (o_ld s)"
    with d show ?thesis by simp
  qed
  moreover have "w j = 0" if "j \<ge> loads env (o_ld s')" for j using d ld_loads [OF r wf] that by simp
  ultimately show ?thesis using ok unfolding ran_ok_def by blast
qed

lemma ld_slots:
  assumes r: "ld_routine env p s = Inr (Returns s')" and n: "n = num_cpus (e_cfg env)" and ok: "slots_ok env n s f"
  shows "slots_ok env n s' f"
proof -
  have d: "ticks (o_tm s') = ticks (o_tm s)" "\<And>j. j < n \<Longrightarrow> devs (o_tm s') j = devs (o_tm s) j"
    using ld_routine_tm [OF r] n by (auto simp: next_slot_done_def detach_event_def)
  then have "slot_of s' j = slot_of s j" if "j < n" for j
    using that ld_routine_cpu [OF r] by (simp add: slot_of_def is_late_def late_def)
  with d ok show ?thesis by (simp add: slots_ok_def)
qed

section \<open>The clock\<close>

text \<open>\<open>f i\<close>: the slots in which processor \<open>i\<close> has executed so far.\<close>

definition ledger :: "os_env \<Rightarrow> os_event list \<Rightarrow> os_t \<Rightarrow> (nat \<Rightarrow> nat) \<Rightarrow> bool" where
  "ledger env tr s f \<longleftrightarrow> ld_clock env (num_cpus (e_cfg env)) s \<and> ld_place (num_cpus (e_cfg env)) s \<and>
     (\<exists>l fin w. replay tr = Some (l, fin) \<and> account env (num_cpus (e_cfg env)) s l f w)"

definition clock_inv :: "os_env \<Rightarrow> os_event list \<Rightarrow> os_t \<Rightarrow> bool" where
  "clock_inv env tr s \<longleftrightarrow> (\<exists>f. ledger env tr s f)"

lemma ledgerI:
  assumes "ld_clock env (num_cpus (e_cfg env)) s" and "ld_place (num_cpus (e_cfg env)) s"
    and "replay tr = Some (l, fin)" and "account env (num_cpus (e_cfg env)) s l f w"
  shows "ledger env tr s f"
  using assms unfolding ledger_def by blast

lemma ledgerD:
  assumes "ledger env tr s f"
  shows "ld_clock env (num_cpus (e_cfg env)) s" "ld_place (num_cpus (e_cfg env)) s" "ticks (o_tm s) \<le> clock_limit env"
    "\<exists>l fin w. replay tr = Some (l, fin) \<and> account env (num_cpus (e_cfg env)) s l f w"
    "sum f {..<num_cpus (e_cfg env)} \<le> work env"
proof -
  from assms obtain l fin w where a: "account env (num_cpus (e_cfg env)) s l f w" by (auto simp: ledger_def)
  have "sum w {..<procs env} \<le> work env"
    using accountD(1) [OF a] unfolding work_def by (intro sum_mono) (simp add: ran_ok_def)
  with accountD(3) [OF a] show "sum f {..<num_cpus (e_cfg env)} \<le> work env" by simp
qed (use assms account_limit in \<open>unfold ledger_def, blast+\<close>)

lemma clock_invD:
  assumes "clock_inv env tr s"
  shows "ld_clock env (num_cpus (e_cfg env)) s" "ld_place (num_cpus (e_cfg env)) s" "ticks (o_tm s) \<le> clock_limit env"
  using assms ledgerD unfolding clock_inv_def by blast+

lemma ld_clock_cong:
  "o_ld s' = o_ld s \<Longrightarrow> ticks (o_tm s') = ticks (o_tm s) \<Longrightarrow> is_late (o_tm s') n = is_late (o_tm s) n \<Longrightarrow>
     ld_clock env n s' = ld_clock env n s"
  by (simp add: ld_clock_def split: ld_pc.split)

lemma ran_ok_tm: "ran_ok env n (s\<lparr>o_tm := t\<rparr>) l w = ran_ok env n s l w"
  by (simp add: ran_ok_def slack_def ran_out_def)

lemma slots_ok_tm:
  assumes "slots_ok env n s f" and "ticks t = ticks (o_tm s)" and "\<And>j. is_late t j = is_late (o_tm s) j"
    and "\<And>j. t_place (devs t j) \<noteq> Detached \<Longrightarrow> t_place (devs (o_tm s) j) \<noteq> Detached"
  shows "slots_ok env n (s\<lparr>o_tm := t\<rparr>) f"
proof -
  have "slot_of (s\<lparr>o_tm := t\<rparr>) j = slot_of s j" for j using assms(2,3) by (simp add: slot_of_def)
  with assms(1,2,4) show ?thesis by (simp add: slots_ok_def)
qed

text \<open>A step of the timer component that keeps the account.\<close>

lemma ledger_tm:
  assumes c: "ledger env tr s f" and t: "ticks t = ticks (o_tm s)" "\<And>j. is_late t j = is_late (o_tm s) j"
    and pl: "\<And>j. t_place (devs t j) \<noteq> Detached \<Longrightarrow> t_place (devs (o_tm s) j) \<noteq> Detached"
    and ldp: "ld_place (num_cpus (e_cfg env)) (s\<lparr>o_tm := t\<rparr>)"
  shows "ledger env tr (s\<lparr>o_tm := t\<rparr>) f"
proof -
  let ?n = "num_cpus (e_cfg env)"
  from ledgerD(4) [OF c] obtain l fin w where l: "replay tr = Some (l, fin)" and a: "account env ?n s l f w" by blast
  have "account env ?n (s\<lparr>o_tm := t\<rparr>) l f w"
    using accountD [OF a] slots_ok_tm [OF _ t pl] by (simp add: account_def ran_ok_tm)
  moreover have "ld_clock env ?n (s\<lparr>o_tm := t\<rparr>)"
    using ledgerD(1) [OF c] ld_clock_cong [of "s\<lparr>o_tm := t\<rparr>" s] t by simp
  ultimately show ?thesis using ldp l by (intro ledgerI)
qed

text \<open>Steps of the timer: the account of the slots is settled when the slot ends.\<close>

lemma tick_slots:
  assumes inv: "os_inv n s" and r: "timer_routine (o_tm s) = Some t" and ok: "slots_ok env n s f"
    and c: "ld_clock env n s" and pl: "ld_place n s" and wf: "ld_wf env s"
  shows "slots_ok env n (s\<lparr>o_tm := t\<rparr>) f \<and> ld_clock env n (s\<lparr>o_tm := t\<rparr>)"
proof -
  note v = os_invD [OF inv]
  have place: "t_place (devs t d) = t_place (devs (o_tm s) d)" for d by (rule timer_routine_place [OF r])
  from timer_turn [OF v(1) r] show ?thesis
  proof (elim disjE conjE)
    assume tk: "ticks t = ticks (o_tm s)" and l: "\<forall>d. late t d \<longrightarrow> late (o_tm s) d"
    have "is_late t d \<le> is_late (o_tm s) d" for d using l by (simp add: is_late_def)
    moreover from this have "slot_of (s\<lparr>o_tm := t\<rparr>) i \<le> slot_of s i" for i using tk by (simp add: slot_of_def)
    ultimately have mono: "slot_of (s\<lparr>o_tm := t\<rparr>) i \<le> slot_of s i" "is_late t n \<le> is_late (o_tm s) n" for i by blast+
    have "ld_clock env n (s\<lparr>o_tm := t\<rparr>)"
      using c tk mono(2) by (simp add: ld_clock_def split: ld_pc.splits)
    moreover have "slots_ok env n (s\<lparr>o_tm := t\<rparr>) f"
      using ok tk place mono(1) unfolding slots_ok_def by (auto intro: order_trans)
    ultimately show ?thesis by blast
  next
    assume tk: "ticks t = ticks (o_tm s) + 1" and new: "\<forall>d\<in>set (dev_list (o_tm s)). \<not> late t d"
      and old: "\<forall>d\<in>set (dev_list (o_tm s)). late (o_tm s) d \<or> gone (devs (o_tm s) d)"
      and ex: "\<exists>d\<in>set (dev_list (o_tm s)). late (o_tm s) d"
    have mem: "d \<in> set (dev_list (o_tm s)) \<longleftrightarrow> d \<le> n" for d using v(2) by auto
    have cpu: "slot_of (s\<lparr>o_tm := t\<rparr>) i = ticks (o_tm s) + 1 \<and> slot_of s i = ticks (o_tm s) + 1"
      if i: "i < n" "late (o_tm s) i" for i
    proof -
      have "c_pc (o_cpu s i) = CTop" using v(5) i by (simp add: dev_ok_def late_def)
      then show ?thesis using i new mem tk by (simp add: slot_of_def is_late_def)
    qed
    have alive: "late (o_tm s) i" if "i \<le> n" "t_place (devs (o_tm s) i) \<noteq> Detached" for i
      using old mem that by (auto simp: gone_def)
    have ldl: "ticks (o_tm s) + 1 < base env \<and> ld_clock env n (s\<lparr>o_tm := t\<rparr>)" if "late (o_tm s) n"
    proof -
      have "t_place (devs (o_tm s) n) = Blocked" using that by (simp add: late_def)
      with pl have w: "(\<exists>i. o_ld s = LLoad i) \<or> (\<exists>i p. o_ld s = LWait i p)" by (simp add: ld_place_def)
      have nl: "is_late (o_tm s) n = 1" "is_late t n = 0" using that new mem by (simp_all add: is_late_def)
      have "ticks (o_tm s) + 1 < base env" using ld_before [OF c wf] w nl by auto
      moreover have "ld_clock env n (s\<lparr>o_tm := t\<rparr>)" using c w nl tk by (auto simp: ld_clock_def)
      ultimately show ?thesis by blast
    qed
    have "ld_clock env n (s\<lparr>o_tm := t\<rparr>)"
    proof (cases "t_place (devs (o_tm s) n) = Detached")
      case True
      with pl show ?thesis by (simp add: ld_place_def ld_clock_def)
    qed (use alive ldl in blast)
    moreover have "slot_of (s\<lparr>o_tm := t\<rparr>) i \<le> base env + f i" if "i < n" "t_place (devs (o_tm s) i) \<noteq> Detached" for i
      using cpu [OF that(1) alive] that ok unfolding slots_ok_def by (metis less_imp_le)
    moreover have "ticks t \<le> base env + sum f {..<n}"
    proof -
      from ex mem obtain d where d: "d \<le> n" "late (o_tm s) d" by blast
      show ?thesis
      proof (cases "d < n")
        case True
        with cpu [OF True d(2)] ok d(2) have "ticks (o_tm s) + 1 \<le> base env + f d"
          by (auto simp: slots_ok_def late_def)
        moreover have "f d \<le> sum f {..<n}" using True by (intro member_le_sum) auto
        ultimately show ?thesis using tk by linarith
      next
        case False
        with d ldl tk show ?thesis by simp
      qed
    qed
    ultimately show ?thesis using place by (simp add: slots_ok_def)
  qed
qed

lemma cpu_account:
  assumes inv: "os_inv n s" and i: "i < n" and r: "cpu_routine env i s = Some (Inr s')" and run: "is_running i s"
    and e: "cpu_effect i s (cpu_events env i s) s'" and t: "trace_inv env n s l fin"
    and l: "replay tr = Some (l, fin)" "replay (tr @ cpu_events env i s) = Some (l', fin')"
    and a: "account env n s l f w" and sl: "slots_ok env n s' (counted s i f)"
  shows "\<exists>w'. account env n s' l' (counted s i f) w'"
proof (cases "c_pc (o_cpu s i) = CRun")
  case True
  from cpu_ran_run [OF inv i r run e t l accountD(1) [OF a] True] obtain k where
    k: "k < loads env (o_ld s)" "ran_ok env n s' l' (w(k := w k + 1))" by blast
  have "k < procs env" using k(1) trace_invD(1) [OF t] by (simp add: ld_wf_def procs_def)
  then have "sum (w(k := w k + 1)) {..<procs env} = sum w {..<procs env} + 1" by (rule sum_upd)
  moreover have "sum (counted s i f) {..<n} = sum f {..<n} + 1" using sum_upd [OF i, of f] True by (simp add: counted_def)
  ultimately have "sum (counted s i f) {..<n} \<le> sum (w(k := w k + 1)) {..<procs env}" using accountD(3) [OF a] by linarith
  with k(2) sl show ?thesis unfolding account_def by blast
next
  case False
  then have "counted s i f = f" by (simp add: counted_def)
  with cpu_ran [OF inv i r run e t l accountD(1) [OF a] False] sl accountD(3) [OF a] show ?thesis
    by (auto simp: account_def)
qed

text \<open>The ledger of a run, step by step.\<close>

lemma ledger_boot:
  assumes "main env mram0 mswp0 = Inr s"
  shows "ledger env [] s (\<lambda>_. 0)"
proof -
  let ?n = "num_cpus (e_cfg env)"
  from assms have s: "o_tm s = timer_init (Suc ?n)" "o_cpu s = (\<lambda>_. cpu0)" "o_ld s = LLoad 0"
    by (auto simp: main_def Let_def bindR_eq_Inr)
  have "account env ?n s Map.empty (\<lambda>_. 0) (\<lambda>_. 0)"
    by (simp add: account_def ran_ok_def slots_ok_def slot_of_def is_late_def late_def s fresh_dev_def cpu0_def)
  then show ?thesis by (auto simp: ledger_def ld_clock_def ld_place_def s fresh_dev_def is_late_def late_def)
qed

lemma ledger_cpu:
  assumes run: "os_run env tr s" and g: "good_env env" and n: "0 < num_cpus (e_cfg env)" and c: "ledger env tr s f"
    and i: "i < num_cpus (e_cfg env)" "is_running i s" and st: "cpu_routine env i s = Some (Inr s')"
  shows "ledger env (tr @ cpu_events env i s) s' (counted s i f)"
proof -
  let ?n = "num_cpus (e_cfg env)"
  note r = os_run_reach [OF run]
  note inv = os_reach_inv [OF r g]
  note act = cpu_routine_act [OF inv i st]
  note e = cpu_routine_effect [OF inv i(1) os_reach_slice [OF r] st]
  from ledgerD(4) [OF c] obtain l fin w where l: "replay tr = Some (l, fin)" and a: "account env ?n s l f w" by blast
  from os_run_trace [OF run g] l have t: "trace_inv env ?n s l fin" by auto
  have "os_run env (tr @ cpu_events env i s) s'" using os_run.cpu [OF run i st] .
  from os_run_trace [OF this g] obtain l' fin' where l': "replay (tr @ cpu_events env i s) = Some (l', fin')" by blast
  have "ticks (o_tm s) < base env" if "\<not> o_done s"
  proof -
    have "o_ld s \<notin> {LDetach, LEnded}" using end_invD(2) [OF os_reach_end_inv [OF r g n]] that by simp
    from ld_before [OF ledgerD(1) [OF c] trace_invD(1) [OF t] this] show ?thesis by simp
  qed
  note sl = cpu_slots [OF inv i st accountD(2) [OF a] this]
  from cpu_account [OF inv i(1) st i(2) e t l l' a sl] obtain w' where a': "account env ?n s' l' (counted s i f) w'" ..
  have tm: "ticks (o_tm s') = ticks (o_tm s)" "devs (o_tm s') ?n = devs (o_tm s) ?n"
    using i(1) by (simp_all add: cpu_routine_tm [OF st] next_slot_done_def detach_event_def split: cpu_pc.splits)
  have ld: "o_ld s' = o_ld s" using cpu_act_others [OF act] by blast
  from tm have "is_late (o_tm s') ?n = is_late (o_tm s) ?n" by (simp add: is_late_def late_def)
  then have "ld_clock env ?n s'" using ledgerD(1) [OF c] ld_clock_cong [OF ld tm(1)] by simp
  moreover have "ld_place ?n s'" using ledgerD(2) [OF c] tm(2) ld by (simp add: ld_place_def)
  ultimately show ?thesis using l' a' by (intro ledgerI)
qed

lemma ledger_loader:
  assumes run: "os_run env tr s" and g: "good_env env" and lim: "clock_limit env < 2 ^ 64" and c: "ledger env tr s f"
    and st: "is_running (num_cpus (e_cfg env)) s" "p \<notin> dom (o_pcbs s)" "ld_routine env p s = Inr (Returns s')"
  shows "ledger env (tr @ ld_events env s) s' f"
proof -
  let ?n = "num_cpus (e_cfg env)"
  from ledgerD(4) [OF c] obtain l fin w where l: "replay tr = Some (l, fin)" and a: "account env ?n s l f w" by blast
  from os_run_trace [OF run g] l have t: "trace_inv env ?n s l fin" by auto
  from os_run_trace [OF os_run.loader [OF run st] g] obtain l' fin' where
    l': "replay (tr @ ld_events env s) = Some (l', fin')" by blast
  note wf = trace_invD(1) [OF t]
  have "tcount (o_tm s) = to_u64 (int (ticks (o_tm s)))"
    using timer_invD(2) [OF os_invD(1) [OF os_reach_inv [OF os_run_reach [OF run] g]]] .
  with ledgerD(3) [OF c] lim have "tcount (o_tm s) = int (ticks (o_tm s))" by (simp add: to_u64_def)
  note lc = ld_clock_step [OF st(1) refl st(3) ledgerD(1,2) [OF c] wf this]
  have "account env ?n s' l' f w"
    using ld_ran [OF st(3,2) wf l l' accountD(1) [OF a]] ld_slots [OF st(3) refl accountD(2) [OF a]] accountD(3) [OF a]
    by (simp add: account_def)
  with l' lc show ?thesis by (blast intro: ledgerI)
qed

lemma ledger_enter:
  assumes c: "ledger env tr s f" and b: "t_place (devs (o_tm s) d) = Blocked" and e: "next_slot_enter d (o_tm s) = Some t"
  shows "ledger env tr (s\<lparr>o_tm := t\<rparr>) f"
proof -
  from e have t: "t = upd d (\<lambda>x. x\<lparr>t_place := Running, t_slots := t_slots x + 1\<rparr>) (o_tm s)" and d: "\<not> t_done (devs (o_tm s) d)"
    by (auto simp: next_slot_enter_def split: if_splits)
  have late: "is_late t j = is_late (o_tm s) j" for j using t d by (simp add: is_late_def late_def)
  have "t_place (devs (o_tm s) j) \<noteq> Detached" if "t_place (devs t j) \<noteq> Detached" for j
    using that t b by (cases "j = d") simp_all
  moreover have "ld_place (num_cpus (e_cfg env)) (s\<lparr>o_tm := t\<rparr>)"
    using ledgerD(2) [OF c] t b by (auto simp: ld_place_def)
  ultimately show ?thesis using t late by (intro ledger_tm [OF c]) simp_all
qed

lemma ledger_tick:
  assumes run: "os_run env tr s" and g: "good_env env" and c: "ledger env tr s f" and st: "timer_routine (o_tm s) = Some t"
  shows "ledger env tr (s\<lparr>o_tm := t\<rparr>) f"
proof -
  let ?n = "num_cpus (e_cfg env)"
  from ledgerD(4) [OF c] obtain l fin w where l: "replay tr = Some (l, fin)" and a: "account env ?n s l f w" by blast
  from os_run_trace [OF run g] l have t: "trace_inv env ?n s l fin" by auto
  note ts = tick_slots [OF os_reach_inv [OF os_run_reach [OF run] g] st accountD(2) [OF a]
      ledgerD(1,2) [OF c] trace_invD(1) [OF t]]
  have "ran_ok env ?n (s\<lparr>o_tm := t\<rparr>) l w" using accountD(1) [OF a] by (simp add: ran_ok_tm)
  with ts a have "account env ?n (s\<lparr>o_tm := t\<rparr>) l f w" by (simp add: account_def)
  moreover have "ld_place ?n (s\<lparr>o_tm := t\<rparr>)"
    using ledgerD(2) [OF c] timer_routine_place [OF st] by (simp add: ld_place_def)
  ultimately show ?thesis using ts l by (blast intro: ledgerI)
qed

lemma ledger_stop:
  assumes c: "ledger env tr s f"
  shows "ledger env tr (s\<lparr>o_tm := stop_timer_flag (o_tm s)\<rparr>) f"
proof -
  have "ld_place (num_cpus (e_cfg env)) (s\<lparr>o_tm := stop_timer_flag (o_tm s)\<rparr>)"
    using ledgerD(2) [OF c] by (simp add: ld_place_def stop_timer_flag_def)
  then show ?thesis by (intro ledger_tm [OF c]) (simp_all add: is_late_def late_def stop_timer_flag_def)
qed

text \<open>
  An invariant of the machine that counts executed slots: it holds together with the ledger when every step of a
  processor keeps it with its slot counted, and the loader and the timer keep it.
\<close>

lemma os_run_counted:
  assumes run: "os_run env tr s" and env: "good_env env" "0 < num_cpus (e_cfg env)" "clock_limit env < 2 ^ 64"
    and boot: "\<And>mram0 mswp0 s. main env mram0 mswp0 = Inr s \<Longrightarrow> I s (\<lambda>_. 0)"
    and cpu: "\<And>tr s f i s'. os_run env tr s \<Longrightarrow> I s f \<Longrightarrow> i < num_cpus (e_cfg env) \<Longrightarrow> is_running i s \<Longrightarrow>
      cpu_routine env i s = Some (Inr s') \<Longrightarrow> I s' (counted s i f)"
    and loader: "\<And>s f p s'. I s f \<Longrightarrow> ld_routine env p s = Inr (Returns s') \<Longrightarrow> I s' f"
    and timer: "\<And>s f t. I s f \<Longrightarrow> I (s\<lparr>o_tm := t\<rparr>) f"
  shows "\<exists>f. ledger env tr s f \<and> I s f"
  using run
proof (induction rule: os_run.induct)
  case (boot mram0 mswp0 s)
  then show ?case using ledger_boot assms(5) by blast
next
  case (cpu tr s i s')
  then show ?case using ledger_cpu [OF cpu(1) env(1,2) _ cpu(2-4)] assms(6) by blast
next
  case (loader tr s p s')
  then show ?case using ledger_loader [OF loader(1) env(1,3) _ loader(2-4)] assms(7) by blast
next
  case (enter tr s d t)
  then show ?case using ledger_enter timer by blast
next
  case (tick tr s t)
  then show ?case using ledger_tick [OF tick(1) env(1) _ tick(2)] timer by blast
next
  case (stop tr s)
  then show ?case using ledger_stop timer by blast
qed

lemma os_run_clock:
  assumes "os_run env tr s" and "good_env env" and "0 < num_cpus (e_cfg env)" and "clock_limit env < 2 ^ 64"
  shows "clock_inv env tr s"
  using os_run_counted [OF assms, of "\<lambda>_ _. True"] by (auto simp: clock_inv_def)

end
