(* ===== verification/Completion.thy ===== *)
theory Completion imports Trace "HOL-Library.Multiset" begin

text \<open>
  No process gets lost: as long as the configuration has no more processes than a queue has places, every
  process that has been loaded waits in a queue or is held by a processor until it has finished.
  So when the processors have stopped, every program of the configuration has been executed exactly once, from its
  first to its last instruction, and nothing is left allocated.
\<close>

section \<open>Room in the queues\<close>

lemma index_inv_card: "index_inv k l fin \<Longrightarrow> finite (dom l) \<and> card (dom l) \<le> k"
proof -
  assume "index_inv k l fin"
  then have inj: "inj_on (index_of l) (dom l)" and sub: "index_of l ` dom l \<subseteq> {..<k}"
    unfolding index_inv_def by blast+
  from sub have "finite (index_of l ` dom l)" by (rule finite_subset) simp
  moreover from card_mono [OF _ sub] have "card (index_of l ` dom l) \<le> k" by simp
  ultimately show ?thesis using inj by (simp add: card_image finite_image_iff)
qed

text \<open>What waits in a queue is in progress.\<close>

lemma queued_in_progress:
  assumes inv: "os_inv n s" and p: "p \<in> all_ready (o_sched s)"
  shows "in_progress n s p"
proof -
  note v = os_invD(3) [OF inv]
  have free: "holder n s d \<noteq> Some p" for d using os_own_invD(4) [OF v, of d p] p by blast
  have "p \<in> dom (o_pcbs s)" using ds.own_queued [OF v, unfolded queued_eq] p by blast
  moreover have "ld_owned (o_ld s) \<noteq> Some p" using free [of n] by (simp add: holder_def)
  moreover have "c_proc (o_cpu s j) \<noteq> Some p" if "j < n" "c_pc (o_cpu s j) = CFree" for j
    using free [of j] that by (simp add: holder_cpu freeing_owned)
  ultimately show ?thesis by (simp add: in_progress_def)
qed

lemma queue_room:
  assumes inv: "os_inv n s" and t: "trace_inv env n s l fin" and j: "j < MAX_PRIO"
    and few: "length (ld_processes (e_cfg env)) \<le> MAX_QUEUE_SIZE"
    and less: "loads env (o_ld s) < length (ld_processes (e_cfg env)) \<or>
      (\<exists>p. in_progress n s p \<and> p \<notin> all_ready (o_sched s))"
  shows "length (ready_at (o_sched s) j) < MAX_QUEUE_SIZE"
proof -
  note d = trace_invD [OF t]
  let ?q = "ready_at (o_sched s) j"
  have sub: "set ?q \<subseteq> dom l" "set ?q \<subseteq> all_ready (o_sched s)"
    using j queued_in_progress [OF inv] d(2) by (auto simp: all_ready_def)
  have c: "finite (dom l)" "card (dom l) \<le> loads env (o_ld s)" using index_inv_card [OF d(4)] by blast+
  have "distinct ?q" using ds.waits_distinct [OF os_own_invD(1) [OF os_invD(3) [OF inv]] j] .
  then have len: "length ?q = card (set ?q)" by (simp add: distinct_card)
  have le: "loads env (o_ld s) \<le> length (ld_processes (e_cfg env))" using d(1) by (simp add: ld_wf_def)
  from less show ?thesis
  proof
    assume "loads env (o_ld s) < length (ld_processes (e_cfg env))"
    with card_mono [OF c(1) sub(1)] c(2) few len show ?thesis by linarith
  next
    assume "\<exists>p. in_progress n s p \<and> p \<notin> all_ready (o_sched s)"
    then have "set ?q \<subset> dom l" using sub d(2) by blast
    with psubset_card_mono [OF c(1) this] c(2) le few len show ?thesis by linarith
  qed
qed

lemma placed_all_ready:
  assumes "sched_wf sc" and "i < MAX_PRIO"
  shows "all_ready sc \<subseteq> all_ready (placed p i sc)"
    and "length (ready_at sc i) < MAX_QUEUE_SIZE \<Longrightarrow> p \<in> all_ready (placed p i sc)"
  using assms by (auto simp: all_ready_def placed_ready)

lemma taken_all_ready:
  assumes "sched_wf sc" and "get_proc sc = Some (Some p, sc')"
  shows "all_ready sc \<subseteq> insert p (all_ready sc')"
proof -
  from ds.get_some [OF assms] obtain i where "ready_at sc i = p # ready_at sc' i"
      "\<forall>j. j \<noteq> i \<longrightarrow> ready_at sc' j = ready_at sc j" by blast
  then have "set (ready_at sc j) \<subseteq> insert p (set (ready_at sc' j))" for j by (cases "j = i") auto
  then show ?thesis by (fastforce simp: all_ready_def)
qed

section \<open>Conservation\<close>

definition kept :: "nat \<Rightarrow> os_t \<Rightarrow> bool" where
  "kept n s \<longleftrightarrow> (\<forall>p. in_progress n s p \<longrightarrow>
     p \<in> all_ready (o_sched s) \<or> (\<exists>j<n. owned (o_cpu s j) = Some p))"

lemma kept_step:
  assumes k: "kept n s" and prog: "\<And>q. in_progress n s' q \<Longrightarrow> in_progress n s q"
    and ready: "\<And>q. q \<in> all_ready (o_sched s) \<Longrightarrow>
      q \<in> all_ready (o_sched s') \<or> (\<exists>j<n. owned (o_cpu s' j) = Some q)"
    and own: "\<And>j q. j < n \<Longrightarrow> owned (o_cpu s j) = Some q \<Longrightarrow> in_progress n s' q \<Longrightarrow>
      q \<in> all_ready (o_sched s') \<or> owned (o_cpu s' j) = Some q"
  shows "kept n s'"
  using assms unfolding kept_def by meson

lemma in_progress_back:
  assumes "dom (o_pcbs s') \<subseteq> dom (o_pcbs s)" and "o_ld s' = o_ld s" and "\<And>j. j \<noteq> i \<Longrightarrow> o_cpu s' j = o_cpu s j"
    and "c_pc (o_cpu s i) = CFree \<Longrightarrow> c_proc (o_cpu s i) = Some q \<Longrightarrow> q \<notin> dom (o_pcbs s')"
    and "in_progress n s' q"
  shows "in_progress n s q"
proof -
  have "c_proc (o_cpu s j) \<noteq> Some q" if "j < n" "c_pc (o_cpu s j) = CFree" for j
    using assms(3) [of j] assms(4,5) that by (cases "j = i") (auto simp: in_progress_def)
  then show ?thesis using assms(1,2,5) by (auto simp: in_progress_def)
qed

lemma act_kept:
  assumes inv: "os_inv n s" and i: "i < n" and act: "cpu_act i s s'" and k: "kept n s"
    and room: "\<And>p j. in_progress n s p \<Longrightarrow> p \<notin> all_ready (o_sched s) \<Longrightarrow> j < MAX_PRIO \<Longrightarrow>
      length (ready_at (o_sched s) j) < MAX_QUEUE_SIZE"
  shows "kept n s'"
proof -
  note v = os_invD(3) [OF inv] and o = cpu_act_others [OF act]
  have wf: "sched_wf (o_sched s)" using os_own_invD(1) [OF v] .
  have bk: "in_progress n s q" if "dom (o_pcbs s') \<subseteq> dom (o_pcbs s)"
    "c_pc (o_cpu s i) = CFree \<Longrightarrow> c_proc (o_cpu s i) = Some q \<Longrightarrow> q \<notin> dom (o_pcbs s')" "in_progress n s' q" for q
    using that o by (intro in_progress_back [of s' s i q n]) auto
  have keep: "kept n s'" if sub: "all_ready (o_sched s) \<subseteq> all_ready (o_sched s')" and own: "owned (o_cpu s' i) = owned (o_cpu s i)"
    and b: "\<And>q. in_progress n s' q \<Longrightarrow> in_progress n s q"
  proof (rule kept_step [OF k b])
    show "q \<in> all_ready (o_sched s') \<or> owned (o_cpu s' j) = Some q" if "owned (o_cpu s j) = Some q" for j q
      using that own o by (cases "j = i") auto
  qed (use sub in auto)
  from act show ?thesis
  proof cases
    case (take p sc c)
    have no: "owned (o_cpu s i) = None" using take(2) by (auto simp: owned_def fetches_def split: cpu_pc.splits)
    show ?thesis
    proof (rule kept_step [OF k])
      show "in_progress n s q" if "in_progress n s' q" for q
        using that take by (intro bk) (auto simp: fetches_def)
      show "q \<in> all_ready (o_sched s') \<or> (\<exists>j<n. owned (o_cpu s' j) = Some q)" if "q \<in> all_ready (o_sched s)" for q
        using that taken_all_ready [OF wf take(3)] take i by (auto simp: owned_def)
      show "q \<in> all_ready (o_sched s') \<or> owned (o_cpu s' j) = Some q" if "owned (o_cpu s j) = Some q" for j q
        using that no o by (cases "j = i") auto
    qed
  next
    case (put p b)
    have h: "owned (o_cpu s i) = Some p" using put by (simp add: owned_def)
    have "prio b < MAX_PRIO" using os_own_invD(2) [OF v put(4)] by blast
    note r = placed_all_ready [OF wf this, of p]
    have "in_progress n s p" using held_in_progress [OF inv i h] put(2) by simp
    moreover have "p \<notin> all_ready (o_sched s)" using os_own_invD(4) [OF v, of i p] h i by (simp add: holder_cpu)
    ultimately have "p \<in> all_ready (o_sched s')" using r(2) room \<open>prio b < MAX_PRIO\<close> put(1) by simp
    show ?thesis
    proof (rule kept_step [OF k])
      show "in_progress n s q" if "in_progress n s' q" for q
        using that put by (intro bk) auto
      show "q \<in> all_ready (o_sched s') \<or> (\<exists>j<n. owned (o_cpu s' j) = Some q)" if "q \<in> all_ready (o_sched s)" for q
        using that r(1) put(1) by auto
      show "q \<in> all_ready (o_sched s') \<or> owned (o_cpu s' j) = Some q" if "owned (o_cpu s j) = Some q" for j q
        using that h o \<open>p \<in> all_ready (o_sched s')\<close> by (cases "j = i") auto
    qed
  next
    case (free p)
    have h: "owned (o_cpu s i) = Some p" using free by (simp add: owned_def)
    show ?thesis
    proof (rule kept_step [OF k])
      show "in_progress n s q" if "in_progress n s' q" for q
        using that free by (intro bk) auto
      show "q \<in> all_ready (o_sched s') \<or> (\<exists>j<n. owned (o_cpu s' j) = Some q)" if "q \<in> all_ready (o_sched s)" for q
        using that free(1) by simp
      show "q \<in> all_ready (o_sched s') \<or> owned (o_cpu s' j) = Some q"
        if "owned (o_cpu s j) = Some q" "in_progress n s' q" for j q
        using that h o free(1) by (cases "j = i") (auto simp: in_progress_def)
    qed
  next
    case (idle c)
    then have "owned c = None" "owned (o_cpu s i) = None" by (auto simp: owned_def fetches_def split: cpu_pc.splits)
    with idle show ?thesis by (intro keep bk) (auto simp: fetches_def)
  next
    case (finish p pr u sc)
    with os_own_charge(2) [OF v finish(4)] show ?thesis by (intro keep bk) (auto simp: owned_def)
  next
    case (charge pr u sc)
    with os_own_charge(2) [OF v charge(3)] show ?thesis by (intro keep bk) (auto simp: owned_def)
  next
    case (local c)
    with local_owned [OF local(2,3)] show ?thesis by (intro keep bk) (auto simp: local_moves_def)
  next
    case (run p b k m x c)
    then show ?thesis by (intro keep bk) (auto simp: owned_def)
  next
    case next_slot
    then show ?thesis by (intro keep bk) (auto simp: owned_def)
  next
    case detach
    then show ?thesis by (intro keep bk) (auto simp: owned_def)
  qed
qed

lemma kept_same:
  assumes "kept n s" and "o_cpu s' = o_cpu s" and "all_ready (o_sched s) \<subseteq> all_ready (o_sched s')"
    and "\<And>q. in_progress n s' q \<Longrightarrow> in_progress n s q \<or> q \<in> all_ready (o_sched s')"
  shows "kept n s'"
  using assms unfolding kept_def by auto

lemma ld_kept:
  assumes inv: "os_inv n s" and t: "trace_inv env n s l fin" and k: "kept n s"
    and few: "length (ld_processes (e_cfg env)) \<le> MAX_QUEUE_SIZE"
    and p: "p \<notin> dom (o_pcbs s)" and r: "ld_routine env p s = Inr (Returns s')"
  shows "kept n s'"
proof -
  have c: "o_cpu s' = o_cpu s" by (rule ld_routine_cpu [OF r])
  have same: ?thesis if "o_sched s' = o_sched s" "o_pcbs s' = o_pcbs s" "ld_owned (o_ld s') = ld_owned (o_ld s)"
    using that c by (intro kept_same [OF k]) (simp_all add: in_progress_def)
  show ?thesis
  proof (cases "o_ld s")
    case (LLoad i)
    show ?thesis
    proof (cases "i < length (ld_processes (e_cfg env))")
      case True
      with r LLoad have "ld_load env p i s = Inr (Returns s')" by (simp add: ld_routine_def)
      then obtain b x where "s' = set_pcbs ((o_pcbs s)(p \<mapsto> b)) (s\<lparr>o_pid := x, o_ld := LWait i p\<rparr>)"
        by (rule ld_load_Returns) blast
      then show ?thesis by (intro kept_same [OF k]) (auto simp: in_progress_def ld_owned_def LLoad set_pcbs_def)
    next
      case False
      with r LLoad have "s' = s\<lparr>o_done := True, o_ld := LDetach\<rparr>" by (simp add: ld_routine_def)
      with same LLoad show ?thesis by (simp add: ld_owned_def)
    qed
  next
    case (LWait i q)
    show ?thesis
    proof (cases "current_time (o_tm s) < l_start (ld_processes (e_cfg env) ! i)")
      case True
      with r LWait have "s' = s\<lparr>o_tm := next_slot_done (num_cpus (e_cfg env)) (o_tm s)\<rparr>" by (simp add: ld_routine_def)
      with same show ?thesis by simp
    next
      case False
      with r LWait have "ld_add env q i s = Inr (Returns s')" by (simp add: ld_routine_def)
      then obtain b b' where b: "o_pcbs s q = Some b" "prio b < MAX_PRIO" and s': "s' = set_pcbs ((o_pcbs s)(q \<mapsto> b'))
          (set_sched (placed q (prio b) (o_sched s)) (s\<lparr>o_ld := LNext (i + 1)\<rparr>))"
        by (rule ld_add_Returns)
      note a = placed_all_ready [OF os_own_invD(1) [OF os_invD(3) [OF inv]] b(2), of q]
      have "loads env (o_ld s) < length (ld_processes (e_cfg env))"
        using trace_invD(1) [OF t] LWait by (simp add: ld_wf_def loads_def)
      with queue_room [OF inv t b(2) few] have "q \<in> all_ready (placed q (prio b) (o_sched s))" by (intro a(2)) blast
      then show ?thesis using c a(1) s' LWait b(1)
        by (intro kept_same [OF k]) (auto simp: in_progress_def ld_owned_def)
    qed
  next
    case (LNext i)
    with r have "s' = s\<lparr>o_tm := next_slot_done (num_cpus (e_cfg env)) (o_tm s), o_ld := LLoad i\<rparr>" by (simp add: ld_routine_def)
    with same LNext show ?thesis by (simp add: ld_owned_def)
  next
    case LDetach
    with r have "s' = s\<lparr>o_tm := detach_event (num_cpus (e_cfg env)) (o_tm s), o_ld := LEnded\<rparr>" by (simp add: ld_routine_def)
    with same LDetach show ?thesis by (simp add: ld_owned_def)
  next
    case LEnded
    with r k show ?thesis by (simp add: ld_routine_def)
  qed
qed

lemma os_run_kept:
  "os_run env tr s \<Longrightarrow> good_env env \<Longrightarrow> length (ld_processes (e_cfg env)) \<le> MAX_QUEUE_SIZE \<Longrightarrow>
     kept (num_cpus (e_cfg env)) s"
proof (induction rule: os_run.induct)
  case (boot mram0 mswp0 s)
  then have "o_pcbs s = Map.empty" by (auto simp: main_def Let_def bindR_eq_Inr)
  then show ?case by (simp add: kept_def in_progress_def)
next
  case (cpu tr s i s')
  note inv = os_reach_inv [OF os_run_reach [OF cpu(1)] cpu(6)]
  obtain l fin where t: "trace_inv env (num_cpus (e_cfg env)) s l fin" using os_run_trace [OF cpu(1,6)] by blast
  show ?case
    using cpu by (intro act_kept [OF inv cpu(2) cpu_routine_act [OF inv cpu(2,3,4)]] queue_room [OF inv t]) blast+
next
  case (loader tr s p s')
  obtain l fin where "trace_inv env (num_cpus (e_cfg env)) s l fin" using os_run_trace [OF loader(1,6)] by blast
  with ld_kept [OF os_reach_inv [OF os_run_reach [OF loader(1)] loader(6)] _ _ loader(7,3,4)] loader show ?case by blast
qed (simp_all add: kept_def in_progress_def)

section \<open>When all processors have stopped\<close>

lemma index_inv_all:
  assumes "index_inv k Map.empty fin" and f: "\<forall>(i, xs) \<in> set fin. xs = f i"
  shows "mset fin = mset (map (\<lambda>i. (i, f i)) [0..<k])"
proof -
  from assms(1) have d: "distinct (map fst fin)" and s: "set (map fst fin) = {..<k}" by (simp_all add: index_inv_def)
  from d have "distinct fin" by (simp add: distinct_map)
  moreover have "set fin = set (map (\<lambda>i. (i, f i)) [0..<k])"
  proof (rule set_eqI)
    fix x :: "nat \<times> inst_t list"
    obtain i xs where x: "x = (i, xs)" by (cases x)
    have "(i, xs) \<in> set fin \<longleftrightarrow> i \<in> set (map fst fin) \<and> xs = f i" using f by (force simp: image_iff)
    then show "x \<in> set fin \<longleftrightarrow> x \<in> set (map (\<lambda>i. (i, f i)) [0..<k])" using s x by auto
  qed
  moreover have "distinct (map (\<lambda>i. (i, f i)) [0..<k])" by (simp add: distinct_map inj_on_def)
  ultimately show ?thesis using set_eq_iff_mset_eq_distinct by blast
qed

lemma stopped_cpu: "cpu_shape c \<Longrightarrow> c_pc c = CStopped \<Longrightarrow> owned c = None"
  by (simp add: cpu_shape_def owned_def)

text \<open>Nothing waits, nothing is held and the loader has handed over everything.\<close>

lemma all_stopped:
  assumes r: "os_run env tr s" and g: "good_env env" and n: "0 < num_cpus (e_cfg env)"
    and few: "length (ld_processes (e_cfg env)) \<le> MAX_QUEUE_SIZE"
    and st: "\<forall>i<num_cpus (e_cfg env). c_pc (o_cpu s i) = CStopped"
  shows "\<not> in_progress (num_cpus (e_cfg env)) s p" and "o_ld s \<in> {LDetach, LEnded}" and "o_pcbs s = Map.empty"
proof -
  let ?n = "num_cpus (e_cfg env)"
  note inv = os_reach_inv [OF os_run_reach [OF r] g]
  note e = os_reach_end_inv [OF os_run_reach [OF r] g n]
  have "o_done s" using st n by (intro end_invD(1) [OF e n]) (simp add: cpu_ended_def)
  then show ld: "o_ld s \<in> {LDetach, LEnded}" using end_invD(2) [OF e] by simp
  have "\<not> served ?n s" using \<open>o_done s\<close> st by (auto simp: served_def cpu_phase_defs)
  then have "all_ready (o_sched s) = {}" using end_invD(3) [OF e] by blast
  moreover have "owned (o_cpu s j) = None" if "j < ?n" for j
    using stopped_cpu [OF os_invD(4) [OF inv]] st that by blast
  ultimately have none: "\<not> in_progress ?n s q" for q using os_run_kept [OF r g few] unfolding kept_def by auto
  then show "\<not> in_progress ?n s p" .
  have "q \<notin> dom (o_pcbs s)" for q using none [of q] ld st by (auto simp: in_progress_def ld_owned_def)
  then show "o_pcbs s = Map.empty" by auto
qed

text \<open>So the log tells that every program has been executed once.\<close>

lemma stopped_completed:
  assumes "os_run env tr s" and "good_env env" and "0 < num_cpus (e_cfg env)"
    and "length (ld_processes (e_cfg env)) \<le> MAX_QUEUE_SIZE"
    and "\<forall>i<num_cpus (e_cfg env). c_pc (o_cpu s i) = CStopped"
  shows "o_pcbs s = Map.empty" and "\<exists>fin. replay tr = Some (Map.empty, fin) \<and>
    mset fin = mset (map (\<lambda>i. (i, c_text (program env i))) [0..<length (ld_processes (e_cfg env))])"
proof -
  obtain l fin where l: "replay tr = Some (l, fin)" and t: "trace_inv env (num_cpus (e_cfg env)) s l fin"
    using os_run_trace [OF assms(1,2)] by blast
  note d = trace_invD [OF t] and a = all_stopped [OF assms]
  have "l = Map.empty" using d(2) a(1) by auto
  moreover have "loads env (o_ld s) = length (ld_processes (e_cfg env))" using a(2) by (auto simp: loads_def)
  ultimately show "\<exists>fin. replay tr = Some (Map.empty, fin) \<and>
      mset fin = mset (map (\<lambda>i. (i, c_text (program env i))) [0..<length (ld_processes (e_cfg env))])"
    using index_inv_all [OF _ d(5)] d(4) l by auto
qed (rule all_stopped(3) [OF assms])

end
