(* ===== verification/Halting.thy ===== *)
theory Halting imports Clock Completion begin

text \<open>
  The machine comes to an end.  Every step of a thread lowers a variant: the slots that are left
  (theory \<open>Clock\<close>), where the timer thread stands in its round, and how far each thread is from the end of its
  slot.  And as long as a device is attached, some thread can take a step, unless an
  instruction or the loader faults.  So every schedule ends with all programs executed.
\<close>

section \<open>The variant\<close>

definition cpu_rank :: "cpu_pc \<Rightarrow> nat" where
  "cpu_rank c = (case c of CTop \<Rightarrow> 10 | CFree \<Rightarrow> 9 | CCharge \<Rightarrow> 9 | CFetch _ \<Rightarrow> 8 | CNone \<Rightarrow> 7 | CGetSlot \<Rightarrow> 7
     | CCheck \<Rightarrow> 6 | CRun \<Rightarrow> 5 | CNext \<Rightarrow> 4 | CDetach \<Rightarrow> 3 | CStopped \<Rightarrow> 2)"

definition ld_rank :: "ld_pc \<Rightarrow> nat" where
  "ld_rank l = (case l of LLoad _ \<Rightarrow> 10 | LWait _ _ \<Rightarrow> 9 | LNext _ \<Rightarrow> 8 | LDetach \<Rightarrow> 8 | LEnded \<Rightarrow> 2)"

definition dev_rank :: "timer_id_t \<Rightarrow> nat \<Rightarrow> nat" where
  "dev_rank t r = (case t_place t of Running \<Rightarrow> r | Blocked \<Rightarrow> (if t_done t then 1 else 12) | Detached \<Rightarrow> 0)"

definition rank :: "nat \<Rightarrow> os_t \<Rightarrow> nat \<Rightarrow> nat" where
  "rank n s d = dev_rank (devs (o_tm s) d) (if d = n then ld_rank (o_ld s) else cpu_rank (c_pc (o_cpu s d)))"

definition timer_rank :: "timer_t \<Rightarrow> nat" where
  "timer_rank t = (let L = length (dev_list t) in
     case tpc t of Release rest \<Rightarrow> L + 3 + length rest | Check \<Rightarrow> L + 2 | Scan rest _ _ \<Rightarrow> 1 + length rest | _ \<Rightarrow> 0)"

definition variant :: "os_env \<Rightarrow> os_t \<Rightarrow> nat \<times> nat \<times> nat \<times> nat" where
  "variant env s = ((if timer_stop (o_tm s) then 0 else 1), clock_limit env - ticks (o_tm s), timer_rank (o_tm s),
     sum (rank (num_cpus (e_cfg env)) s) {..num_cpus (e_cfg env)})"

definition lower :: "((nat \<times> nat \<times> nat \<times> nat) \<times> (nat \<times> nat \<times> nat \<times> nat)) set" where
  "lower = less_than <*lex*> less_than <*lex*> less_than <*lex*> less_than"

lemma wf_lower: "wf lower"
  by (simp add: lower_def wf_lex_prod)

text \<open>A step of one device.\<close>

lemma device_lower:
  assumes "timer_stop (o_tm s') = timer_stop (o_tm s)" and "ticks (o_tm s') = ticks (o_tm s)"
    and "timer_rank (o_tm s') = timer_rank (o_tm s)" and n: "n = num_cpus (e_cfg env)" and d: "d \<le> n"
    and "\<And>e. e \<noteq> d \<Longrightarrow> rank n s' e = rank n s e" and "rank n s' d < rank n s d"
  shows "(variant env s', variant env s) \<in> lower"
proof -
  have le: "rank n s' e \<le> rank n s e" for e using assms(6) [of e] assms(7) by (cases "e = d") simp_all
  have "sum (rank n s') {..n} < sum (rank n s) {..n}"
    using le d assms(7) by (intro sum_strict_mono_ex1) auto
  with assms(1-3) n show ?thesis by (simp add: variant_def lower_def)
qed

lemma cpu_act_rank:
  assumes act: "cpu_act i s s'" and run: "is_running i s" and i: "i < n"
  shows "rank n s' i < rank n s i" and "e \<noteq> i \<Longrightarrow> rank n s' e = rank n s e"
    and "timer_stop (o_tm s') = timer_stop (o_tm s)" "ticks (o_tm s') = ticks (o_tm s)"
    "timer_rank (o_tm s') = timer_rank (o_tm s)"
proof -
  have "t_place (devs (o_tm s) i) = Running" using run by (simp add: is_running_def)
  then have rk: "rank n s i = cpu_rank (c_pc (o_cpu s i))"
    and same: "o_tm s' = o_tm s \<Longrightarrow> rank n s' i = cpu_rank (c_pc (o_cpu s' i))"
    using i by (simp_all add: rank_def dev_rank_def)
  from act show "rank n s' i < rank n s i"
  proof cases
    case (take p sc c)
    then have "rank n s' i = 7" using same by (simp add: cpu_rank_def)
    moreover have "8 \<le> rank n s i" using take(2) by (simp add: rk fetches_def cpu_rank_def split: cpu_pc.splits)
    ultimately show ?thesis by simp
  next
    case (idle c)
    then have "rank n s' i \<le> 7" using same by (simp add: cpu_rank_def)
    moreover have "8 \<le> rank n s i" using idle(2) by (simp add: rk fetches_def cpu_rank_def split: cpu_pc.splits)
    ultimately show ?thesis by simp
  next
    case (local c)
    then have "rank n s' i = cpu_rank (c_pc c)" using same by simp
    with local(2) rk show ?thesis by (auto simp: local_moves_def cpu_rank_def)
  next
    case next_slot
    with i have "rank n s' i = 1" by (simp add: rank_def dev_rank_def next_slot_done_def)
    with next_slot(2) rk show ?thesis by (simp add: cpu_rank_def)
  next
    case detach
    with i have "rank n s' i = 0" by (simp add: rank_def dev_rank_def detach_event_def)
    with detach(2) rk show ?thesis by (simp add: cpu_rank_def)
  qed (use same rk in \<open>simp_all add: cpu_rank_def\<close>)
  show "e \<noteq> i \<Longrightarrow> rank n s' e = rank n s e"
    using act by cases (auto simp: rank_def next_slot_done_def detach_event_def)
  have "o_tm s' \<in> {o_tm s, next_slot_done i (o_tm s), detach_event i (o_tm s)}" using act by cases simp_all
  then show "timer_stop (o_tm s') = timer_stop (o_tm s)" "ticks (o_tm s') = ticks (o_tm s)"
    "timer_rank (o_tm s') = timer_rank (o_tm s)"
    by (auto simp: timer_rank_def next_slot_done_def detach_event_def)
qed

lemma ld_rank_step:
  assumes r: "ld_routine env p s = Inr (Returns s')" and n: "n = num_cpus (e_cfg env)" and run: "is_running n s"
    and pl: "ld_place n s"
  shows "rank n s' n < rank n s n"
proof -
  have rn: "t_place (devs (o_tm s) n) = Running" using run by (simp add: is_running_def)
  show ?thesis
  proof (cases "o_ld s")
    case (LLoad i)
    with r rn n show ?thesis
      by (cases "i < length (ld_processes (e_cfg env))")
        (auto simp: ld_routine_def rank_def dev_rank_def ld_rank_def elim!: ld_load_Returns)
  next
    case (LWait i q)
    with r rn n show ?thesis
      by (cases "current_time (o_tm s) < l_start (ld_processes (e_cfg env) ! i)")
        (auto simp: ld_routine_def rank_def dev_rank_def ld_rank_def next_slot_done_def elim!: ld_add_Returns)
  next
    case LEnded
    with pl rn show ?thesis by (simp add: ld_place_def)
  qed (use r rn n in \<open>auto simp: ld_routine_def rank_def dev_rank_def ld_rank_def next_slot_done_def detach_event_def\<close>)
qed

lemma timer_rank_step:
  assumes "timer_routine t = Some t'"
  shows "timer_stop t' = timer_stop t \<and> (ticks t' = ticks t \<and> timer_rank t' < timer_rank t \<or> ticks t' = ticks t + 1)"
  using assms by (auto simp: timer_routine_def timer_rank_def Let_def split: timer_pc.splits list.splits if_splits)

text \<open>Every step lowers the variant, except that the main program may raise a flag that is already raised.\<close>

lemma os_step_lower:
  assumes st: "os_step env s s'" and n: "n = num_cpus (e_cfg env)" and inv: "os_inv n s" and pl: "ld_place n s"
    and lim: "ticks (o_tm s') \<le> clock_limit env"
  shows "(variant env s', variant env s) \<in> lower \<or> (s' = s \<and> (\<forall>d\<le>n. t_place (devs (o_tm s) d) = Detached))"
  using st
proof cases
  case (cpu i)
  with n have i: "i < n" by simp
  note c = cpu_act_rank [OF cpu_routine_act [OF inv i cpu(2,3)] cpu(2) i]
  show ?thesis using i by (intro disjI1 device_lower [OF c(3-5) n _ c(2,1)]) simp
next
  case (loader p)
  note tm = ld_routine_tm [OF loader(3)]
  have "timer_stop (o_tm s') = timer_stop (o_tm s)" "ticks (o_tm s') = ticks (o_tm s)"
    "timer_rank (o_tm s') = timer_rank (o_tm s)"
    using tm by (auto simp: timer_rank_def next_slot_done_def detach_event_def)
  moreover have "rank n s' e = rank n s e" if "e \<noteq> n" for e
    using tm that n ld_routine_cpu [OF loader(3)] by (auto simp: rank_def next_slot_done_def detach_event_def)
  moreover have "rank n s' n < rank n s n" using ld_rank_step [OF loader(3) n _ pl] loader(1) n by simp
  ultimately show ?thesis by (intro disjI1 device_lower [OF _ _ _ n order_refl]) simp_all
next
  case (enter d t)
  then have t: "t = upd d (\<lambda>x. x\<lparr>t_place := Running, t_slots := t_slots x + 1\<rparr>) (o_tm s)" and d: "\<not> t_done (devs (o_tm s) d)"
    by (auto simp: next_slot_enter_def split: if_splits)
  have "rank n s' d < rank n s d"
  proof (cases "d = n")
    case True
    with pl enter(3) have "ld_rank (o_ld s) \<le> 10" by (auto simp: ld_place_def ld_rank_def)
    with True t d enter(1,3) show ?thesis by (simp add: rank_def dev_rank_def)
  next
    case False
    have "cpu_rank (c_pc (o_cpu s d)) < 12" by (simp add: cpu_rank_def split: cpu_pc.split)
    with False t d enter(1,3) show ?thesis by (simp add: rank_def dev_rank_def)
  qed
  moreover have "rank n s' e = rank n s e" if "e \<noteq> d" for e using that t enter(1) by (simp add: rank_def)
  ultimately show ?thesis using enter(1,2) t n
    by (intro disjI1 device_lower [of s' s n env d]) (simp_all add: timer_rank_def)
next
  case (tick t)
  from timer_rank_step [OF tick(2)] lim tick(1) show ?thesis by (auto simp: variant_def lower_def)
next
  case stop
  show ?thesis
  proof (cases "timer_stop (o_tm s)")
    case True
    then have "stop_timer_flag (o_tm s) = o_tm s" by (simp add: stop_timer_flag_def)
    with stop n show ?thesis by simp
  next
    case False
    with stop show ?thesis by (simp add: variant_def lower_def stop_timer_flag_def)
  qed
qed

section \<open>Some thread can always step\<close>

text \<open>The only reasons why a thread does not continue: its instruction faults, or the program cannot be loaded.\<close>

definition cpu_faults :: "os_env \<Rightarrow> os_t \<Rightarrow> bool" where
  "cpu_faults env s \<longleftrightarrow> (\<exists>i<num_cpus (e_cfg env). is_running i s \<and> c_pc (o_cpu s i) = CRun \<and>
     (\<exists>e. cpu_routine env i s = Some (Inl e)))"

definition loader_fails :: "os_env \<Rightarrow> os_t \<Rightarrow> bool" where
  "loader_fails env s \<longleftrightarrow> is_running (num_cpus (e_cfg env)) s \<and>
     (\<forall>p s'. p \<notin> dom (o_pcbs s) \<longrightarrow> ld_routine env p s \<noteq> Inr (Returns s'))"

lemma can_step:
  assumes inv: "os_inv (num_cpus (e_cfg env)) s" and tm: "reach (Suc (num_cpus (e_cfg env))) (o_tm s)"
    and d: "d \<le> num_cpus (e_cfg env)" "t_place (devs (o_tm s) d) \<noteq> Detached"
    and ok: "\<not> cpu_faults env s" "\<not> loader_fails env s"
  shows "\<exists>s'. os_step env s s'"
proof (cases "timer_routine (o_tm s)")
  case (Some t)
  then show ?thesis by (blast intro: os_step.tick)
next
  case None
  let ?n = "num_cpus (e_cfg env)"
  note v = os_invD [OF inv]
  have "tpc (o_tm s) \<noteq> Exited"
  proof
    assume "tpc (o_tm s) = Exited"
    with timer_invD(5) [OF v(1)] have "\<forall>e\<in>set (dev_list (o_tm s)). gone (devs (o_tm s) e)" by simp
    with d v(2) show False by (auto simp: gone_def)
  qed
  from waiting_timer [OF tm this None] obtain e where e: "e < Suc ?n"
    "t_place (devs (o_tm s) e) = Running \<or> (t_place (devs (o_tm s) e) = Blocked \<and> next_slot_enter e (o_tm s) \<noteq> None)" by blast
  show ?thesis
  proof (cases "t_place (devs (o_tm s) e) = Running")
    case False
    with e obtain t where "t_place (devs (o_tm s) e) = Blocked" "next_slot_enter e (o_tm s) = Some t" by blast
    moreover have "e \<le> ?n" using e(1) by simp
    ultimately show ?thesis by (blast intro: os_step.enter)
  next
    case True
    then have r: "is_running e s" by (simp add: is_running_def)
    show ?thesis
    proof (cases "e = ?n")
      case True
      with ok(2) r show ?thesis by (auto simp: loader_fails_def intro: os_step.loader)
    next
      case False
      with e have i: "e < ?n" by simp
      show ?thesis
      proof (cases "c_pc (o_cpu s e) = CRun")
        case True
        then obtain x where x: "cpu_routine env e s = Some x" by (simp add: cpu_routine_def Let_def)
        with ok(1) i r True obtain s' where "x = Inr s'" by (cases x) (auto simp: cpu_faults_def)
        with x os_step.cpu [OF i r] show ?thesis by blast
      next
        case False
        from cpu_routine_runs [OF inv i r False] os_step.cpu [OF i r] show ?thesis by blast
      qed
    qed
  qed
qed

section \<open>Every schedule ends\<close>

lemma run_step_lower:
  assumes r: "os_run env tr s" and env: "good_env env" "0 < num_cpus (e_cfg env)" "clock_limit env < 2 ^ 64"
    and st: "os_step env s s'"
  shows "(variant env s', variant env s) \<in> lower \<or>
    (s' = s \<and> (\<forall>d\<le>num_cpus (e_cfg env). t_place (devs (o_tm s) d) = Detached))"
proof -
  have "os_reach env s'" using os_run_reach [OF r] st by (rule os_reach.step)
  from os_reach_run [OF this] obtain tr' where "os_run env tr' s'" by blast
  from clock_invD(3) [OF os_run_clock [OF this env]] show ?thesis
    using clock_invD(2) [OF os_run_clock [OF r env]] os_reach_inv [OF os_run_reach [OF r] env(1)]
    by (intro os_step_lower [OF st refl])
qed

definition ended :: "os_env \<Rightarrow> os_t \<Rightarrow> bool" where
  "ended env s \<longleftrightarrow> (\<forall>i<num_cpus (e_cfg env). c_pc (o_cpu s i) = CStopped) \<and> o_ld s = LEnded"

lemma detached_ended:
  assumes r: "os_run env tr s" and env: "good_env env" "0 < num_cpus (e_cfg env)" "clock_limit env < 2 ^ 64"
    and d: "\<forall>d\<le>num_cpus (e_cfg env). t_place (devs (o_tm s) d) = Detached"
  shows "ended env s"
  using os_invD(5) [OF os_reach_inv [OF os_run_reach [OF r] env(1)]] clock_invD(2) [OF os_run_clock [OF r env]] d
  by (auto simp: ended_def dev_ok_def ld_place_def)

text \<open>One step with its events.\<close>

inductive os_move :: "os_env \<Rightarrow> os_event list \<Rightarrow> os_t \<Rightarrow> os_t \<Rightarrow> bool" for env where
  cpu: "i < num_cpus (e_cfg env) \<Longrightarrow> is_running i s \<Longrightarrow> cpu_routine env i s = Some (Inr s') \<Longrightarrow>
    os_move env (cpu_events env i s) s s'"
| loader: "is_running (num_cpus (e_cfg env)) s \<Longrightarrow> p \<notin> dom (o_pcbs s) \<Longrightarrow> ld_routine env p s = Inr (Returns s') \<Longrightarrow>
    os_move env (ld_events env s) s s'"
| enter: "d \<le> num_cpus (e_cfg env) \<Longrightarrow> t_place (devs (o_tm s) d) = Blocked \<Longrightarrow> next_slot_enter d (o_tm s) = Some t \<Longrightarrow>
    os_move env [] s (s\<lparr>o_tm := t\<rparr>)"
| tick: "timer_routine (o_tm s) = Some t \<Longrightarrow> os_move env [] s (s\<lparr>o_tm := t\<rparr>)"
| stop: "\<forall>d\<le>num_cpus (e_cfg env). t_place (devs (o_tm s) d) = Detached \<Longrightarrow>
    os_move env [] s (s\<lparr>o_tm := stop_timer_flag (o_tm s)\<rparr>)"

lemma os_move_run: "os_move env evs s s' \<Longrightarrow> os_run env tr s \<Longrightarrow> os_run env (tr @ evs) s'"
  by (cases rule: os_move.cases) (auto intro: os_run.intros)

lemma os_move_step: "os_move env evs s s' \<Longrightarrow> os_step env s s'"
  by (cases rule: os_move.cases) (auto intro: os_step.intros)

lemma step_move: "os_step env s s' \<Longrightarrow> \<exists>evs. os_move env evs s s'"
  by (cases rule: os_step.cases) (blast intro: os_move.intros)+

lemma os_run_step: "os_run env tr s \<Longrightarrow> os_step env s s' \<Longrightarrow> \<exists>evs. os_run env (tr @ evs) s'"
  using step_move os_move_run by blast

text \<open>Without faults every run can be continued to the end; \<open>P\<close> may be a subset of the runs.\<close>

lemma can_continue:
  assumes env: "good_env env" "0 < num_cpus (e_cfg env)" "clock_limit env < 2 ^ 64"
    and run: "\<And>tr s. P tr s \<Longrightarrow> os_run env tr s"
    and ok: "\<And>tr s. P tr s \<Longrightarrow> \<not> cpu_faults env s \<and> \<not> loader_fails env s"
    and step: "\<And>tr s s'. P tr s \<Longrightarrow> os_step env s s' \<Longrightarrow> \<exists>evs. P (tr @ evs) s'"
  shows "P tr s \<Longrightarrow> \<exists>evs s'. P (tr @ evs) s' \<and> ended env s'"
proof (induction "variant env s" arbitrary: tr s rule: wf_induct_rule [OF wf_lower])
  case (1 s tr)
  note p = 1(2)
  note r = os_run_reach [OF run [OF p]]
  show ?case
  proof (cases "\<forall>d\<le>num_cpus (e_cfg env). t_place (devs (o_tm s) d) = Detached")
    case True
    from detached_ended [OF run [OF p] env True] p show ?thesis by (intro exI [of _ "[]"] exI [of _ s]) simp
  next
    case False
    then obtain d where d: "d \<le> num_cpus (e_cfg env)" "t_place (devs (o_tm s) d) \<noteq> Detached" by blast
    from ok [OF p] obtain s' where st: "os_step env s s'"
      using can_step [OF os_reach_inv [OF r env(1)] os_reach_timer [OF r] d] by blast
    with run_step_lower [OF run [OF p] env st] False have low: "(variant env s', variant env s) \<in> lower" by blast
    obtain evs where "P (tr @ evs) s'" using step [OF p st] by blast
    from 1(1) [OF low this] show ?thesis by (metis append_assoc)
  qed
qed

lemma can_complete:
  assumes env: "good_env env" "0 < num_cpus (e_cfg env)" "clock_limit env < 2 ^ 64"
    and ok: "\<And>tr s. os_run env tr s \<Longrightarrow> \<not> cpu_faults env s \<and> \<not> loader_fails env s"
    and r: "os_run env tr s"
  shows "\<exists>tr' s'. os_run env tr' s' \<and> ended env s'"
proof -
  have "\<exists>evs s'. os_run env (tr @ evs) s' \<and> ended env s'"
    by (rule can_continue [of env "os_run env", OF env _ ok _ r]) (simp_all add: os_run_step)
  then show ?thesis by blast
qed

text \<open>When the loader fails.\<close>

lemma finite_pcbs:
  assumes "trace_inv env n s l fin"
  shows "finite (dom (o_pcbs s))"
proof -
  note d = trace_invD [OF assms]
  have "dom (o_pcbs s) \<subseteq> dom l \<union> set_option (ld_owned (o_ld s)) \<union> (\<Union>j<n. set_option (c_proc (o_cpu s j)))"
    using d(2) by (auto simp: in_progress_def)
  moreover have "finite (dom l)" using index_inv_card [OF d(4)] by blast
  then have "finite (dom l \<union> set_option (ld_owned (o_ld s)) \<union> (\<Union>j<n. set_option (c_proc (o_cpu s j))))" by simp
  ultimately show ?thesis by (rule finite_subset)
qed

lemma ld_add_runs:
  assumes inv: "os_inv n s" and b: "o_pcbs s q = Some b"
  shows "\<exists>s'. ld_add env q i s = Inr (Returns s')"
proof -
  have "prio b < MAX_PRIO" using os_own_invD(2) [OF os_invD(3) [OF inv] b] by blast
  with b show ?thesis by (simp add: ld_add_def deref_Some Let_def add_proc_placed)
qed

lemma loader_runs:
  assumes r: "os_run env tr s" and g: "good_env env"
    and loads: "\<And>i n. i < procs env \<Longrightarrow> \<exists>b n'. load (e_pcb0 env i) (e_text0 env i) n (l_path (ld_processes (e_cfg env) ! i))
      (e_file env (l_path (ld_processes (e_cfg env) ! i))) = Inr (Returns b, n')"
  shows "\<not> loader_fails env s"
proof -
  obtain l fin where t: "trace_inv env (num_cpus (e_cfg env)) s l fin" using os_run_trace [OF r g] by blast
  have "finite (dom (o_pcbs s))" by (rule finite_pcbs [OF t])
  then obtain p where p: "p \<notin> dom (o_pcbs s)" using ex_new_if_finite [OF infinite_UNIV_nat] by blast
  have "\<exists>s'. ld_routine env p s = Inr (Returns s')"
  proof (cases "o_ld s")
    case (LLoad i)
    then show ?thesis using loads [of i "o_pid s"]
      by (cases "i < procs env") (auto simp: ld_routine_def ld_load_def procs_def Let_def)
  next
    case (LWait i q)
    with trace_invD(1) [OF t] obtain b where "o_pcbs s q = Some b" by (auto simp: ld_wf_def)
    from ld_add_runs [OF os_reach_inv [OF os_run_reach [OF r] g] this] LWait show ?thesis by (simp add: ld_routine_def)
  qed (simp_all add: ld_routine_def)
  with p show ?thesis by (auto simp: loader_fails_def)
qed

end
