(* ===== verification/Schedule.thy ===== *)
theory Schedule imports Halting Runs begin

text \<open>
  Properties of whole runs of the machine (\<^verbatim>\<open>src/os.c\<close>), over all interleavings of its threads: what the
  log shows, what has been executed when the machine ends, and that it ends.  The witnesses run the program
  of theory \<open>Runs\<close> to its end.
\<close>

section \<open>Properties\<close>

text \<open>C11: The log of every run can be followed: a process is dispatched only while no processor has announced it, its
  instructions are executed, and it is put back or finished, only by the processor that dispatched it
  last; what has been executed is at every moment the beginning of its program, and the whole
  program when it is reported finished; no process of the configuration is reported finished twice.
\<close>

theorem log_follows_programs:
  assumes "os_run env tr s" and "good_env env"
  shows "\<exists>l fin. replay tr = Some (l, fin) \<and> distinct (map fst fin) \<and>
    (\<forall>(i, xs) \<in> set fin. i < length (ld_processes (e_cfg env)) \<and> xs = c_text (program env i)) \<and>
    (\<forall>p i xs w. l p = Some (i, xs, w) \<longrightarrow> i < length (ld_processes (e_cfg env)) \<and> i \<notin> set (map fst fin) \<and>
       (\<exists>ys. c_text (program env i) = xs @ ys) \<and> (\<exists>b. o_pcbs s p = Some b \<and> pc b = length xs))"
proof -
  obtain l fin where l: "replay tr = Some (l, fin)" and t: "trace_inv env (num_cpus (e_cfg env)) s l fin"
    using os_run_trace [OF assms] by blast
  note d = trace_invD [OF t]
  note ix = d(4) [unfolded index_inv_def]
  have k: "loads env (o_ld s) \<le> length (ld_processes (e_cfg env))" using d(1) by (simp add: ld_wf_def)
  have "i < length (ld_processes (e_cfg env)) \<and> xs = c_text (program env i)" if "(i, xs) \<in> set fin" for i xs
  proof -
    have "i \<in> set (map fst fin)" using that by force
    then have "i < loads env (o_ld s)" using ix by blast
    with k d(5) that show ?thesis by auto
  qed
  moreover have "i < length (ld_processes (e_cfg env)) \<and> i \<notin> set (map fst fin) \<and>
      (\<exists>ys. c_text (program env i) = xs @ ys) \<and> (\<exists>b. o_pcbs s p = Some b \<and> pc b = length xs)"
    if p: "l p = Some (i, xs, w)" for p i xs w
  proof -
    have "i \<in> index_of l ` dom l" using p by (metis domI fst_conv image_eqI index_of_def option.sel)
    then have i: "i < loads env (o_ld s)" "i \<notin> set (map fst fin)" using ix by blast+
    from d(3) [OF p] obtain b where b: "o_pcbs s p = Some b" by (auto simp: life_ok_def)
    note lo = life_okD [OF d(3) [OF p] b]
    have "length xs = pc b" using lo(1-3) program_size [of env i] by simp
    moreover have "c_text (program env i) = xs @ drop (pc b) (c_text (program env i))" using lo(1,3) by simp
    ultimately show ?thesis using i k b by auto
  qed
  moreover have "distinct (map fst fin)" using ix by blast
  ultimately show ?thesis using l by blast
qed

text \<open>C2: For a configuration of at least one processor and at most \<open>MAX_QUEUE_SIZE\<close> = 10 processes, with priorities in range and
  programs without system call 101 (\<open>good_env\<close>): when all processors have stopped, the machine has executed the whole
  program of every process of the configuration exactly once, in the order of its instructions and always on the processor that had
  announced the process, and no control block is left.  The events are those the threads print.  With more processes a
  ready queue can be full, and then \<open>add_proc\<close> and \<open>put_proc\<close> drop a process silently (\<open>add_and_put_proc_effect\<close>).
\<close>

theorem all_programs_completed:
  assumes "os_run env tr s" and "good_env env" and "0 < num_cpus (e_cfg env)"
    and "length (ld_processes (e_cfg env)) \<le> MAX_QUEUE_SIZE"
    and "\<forall>i<num_cpus (e_cfg env). c_pc (o_cpu s i) = CStopped"
  shows "o_pcbs s = Map.empty \<and> (\<exists>fin. replay tr = Some (Map.empty, fin) \<and>
    mset fin = mset (map (\<lambda>i. (i, c_text (program env i))) [0..<length (ld_processes (e_cfg env))]))"
  using stopped_completed [OF assms] by blast

text \<open>C4: For a configuration of at least one processor and at most \<open>MAX_QUEUE_SIZE\<close> = 10 processes, with priorities in range and
  programs without system call 101 (\<open>good_env\<close>), every schedule comes to an end: in any infinite sequence of steps there is a
  point at which all processors have stopped, the loader has ended and no control block is left.  The clock never passes
  \<open>clock_limit\<close>: the last start time, plus the number of processes, plus 1, plus for every process the number of its
  instructions and 1; this sum is below \<open>2 ^ 64\<close>, so the counter of the slots does not wrap around.
\<close>

theorem every_schedule_ends:
  assumes "os_reach env (f 0)" and "\<And>k. os_step env (f k) (f (Suc k))"
    and "good_env env" and "0 < num_cpus (e_cfg env)" and "clock_limit env < 2 ^ 64"
    and "length (ld_processes (e_cfg env)) \<le> MAX_QUEUE_SIZE"
  shows "(\<exists>k. ended env (f k) \<and> o_pcbs (f k) = Map.empty) \<and> (\<forall>k. ticks (o_tm (f k)) \<le> clock_limit env)"
proof -
  have reach: "os_reach env (f k)" for k by (induction k) (use assms(1,2) os_reach.step in blast)+
  then have run: "\<exists>tr. os_run env tr (f k)" for k using os_reach_run by blast
  have "\<exists>k. (variant env (f (Suc k)), variant env (f k)) \<notin> lower"
  proof (rule ccontr)
    assume "\<not> ?thesis"
    then have "\<forall>k. (variant env (f (Suc k)), variant env (f k)) \<in> lower" by blast
    with wf_lower show False unfolding wf_iff_no_infinite_down_chain
      by (elim notE) (rule exI [of _ "\<lambda>k. variant env (f k)"])
  qed
  then obtain k where k: "(variant env (f (Suc k)), variant env (f k)) \<notin> lower" ..
  from run [of k] obtain tr where tr: "os_run env tr (f k)" ..
  from run_step_lower [OF tr assms(3-5) assms(2)] k have "\<forall>d\<le>num_cpus (e_cfg env). t_place (devs (o_tm (f k)) d) = Detached"
    by blast
  from detached_ended [OF tr assms(3-5) this] have e: "ended env (f k)" .
  then have "o_pcbs (f k) = Map.empty"
    by (intro all_stopped(3) [OF tr assms(3,4,6)]) (simp add: ended_def)
  moreover have "ticks (o_tm (f j)) \<le> clock_limit env" for j
    using run [of j] clock_invD(3) os_run_clock [OF _ assms(3-5)] by blast
  ultimately show ?thesis using e by blast
qed

text \<open>C13: The machine cannot get stuck: in every reachable state in which a device is still attached some thread can take
  a step that brings the machine closer to its end, unless an instruction faults or a program cannot be loaded.
\<close>

theorem machine_never_stuck:
  assumes "os_reach env s" and "good_env env" and "0 < num_cpus (e_cfg env)" and "clock_limit env < 2 ^ 64"
    and "d \<le> num_cpus (e_cfg env)" and "t_place (devs (o_tm s) d) \<noteq> Detached"
    and "\<not> cpu_faults env s" and "\<not> loader_fails env s"
  shows "\<exists>s'. os_step env s s' \<and> (variant env s', variant env s) \<in> lower"
proof -
  obtain tr where "os_run env tr s" using os_reach_run [OF assms(1)] by blast
  moreover obtain s' where "os_step env s s'"
    using can_step [OF os_reach_inv [OF assms(1,2)] os_reach_timer [OF assms(1)] assms(5-8)] by blast
  ultimately show ?thesis using run_step_lower [OF _ assms(2-4)] assms(5,6) by blast
qed

text \<open>C14: With one processor and a positive time slot the budget is exact: the process that is run has time left, no slice
  gets negative, and a process is put back with its slice used up.  With several processors this
  fails, see \<open>negative_budget_never_preempted\<close>.
\<close>

theorem single_processor_slice:
  assumes "os_reach env s" and "good_env env" and "num_cpus (e_cfg env) = 1" and "0 < time_slot (e_cfg env)"
  shows "0 \<le> c_time_left (o_cpu s 0) \<and> (c_pc (o_cpu s 0) = CRun \<longrightarrow> 0 < c_time_left (o_cpu s 0)) \<and>
    c_use_time (o_cpu s 0) + c_time_left (o_cpu s 0) \<le> time_slot (e_cfg env)"
  using one_okD(1,2) [OF os_reach_one [OF assms]] os_reach_slice [OF assms(1), of 0] assms(4)
  by (simp add: slice_ok_def)

section \<open>A run to the end\<close>

lemma demo_program:
  "list_all (\<lambda>ins. opcode ins = CALC) (c_text (program (demo_env ts) 0)) \<and> length (c_text (program (demo_env ts) 0)) = 2"
proof -
  let ?e = "demo_env ts"
  obtain b where b: "load sample_pcb (e_text0 ?e 0) 1 ''input/proc/p0'' (e_file ?e ''input/proc/p0'') = Inr (Returns b, to_u32 (1 + 1))"
      "has_prog b demo_prog"
    using prog_load [OF progs_ok(1), of "''input/proc/p0''" ts 0 1 "''input/proc/p0''"] by auto
  then have "program ?e 0 = code b" by (simp add: program_def Let_def)
  with demo_calc [OF b(2)] show ?thesis by simp
qed

lemma demo_no_fault:
  assumes r: "os_run (demo_env 2) tr s"
  shows "\<not> cpu_faults (demo_env 2) s \<and> \<not> loader_fails (demo_env 2) s"
proof
  let ?e = "demo_env 2"
  note g = demo_good [of 2]
  note rr = os_run_reach [OF r]
  note inv = os_reach_inv [OF rr g]
  show "\<not> loader_fails ?e s"
  proof (rule loader_runs [OF r g])
    fix i n assume "i < procs ?e"
    then have "i = 0" by (simp add: procs_def)
    then show "\<exists>b n'. load (e_pcb0 ?e i) (e_text0 ?e i) n (l_path (ld_processes (e_cfg ?e) ! i))
        (e_file ?e (l_path (ld_processes (e_cfg ?e) ! i))) = Inr (Returns b, n')"
      using prog_load [OF progs_ok(1), of "''input/proc/p0''" 2 0 n] by (simp del: of_char_of) blast
  qed
  show "\<not> cpu_faults ?e s"
  proof
    assume "cpu_faults ?e s"
    then obtain x where c: "c_pc (o_cpu s 0) = CRun" and x: "cpu_routine ?e 0 s = Some (Inl x)" by (auto simp: cpu_faults_def)
    obtain p where p: "c_proc (o_cpu s 0) = Some p" using os_invD(4) [OF inv, of 0] c by (auto simp: cpu_shape_def)
    then have own: "owned (o_cpu s 0) = Some p" using c by (simp add: owned_def)
    obtain l fin where t: "trace_inv ?e 1 s l fin" using os_run_trace [OF r g] by auto
    note d = trace_invD [OF t]
    have "in_progress 1 s p" using held_in_progress [of 1 s 0 p] inv own c by simp
    with d(2) have "p \<in> dom l" by simp
    then obtain k xs w where l: "l p = Some (k, xs, w)" by auto
    from d(3) [OF l] obtain b where b: "o_pcbs s p = Some b" "code b = program ?e k" by (auto simp: life_ok_def)
    have "k < loads ?e (o_ld s)"
      using d(4) l unfolding index_inv_def by (metis Un_iff domI fst_conv image_eqI index_of_def lessThan_iff option.sel)
    with d(1) have "k = 0" by (simp add: ld_wf_def)
    have "\<exists>st out k'. run True p (o_k s) = Inr (st, out, k')"
      using b(1) demo_program [of 2] b(2) \<open>k = 0\<close> program_size [of ?e 0]
      by (simp add: run_def deref_Some exec_ins_def calc_def list_all_length)
    moreover have "ck_int (c_time_left (o_cpu s 0) - 1) = Inr (c_time_left (o_cpu s 0) - 1)"
      "ck_int (c_use_time (o_cpu s 0) + 1) = Inr (c_use_time (o_cpu s 0) + 1)"
      using one_okD(1,2) [OF os_reach_one [OF rr g]] os_reach_slice [OF rr, of 0] c
      by (auto simp: ck_int_def slice_ok_def)
    ultimately show False using x c the_proc_held [OF p b(1)]
      by (auto simp: cpu_routine_def Let_def cpu_run_def)
  qed
qed

lemma demo_limit: "clock_limit (demo_env ts) < 2 ^ 64"
  using demo_program [of ts] program_size [of "demo_env ts" 0]
  by (simp add: clock_limit_def last_start_def procs_def work_def)

text \<open>The machine runs the program to its end.\<close>

lemma demo_completes: "\<exists>tr s. os_run (demo_env 2) tr s \<and> ended (demo_env 2) s"
proof -
  let ?e = "demo_env 2"
  obtain s0 where "main ?e null_memphy (replicate 4 null_memphy) = Inr s0" using main_starts [of ?e] by auto
  then have "os_run ?e [] s0" by (rule os_run.boot)
  from can_complete [OF demo_good _ demo_limit demo_no_fault this] show ?thesis by simp
qed

section \<open>Witnesses\<close>

theorem log_follows_programs_witness:
  "\<exists>tr s l fin. os_run (demo_env 2) tr s \<and> ended (demo_env 2) s \<and> replay tr = Some (l, fin) \<and> distinct (map fst fin)"
proof -
  obtain tr s where r: "os_run (demo_env 2) tr s" "ended (demo_env 2) s" using demo_completes by blast
  with log_follows_programs [OF r(1) demo_good] show ?thesis by blast
qed

theorem all_programs_completed_witness:
  "\<exists>tr s xs. os_run (demo_env 2) tr s \<and> o_pcbs s = Map.empty \<and> replay tr = Some (Map.empty, [(0, xs)]) \<and>
     length xs = 2 \<and> list_all (\<lambda>ins. opcode ins = CALC) xs"
proof -
  obtain tr s where r: "os_run (demo_env 2) tr s" "ended (demo_env 2) s" using demo_completes by blast
  have "o_pcbs s = Map.empty \<and> (\<exists>fin. replay tr = Some (Map.empty, fin) \<and>
      mset fin = mset (map (\<lambda>i. (i, c_text (program (demo_env 2) i))) [0..<length (ld_processes (e_cfg (demo_env 2)))]))"
    by (rule all_programs_completed [OF r(1) demo_good]) (use r(2) in \<open>simp_all add: ended_def MAX_QUEUE_SIZE_def\<close>)
  with r(1) demo_program [of 2] show ?thesis by auto
qed

theorem machine_never_stuck_witness:
  "\<exists>s s'. os_reach (demo_env 2) s \<and> c_pc (o_cpu s 0) = CGetSlot \<and> os_step (demo_env 2) s s' \<and>
     (variant (demo_env 2) s', variant (demo_env 2) s) \<in> lower"
proof -
  obtain s where s: "os_reach (demo_env 2) s" "o_tm s = timer_init 2" "o_cpu s 0 = cpu0\<lparr>c_proc := Some 1, c_pc := CGetSlot\<rparr>"
    using calc_runs(1) [of 2] by blast
  obtain tr where "os_run (demo_env 2) tr s" using os_reach_run [OF s(1)] by blast
  from demo_no_fault [OF this] have ok: "\<not> cpu_faults (demo_env 2) s" "\<not> loader_fails (demo_env 2) s" by blast+
  have "\<exists>s'. os_step (demo_env 2) s s' \<and> (variant (demo_env 2) s', variant (demo_env 2) s) \<in> lower"
    by (rule machine_never_stuck [OF s(1) demo_good _ demo_limit _ _ ok, of 0]) (simp_all add: s(2) fresh_dev_def)
  then obtain s' where "os_step (demo_env 2) s s'" "(variant (demo_env 2) s', variant (demo_env 2) s) \<in> lower" by blast
  with s show ?thesis by (intro exI [of _ s] exI [of _ s']) simp
qed

text \<open>An infinite sequence of steps from the start.\<close>

lemma demo_schedule:
  "\<exists>f. os_reach (demo_env 2) (f 0) \<and> o_cpu (f 0) 0 = cpu0 \<and> (\<forall>k. os_step (demo_env 2) (f k) (f (Suc k)))"
proof -
  let ?e = "demo_env 2"
  obtain s0 where m: "main ?e null_memphy (replicate 4 null_memphy) = Inr s0" and r0: "os_reach ?e s0"
    using main_starts [of ?e] by auto
  have c0: "o_cpu s0 0 = cpu0" using main_state [OF m] by simp
  have go: "\<exists>s'. os_step ?e s s'" if s: "os_reach ?e s" for s
  proof (cases "\<forall>d\<le>num_cpus (e_cfg ?e). t_place (devs (o_tm s) d) = Detached")
    case True
    then show ?thesis by (blast intro: os_step.stop)
  next
    case False
    obtain tr where "os_run ?e tr s" using os_reach_run [OF s] by blast
    with False can_step [OF os_reach_inv [OF s demo_good] os_reach_timer [OF s]] demo_no_fault show ?thesis by blast
  qed
  have "\<exists>f. \<forall>k. (os_reach ?e (f k) \<and> (k = 0 \<longrightarrow> f k = s0)) \<and> os_step ?e (f k) (f (Suc k))"
    by (rule dependent_nat_choice) (use r0 go in \<open>auto intro: os_reach.step\<close>)
  with c0 show ?thesis by metis
qed

theorem every_schedule_ends_witness:
  "\<exists>f k. o_cpu (f 0) 0 = cpu0 \<and> (\<forall>j. os_step (demo_env 2) (f j) (f (Suc j))) \<and> ended (demo_env 2) (f k) \<and>
     o_pcbs (f k) = Map.empty"
proof -
  obtain f where f: "os_reach (demo_env 2) (f 0)" "o_cpu (f 0) 0 = cpu0" "\<And>k. os_step (demo_env 2) (f k) (f (Suc k))"
    using demo_schedule by blast
  have "(\<exists>k. ended (demo_env 2) (f k) \<and> o_pcbs (f k) = Map.empty) \<and>
      (\<forall>k. ticks (o_tm (f k)) \<le> clock_limit (demo_env 2))"
    by (rule every_schedule_ends [OF f(1,3) demo_good _ demo_limit]) (simp_all add: MAX_QUEUE_SIZE_def)
  with f(2,3) show ?thesis by blast
qed

theorem single_processor_slice_witness:
  "\<exists>s. os_reach (demo_env 2) s \<and> c_pc (o_cpu s 0) = CRun \<and> 0 < c_time_left (o_cpu s 0) \<and> c_time_left (o_cpu s 0) \<le> 2"
proof -
  obtain s v where s: "os_reach (demo_env 2) s"
      "o_cpu s 0 = \<lparr>c_pc = CRun, c_proc = Some 1, c_time_left = min 2 v, c_use_time = 0, c_remaining = v\<rparr>"
    using calc_runs(2) [of 2] by blast
  have "0 \<le> c_time_left (o_cpu s 0) \<and> (c_pc (o_cpu s 0) = CRun \<longrightarrow> 0 < c_time_left (o_cpu s 0)) \<and>
      c_use_time (o_cpu s 0) + c_time_left (o_cpu s 0) \<le> time_slot (e_cfg (demo_env 2))"
    by (rule single_processor_slice [OF s(1) demo_good]) simp_all
  with s show ?thesis by (intro exI [of _ s]) simp
qed

end
