(* ===== verification/Written.thy ===== *)
theory Written imports Config Schedule begin

text \<open>
  From the files to the end: the machine that is started on a written configuration runs the programs that are written
  in the files of its processes.  This joins the round trips of \<open>Config\<close> and \<open>Loader\<close> with the log of the machine.
\<close>

section \<open>Written programs\<close>

text \<open>
  Every process file is the written form of a program, with the default priority that \<open>load\<close> reads; the
  priority of the configuration is in range, and no instruction is system call 101.
\<close>

definition written :: "(string \<Rightarrow> string option) \<Rightarrow> ld_args list \<Rightarrow> (int \<times> inst_t list) list \<Rightarrow> bool" where
  "written fs ps progs \<longleftrightarrow> list_all2 (\<lambda>a (pr, prog).
     fs (l_path a) = Some (show_prog pr prog) \<and> 0 \<le> pr \<and> pr < 4294967296 \<and> length prog < 4294967296 \<and>
     0 \<le> l_prio a \<and> l_prio a < int MAX_PRIO \<and>
     (\<forall>ins\<in>set prog. valid_ins ins \<and> (opcode ins = SYSCALL \<longrightarrow> arg_0 ins \<noteq> 101))) ps progs"

lemma writtenD:
  assumes "written fs ps progs" and "i < length ps"
  obtains pr prog where "progs ! i = (pr, prog)" "fs (l_path (ps ! i)) = Some (show_prog pr prog)" "0 \<le> pr"
    "pr < 4294967296" "length prog < 4294967296" "0 \<le> l_prio (ps ! i)" "l_prio (ps ! i) < int MAX_PRIO"
    "\<forall>ins\<in>set prog. valid_ins ins \<and> (opcode ins = SYSCALL \<longrightarrow> arg_0 ins \<noteq> 101)"
  using assms by (cases "progs ! i") (auto simp: written_def list_all2_conv_all_nth)

lemma same_no_kill:
  assumes "list_all2 same_ins xs prog" and "\<forall>ins\<in>set prog. opcode ins = SYSCALL \<longrightarrow> arg_0 ins \<noteq> 101"
  shows "list_all (\<lambda>ins. opcode ins = SYSCALL \<longrightarrow> arg_0 ins \<noteq> 101) xs"
proof -
  have "arg_0 (xs ! i) \<noteq> 101" if "i < length xs" "opcode (xs ! i) = SYSCALL" for i
    using assms that by (auto simp: list_all2_conv_all_nth same_ins_def operands_def)
  then show ?thesis by (simp add: list_all_length)
qed

lemma written_load:
  assumes "written (e_file env) (ld_processes (e_cfg env)) progs" and i: "i < length (ld_processes (e_cfg env))"
  shows "\<exists>b n'. load (e_pcb0 env i) (e_text0 env i) n (l_path (ld_processes (e_cfg env) ! i))
      (e_file env (l_path (ld_processes (e_cfg env) ! i))) = Inr (Returns b, n') \<and>
    list_all2 same_ins (c_text (code b)) (snd (progs ! i)) \<and> no_kill b"
proof -
  from writtenD [OF assms] obtain pr prog where w: "progs ! i = (pr, prog)"
      "e_file env (l_path (ld_processes (e_cfg env) ! i)) = Some (show_prog pr prog)" "0 \<le> pr" "pr < 4294967296"
      "length prog < 4294967296" "\<forall>ins\<in>set prog. valid_ins ins \<and> (opcode ins = SYSCALL \<longrightarrow> arg_0 ins \<noteq> 101)"
    by metis
  then have v: "\<forall>ins\<in>set prog. valid_ins ins" by blast
  from load_show [OF v w(3-5), of "e_pcb0 env i" "e_text0 env i" n "l_path (ld_processes (e_cfg env) ! i)"]
  show ?thesis using w same_no_kill by (fastforce simp: no_kill_def)
qed

lemma written_program:
  assumes "written (e_file env) (ld_processes (e_cfg env)) progs" and "i < length (ld_processes (e_cfg env))"
  shows "list_all2 same_ins (c_text (program env i)) (snd (progs ! i))"
  using written_load [OF assms, of 1] by (auto simp: program_def Let_def)

lemma written_good:
  assumes w: "written (e_file env) (ld_processes (e_cfg env)) progs"
  shows "good_env env"
  unfolding good_env_def Let_def
proof (intro allI impI conjI)
  fix i assume i: "i < length (ld_processes (e_cfg env))"
  have "0 \<le> l_prio (ld_processes (e_cfg env) ! i)" "l_prio (ld_processes (e_cfg env) ! i) < int MAX_PRIO"
    by (rule writtenD [OF w i], assumption)+
  then show "nat (to_u32 (l_prio (ld_processes (e_cfg env) ! i))) < MAX_PRIO" by (simp add: to_u32_id MAX_PRIO_def)
  fix n b n'
  assume "load (e_pcb0 env i) (e_text0 env i) n (l_path (ld_processes (e_cfg env) ! i))
      (e_file env (l_path (ld_processes (e_cfg env) ! i))) = Inr (Returns b, n')"
  with written_load [OF w i, of n] show "no_kill b" by auto
qed

section \<open>Starting\<close>

lemma init_devices_ok: "\<forall>v\<in>set szs. 0 \<le> v \<Longrightarrow> \<exists>r. init_devices z mps szs = Inr r"
proof (induction z mps szs rule: init_devices.induct)
  case (1 z mp mps sz szs)
  then obtain mp' where "init_memphy z mp sz 1 = Inr mp'" using init_memphy_free_list [of sz z mp 1] by auto
  with 1 show ?case by auto
qed simp_all

lemma start_written:
  assumes v: "valid_config cfg" and arg: "length arg < 94" and f: "e_file env (''input/'' @ arg) = Some (show_config False cfg)"
  shows "\<exists>s. start_os [arg] env mram0 mswp0 = Inr (Returns (cfg, s)) \<and> main (env\<lparr>e_cfg := cfg\<rparr>) mram0 mswp0 = Inr s"
proof -
  have p: "0 \<le> memramsz cfg" "\<forall>v\<in>set (memswpsz cfg). 0 \<le> v" using v by (auto simp: valid_config_def int_range_def)
  obtain mp where "init_memphy (e_zeroed env) mram0 (memramsz cfg) 1 = Inr mp"
    using init_memphy_free_list [OF p(1)] by blast
  moreover obtain ms where "init_devices (e_zeroed env) mswp0 (memswpsz cfg) = Inr ms" using init_devices_ok [OF p(2)] by blast
  ultimately obtain s where s: "main (env\<lparr>e_cfg := cfg\<rparr>) mram0 mswp0 = Inr s" by (simp add: main_def Let_def)
  have "config_path arg = Inr (''input/'' @ arg)" using arg by (simp add: config_path_def)
  then have "start_os [arg] env mram0 mswp0 = Inr (Returns (cfg, s))"
    using f read_config_show(1) [OF v] s by (simp add: start_os_def)
  with s show ?thesis by blast
qed

section \<open>Properties\<close>

text \<open>C1: Let a valid configuration of at least one processor and at most \<open>MAX_QUEUE_SIZE\<close> = 10 processes be written to a
  file whose name has less than 94 characters, and let every process file be the written form of a program without system
  call 101 (\<open>written\<close>).  Started on that file the machine begins with that configuration; and when all its processors have
  stopped, the instructions that are written in the file of every process have been executed exactly
  once, in their order, each on the processor that had announced the process, and nothing else.  The limit of ten is needed:
  a ready queue that is full drops a process silently (\<open>add_and_put_proc_effect\<close>), and with at most ten processes no queue
  is ever full when a process is put into it.\<close>

theorem written_programs_run:
  assumes "valid_config cfg" and "length arg < 94" and "e_file env (''input/'' @ arg) = Some (show_config False cfg)"
    and "written (e_file env) (ld_processes cfg) progs" and "0 < num_cpus cfg"
    and "length (ld_processes cfg) \<le> MAX_QUEUE_SIZE"
  shows "(\<exists>s0. start_os [arg] env mram0 mswp0 = Inr (Returns (cfg, s0)) \<and> os_run (env\<lparr>e_cfg := cfg\<rparr>) [] s0) \<and>
    (\<forall>tr s. os_run (env\<lparr>e_cfg := cfg\<rparr>) tr s \<and> (\<forall>i<num_cpus cfg. c_pc (o_cpu s i) = CStopped) \<longrightarrow>
       o_pcbs s = Map.empty \<and>
       (\<exists>fin. replay tr = Some (Map.empty, fin) \<and> mset (map fst fin) = mset [0..<length progs] \<and>
          (\<forall>(i, xs)\<in>set fin. list_all2 same_ins xs (snd (progs ! i)))))"
proof (intro conjI allI impI)
  let ?e = "env\<lparr>e_cfg := cfg\<rparr>"
  have w: "written (e_file ?e) (ld_processes (e_cfg ?e)) progs" using assms(4) by simp
  have n: "length progs = length (ld_processes cfg)" using assms(4) by (simp add: written_def list_all2_lengthD)
  show "\<exists>s0. start_os [arg] env mram0 mswp0 = Inr (Returns (cfg, s0)) \<and> os_run ?e [] s0"
    using start_written [OF assms(1-3)] os_run.boot by blast
  fix tr s assume r: "os_run ?e tr s \<and> (\<forall>i<num_cpus cfg. c_pc (o_cpu s i) = CStopped)"
  have stop: "\<forall>i<num_cpus (e_cfg ?e). c_pc (o_cpu s i) = CStopped" using r by simp
  have "0 < num_cpus (e_cfg ?e)" "length (ld_processes (e_cfg ?e)) \<le> MAX_QUEUE_SIZE" using assms(5,6) by simp_all
  note c = stopped_completed [OF conjunct1 [OF r] written_good [OF w] this stop]
  show "o_pcbs s = Map.empty" by (rule c(1))
  obtain fin where fin: "replay tr = Some (Map.empty, fin)"
      "mset fin = mset (map (\<lambda>i. (i, c_text (program ?e i))) [0..<length (ld_processes cfg)])" using c(2) by auto
  have "mset (map fst fin) = mset [0..<length progs]"
    using arg_cong [OF fin(2), of "image_mset fst"] by (simp only: mset_map [symmetric]) (simp add: comp_def n)
  moreover have "list_all2 same_ins xs (snd (progs ! i))" if "(i, xs) \<in> set fin" for i xs
  proof -
    have "(i, xs) \<in> set (map (\<lambda>i. (i, c_text (program ?e i))) [0..<length (ld_processes cfg)])"
      using mset_eq_setD [OF fin(2)] that by blast
    then show ?thesis using written_program [OF w, of i] by auto
  qed
  ultimately show "\<exists>fin. replay tr = Some (Map.empty, fin) \<and> mset (map fst fin) = mset [0..<length progs] \<and>
      (\<forall>(i, xs)\<in>set fin. list_all2 same_ins xs (snd (progs ! i)))"
    using fin(1) by blast
qed

text \<open>The files of the demonstration, from \<open>input/os\<close> to the two executed instructions.\<close>

theorem written_programs_run_witness:
  "(\<exists>s0. start_os [''os''] (demo_env 2) null_memphy (replicate 4 null_memphy) = Inr (Returns (prog_cfg 2, s0))) \<and>
   (\<exists>tr s xs. os_run (demo_env 2) tr s \<and> replay tr = Some (Map.empty, [(0, xs)]) \<and> list_all2 same_ins xs demo_prog)"
proof -
  let ?e = "demo_env 2" and ?p = "[(1 :: int, demo_prog)]"
  have cfg: "?e\<lparr>e_cfg := prog_cfg 2\<rparr> = ?e" "ld_processes (prog_cfg 2) = [\<lparr>l_path = ''input/proc/p0'', l_start = 0, l_prio = 15\<rparr>]"
      "num_cpus (prog_cfg 2) = 1"
    by (simp_all add: prog_env_def prog_cfg_def empty_env_def)
  have v: "valid_config (prog_cfg 2)"
    by (simp add: valid_config_def prog_cfg_def empty_env_def valid_ld_def proc_name_def is_ws_def int_range_def)
  have f: "e_file ?e (''input/'' @ ''os'') = Some (show_config False (prog_cfg 2))" by (simp add: prog_env_def)
  have w: "written (e_file ?e) (ld_processes (prog_cfg 2)) ?p"
    by (simp add: written_def cfg) (simp add: prog_env_def demo_prog_def valid_ins_def operands_def MAX_PRIO_def)
  have "(\<exists>s0. start_os [''os''] ?e null_memphy (replicate 4 null_memphy) = Inr (Returns (prog_cfg 2, s0)) \<and>
      os_run (?e\<lparr>e_cfg := prog_cfg 2\<rparr>) [] s0) \<and>
    (\<forall>tr s. os_run (?e\<lparr>e_cfg := prog_cfg 2\<rparr>) tr s \<and> (\<forall>i<num_cpus (prog_cfg 2). c_pc (o_cpu s i) = CStopped) \<longrightarrow>
       o_pcbs s = Map.empty \<and>
       (\<exists>fin. replay tr = Some (Map.empty, fin) \<and> mset (map fst fin) = mset [0..<length ?p] \<and>
          (\<forall>(i, xs)\<in>set fin. list_all2 same_ins xs (snd (?p ! i)))))"
    by (rule written_programs_run [OF v _ f w]) (simp_all add: cfg MAX_QUEUE_SIZE_def)
  note t = this [unfolded cfg(1)]
  obtain tr s where r: "os_run ?e tr s" "ended ?e s" using demo_completes by blast
  then have "\<forall>i<num_cpus (prog_cfg 2). c_pc (o_cpu s i) = CStopped" by (simp add: ended_def cfg)
  with t r(1) obtain fin where fin: "replay tr = Some (Map.empty, fin)" "mset (map fst fin) = mset [0..<length ?p]"
      "\<forall>(i, xs)\<in>set fin. list_all2 same_ins xs (snd (?p ! i))" by blast
  have "mset (map fst fin) = {#0#}" using fin(2) by simp
  then have "map fst fin = [0]" by (simp only: mset_single_iff)
  then obtain xs where "fin = [(0, xs)]" by (auto simp: map_eq_Cons_conv)
  with fin t r(1) show ?thesis by auto
qed

end
