(* ===== verification/Virtual.thy ===== *)
theory Virtual imports Isolation begin

text \<open>
  What the memory is for a process: a private space of bytes with its free regions and its symbols (\<open>vspace\<close>), in
  which an instruction is a pure function (\<open>vstep\<close>) that knows nothing of frames, page tables and other
  processes.  The lemmas relate it to the machine: as long as RAM has a frame for every page that is
  asked for, \<open>run\<close> never faults and does to the \<open>vspace_of\<close> a process what \<open>vstep\<close> says.
\<close>

section \<open>The memory a process sees\<close>

record vspace =
  vs_free :: "vm_rg_struct chain"
  vs_sym :: "vm_rg_struct list"
  vs_end :: int
  vs_byte :: "int \<Rightarrow> byte"

definition v_enlist :: "bool \<Rightarrow> vm_rg_struct \<Rightarrow> vm_rg_struct chain \<Rightarrow> vm_rg_struct chain" where
  "v_enlist z rg l = (if rg_end rg \<le> rg_start rg then l else Node rg (if l \<noteq> Null then l else fresh_ptr z))"

text \<open>
  The answer of an instruction and the space after it; \<open>None\<close> when the program asks for what the library
  does not give or cannot survive: no symbol, no byte, more than the bus, a heap that the overlap test refuses,
  an address outside the heap, a system call on memory or processes.
\<close>

definition v_alloc :: "bool \<Rightarrow> int \<Rightarrow> int \<Rightarrow> vspace \<Rightarrow> (int \<times> vspace) option" where
  "v_alloc z sz r v =
    (if sz \<le> 0 \<or> 4194304 < vs_end v + grow sz \<or> r < 0 \<or> 30 \<le> r then None
     else case carve (vs_free v) sz of
       Inl _ \<Rightarrow> None
     | Inr (Some (rg, rest)) \<Rightarrow> Some (0, v\<lparr>vs_free := rest, vs_sym := (vs_sym v)[nat r := rg]\<rparr>)
     | Inr None \<Rightarrow>
         (let e = vs_end v in
          if heap_overlap 0 e (grow sz) < 0 then None
          else Some (0, v\<lparr>vs_free := v_enlist z \<lparr>rg_start = e + sz, rg_end = e + grow sz\<rparr> (vs_free v),
            vs_sym := (vs_sym v)[nat r := \<lparr>rg_start = e, rg_end = e + sz\<rparr>], vs_end := e + grow sz\<rparr>)))"

definition v_release :: "bool \<Rightarrow> int \<Rightarrow> vspace \<Rightarrow> (int \<times> vspace) option" where
  "v_release z r v =
    (if r < 0 \<or> 30 < r then Some (-1, v) else if r = 30 then None
     else Some (0, v\<lparr>vs_free := v_enlist z (vs_sym v ! nat r) (vs_free v)\<rparr>))"

definition v_addr :: "int \<Rightarrow> int \<Rightarrow> vspace \<Rightarrow> int option" where
  "v_addr r off v =
    (if r < 0 \<or> 30 \<le> r then None
     else let a = region_addr (vs_sym v ! nat r) off in if 0 \<le> a \<and> a < vs_end v then Some a else None)"

definition vstep :: "bool \<Rightarrow> inst_t \<Rightarrow> vspace \<Rightarrow> (int \<times> vspace) option" where
  "vstep z ins v =
    (case opcode ins of
       CALC \<Rightarrow> Some (0, v)
     | ALLOC \<Rightarrow> v_alloc z (to_i32 (arg_0 ins)) (to_i32 (arg_1 ins)) v
     | FREE \<Rightarrow> v_release z (to_i32 (arg_0 ins)) v
     | READ \<Rightarrow> map_option (\<lambda>a. (sint (vs_byte v a), v)) (v_addr (to_i32 (arg_0 ins)) (to_i32 (arg_1 ins)) v)
     | WRITE \<Rightarrow> map_option (\<lambda>a. (0, v\<lparr>vs_byte := (vs_byte v)(a := word_of_int (arg_0 ins))\<rparr>))
         (v_addr (to_i32 (arg_1 ins)) (to_i32 (arg_2 ins)) v)
     | SYSCALL \<Rightarrow> if arg_0 ins \<in> {17, 101} then None else Some (if arg_0 ins \<in> {0, 440} then 0 else -1, v))"

fun vexec :: "bool \<Rightarrow> inst_t list \<Rightarrow> vspace \<Rightarrow> vspace option" where
  "vexec z [] v = Some v"
| "vexec z (i # is) v = Option.bind (vstep z i v) (\<lambda>(_, v'). vexec z is v')"

lemma vexec_append: "vexec z (xs @ ys) v = Option.bind (vexec z xs v) (vexec z ys)"
  by (induction xs arbitrary: v) (auto simp: Option.bind_eq_Some_conv split: option.splits bind_splits prod.splits)

text \<open>The heap only grows.\<close>

lemma vstep_end: "vstep z i v = Some (a, v') \<Longrightarrow> vs_end v \<le> vs_end v' \<and> (vs_end v' - vs_end v) mod 256 = 0"
  using grow_bounds [of "to_i32 (arg_0 i)"]
  by (auto simp: vstep_def v_alloc_def v_release_def Let_def split: ins_opcode_t.splits if_splits sum.splits option.splits)

lemma vexec_end: "vexec z is v = Some v' \<Longrightarrow> vs_end v \<le> vs_end v' \<and> (vs_end v' - vs_end v) mod 256 = 0"
proof (induction "is" arbitrary: v)
  case (Cons i "is")
  then obtain a v1 where s: "vstep z i v = Some (a, v1)" "vexec z is v1 = Some v'" by (auto simp: Option.bind_eq_Some_conv)
  from Cons.IH [OF s(2)] vstep_end [OF s(1)]
  show ?case using mod_add_eq [of "vs_end v' - vs_end v1" 256 "vs_end v1 - vs_end v"] by auto
qed simp

section \<open>The space of a process\<close>

definition vspace_of :: "mm_struct \<Rightarrow> (int \<Rightarrow> byte) \<Rightarrow> vspace" where
  "vspace_of m st = \<lparr>vs_free = (case mmap m of Node v _ \<Rightarrow> vm_freerg_list v | _ \<Rightarrow> Null), vs_sym = symrgtbl m,
     vs_end = heap_end m, vs_byte = (\<lambda>a. if 0 \<le> a \<and> a < heap_end m then st (phys m a) else 0)\<rparr>"

text \<open>Every page of the heap is online; and the free frames are empty.\<close>

definition resident :: "mm_struct \<Rightarrow> bool" where
  "resident m \<longleftrightarrow> (\<forall>p. 0 \<le> p \<longrightarrow> p * 256 < heap_end m \<longrightarrow> online m p)"

definition blank_free :: "memphy_struct \<Rightarrow> bool" where
  "blank_free ram \<longleftrightarrow> (\<forall>a. a div 256 \<in> set (free_frames ram) \<longrightarrow> storage ram a = 0)"

lemma vspace_of_simps [simp]:
  "vs_sym (vspace_of m st) = symrgtbl m" "vs_end (vspace_of m st) = heap_end m"
  "mmap m = Node v l \<Longrightarrow> vs_free (vspace_of m st) = vm_freerg_list v"
  "0 \<le> a \<Longrightarrow> a < heap_end m \<Longrightarrow> vs_byte (vspace_of m st) a = st (phys m a)"
  by (simp_all add: vspace_of_def)

lemma vspace_eqI:
  "vs_free v = vs_free w \<Longrightarrow> vs_sym v = vs_sym w \<Longrightarrow> vs_end v = vs_end w \<Longrightarrow> vs_byte v = vs_byte w \<Longrightarrow> v = (w :: vspace)"
  by simp

lemma heap_page:
  assumes "heap_inv m" and "0 \<le> a" and "a < heap_end m"
  shows "PAGING_PGN a = a div 256"
proof -
  from assms(1) have "heap_end m \<le> 4194304" by (rule heap_invE)
  with assms(2,3) have "0 \<le> a div 256" "a div 256 < 16384" using div_less_iff_int [of 256 a 16384] by auto
  then show ?thesis by (simp add: PAGING_PGN_eq)
qed

lemma resident_online: "heap_inv m \<Longrightarrow> resident m \<Longrightarrow> 0 \<le> a \<Longrightarrow> a < heap_end m \<Longrightarrow> online m (PAGING_PGN a)"
proof -
  have "a div 256 * 256 \<le> a" by (simp add: minus_mod_eq_div_mult [symmetric])
  then show "heap_inv m \<Longrightarrow> resident m \<Longrightarrow> 0 \<le> a \<Longrightarrow> a < heap_end m \<Longrightarrow> online m (PAGING_PGN a)"
    using heap_page [of m a] by (auto simp: resident_def)
qed

text \<open>Different bytes of the heap lie at different places.\<close>

lemma phys_inj:
  assumes h: "heap_inv m" "resident m" and f: "frames_inv others hs m ram"
    and a: "0 \<le> a" "a < heap_end m" and b: "0 \<le> b" "b < heap_end m" and eq: "phys m a = phys m b"
  shows "a = b"
proof -
  have p: "phys m x = frame_of m (PAGING_PGN x) * 256 + x mod 256" for x
    by (simp add: phys_def PAGING_PHYADDR_eq PAGING_OFFST_eq)
  have "phys m x div 256 = frame_of m (PAGING_PGN x)" "phys m x mod 256 = x mod 256" for x unfolding p by simp_all
  with eq have e: "frame_of m (PAGING_PGN a) = frame_of m (PAGING_PGN b)" "a mod 256 = b mod 256" by metis+
  have "inj_on (frame_of m) {p. online m p}" using f by (simp add: frames_inv_def)
  with e(1) have "PAGING_PGN a = PAGING_PGN b"
    using resident_online [OF h a] resident_online [OF h b] by (auto dest: inj_onD)
  then have "a div 256 = b div 256" using heap_page [OF h(1) a] heap_page [OF h(1) b] by simp
  with e(2) show ?thesis by (metis div_mult_mod_eq)
qed

text \<open>The space depends only on the frames of the process.\<close>

lemma vspace_of_cong:
  assumes "heap_inv m" and "resident m" and "\<And>a. a div 256 \<in> mapped m \<Longrightarrow> st' a = st a"
  shows "vspace_of m st' = vspace_of m st"
proof -
  have "st' (phys m a) = st (phys m a)" if "0 \<le> a" "a < heap_end m" for a
  proof -
    have "phys m a div 256 = frame_of m (PAGING_PGN a)" by (simp add: phys_def PAGING_PHYADDR_eq PAGING_OFFST_eq)
    then show ?thesis using resident_online [OF assms(1,2) that] assms(3) by (simp add: mapped_def)
  qed
  then show ?thesis by (auto simp: vspace_of_def)
qed

section \<open>Growing with free frames\<close>

lemma chain_onto_prefix: "length gs = length hs \<Longrightarrow> chain_onto gs T = chain_onto hs U \<Longrightarrow> gs = hs"
  by (induction gs hs rule: list_induct2) auto

text \<open>With enough free frames nothing is evicted: the new pages lie on the first free frames, the others stay.\<close>

lemma vm_map_ram_free:
  assumes inv: "ctx_inv others {} c" and n: "0 < n" "n \<le> 16384" "nat n \<le> length (free_frames (v_mram c))"
    and off: "\<forall>i<nat n. \<not> online (v_mm c) (PAGING_PGN (start + int i * 256))"
  shows "\<exists>rg m' ram'. vm_map_ram z a e start n c = Inr (0, rg, c\<lparr>v_mm := m', v_mram := ram'\<rparr>) \<and>
    free_frames ram' = drop (nat n) (free_frames (v_mram c)) \<and> storage ram' = storage (v_mram c) \<and>
    (\<forall>i<nat n. frame_of m' (PAGING_PGN (start + int i * 256)) \<in> set (take (nat n) (free_frames (v_mram c)))) \<and>
    (\<forall>p. (\<forall>i<nat n. p \<noteq> PAGING_PGN (start + int i * 256)) \<longrightarrow> pgd m' p = pgd (v_mm c) p)"
proof -
  let ?fs = "free_frames (v_mram c)" and ?gs = "rev (take (nat n) (free_frames (v_mram c)))"
  have p: "pool_ok (v_mram c)" using inv by (simp add: frames_inv_def ram_inv_def)
  obtain ram' where a: "alloc_pages_loop z (nat n) Null c = Inr (0, chain_onto ?gs (used_fp_list (v_mram c)), c\<lparr>v_mram := ram'\<rparr>)"
    and r: "free_frames ram' = drop (nat n) ?fs" "storage ram' = storage (v_mram c)"
    using alloc_pages_loop_free [OF p n(3), of Null z] n(1) by auto
  have i: "ctx_inv others (set []) c" "frm_inv [] Null c" using inv by (simp_all add: frm_inv_def)
  obtain gs T where g: "length gs = nat n" "distinct gs" "ctx_inv others (set gs) (c\<lparr>v_mram := ram'\<rparr>)"
    "chain_onto ?gs (used_fp_list (v_mram c)) = chain_onto gs T"
    using alloc_pages_loop_inv [OF i(1) _ i(2) a] by auto
  have len: "length ?gs = nat n" using n(3) by simp
  have gs: "gs = ?gs" using chain_onto_prefix [OF _ g(4)] g(1) len by simp
  have inj: "inj_on (\<lambda>i. PAGING_PGN (start + (0 + int i) * 256)) {..<length gs}"
    using pages_inj [of "nat n" start] n(2) g(1) by simp
  have off': "\<And>i. i < length gs \<Longrightarrow> \<not> online (v_mm c) (PAGING_PGN (start + (0 + int i) * 256))" using off g(1) by simp
  have fi: "frames_inv others (set gs) (v_mm c) ram'" using g(3) by simp
  from vmap_loop_inv [OF fi g(2) off' inj, of "used_fp_list (v_mram c)"] obtain m' where
    m': "vmap_loop start 0 (length gs) (chain_onto gs (used_fp_list (v_mram c))) (v_mm c) = Inr m'"
      "\<forall>i<length gs. pgd m' (PAGING_PGN (start + int i * 256)) =
         pte_set_fpn (pgd (v_mm c) (PAGING_PGN (start + int i * 256))) (gs ! i)"
      "\<forall>p. (\<forall>i<length gs. p \<noteq> PAGING_PGN (start + int i * 256)) \<longrightarrow> pgd m' p = pgd (v_mm c) p" by auto
  have "frame_of m' (PAGING_PGN (start + int i * 256)) \<in> set (take (nat n) ?fs)" if "i < nat n" for i
  proof -
    have "gs ! i \<in> set gs" using that g(1) by simp
    moreover from this have "0 \<le> gs ! i" "gs ! i < 8192"
      using g(3) real_frames_small [of ram' "gs ! i"] by (auto simp: frames_inv_def)
    then have "frame_of m' (PAGING_PGN (start + int i * 256)) = gs ! i" using m'(2) that g(1) by (simp add: frame_of_def)
    ultimately show ?thesis unfolding gs by simp
  qed
  moreover have "vm_map_ram z a e start n c = Inr (0, Some \<lparr>rg_start = to_u64 start,
      rg_end = to_u64 (start + (max 0 n - 1) * PAGING_PAGESZ)\<rparr>, c\<lparr>v_mram := ram', v_mm := m'\<rparr>)"
    using a m'(1) g(1,4) gs by (simp add: vm_map_ram_def alloc_pages_range_def vmap_page_range_def)
  moreover have "c\<lparr>v_mram := ram', v_mm := m'\<rparr> = c\<lparr>v_mm := m', v_mram := ram'\<rparr>" by simp
  ultimately show ?thesis using r m'(3) g(1) by metis
qed

text \<open>What holds between a context and the one after an operation that has taken \<open>n\<close> frames.\<close>

definition grown :: "nat \<Rightarrow> vmctx \<Rightarrow> vmctx \<Rightarrow> bool" where
  "grown n c c' \<longleftrightarrow> free_frames (v_mram c') = drop n (free_frames (v_mram c)) \<and>
     (\<forall>a. 0 \<le> a \<longrightarrow> a < heap_end (v_mm c) \<longrightarrow> frame_of (v_mm c') (PAGING_PGN a) = frame_of (v_mm c) (PAGING_PGN a)) \<and>
     (\<forall>a. heap_end (v_mm c) \<le> a \<longrightarrow> a < heap_end (v_mm c') \<longrightarrow>
       frame_of (v_mm c') (PAGING_PGN a) \<in> set (take n (free_frames (v_mram c))))"

lemma inc_vma_limit_free:
  assumes inv: "proc_inv others c" and res: "resident (v_mm c)" and sz: "0 < sz"
    and fits: "heap_end (v_mm c) + grow sz \<le> 4194304" and ok: "0 \<le> heap_overlap 0 (heap_end (v_mm c)) (grow sz)"
    and room: "nat (grow sz div 256) \<le> length (free_frames (v_mram c))"
  shows "\<exists>c1. inc_vma_limit z c 0 sz = Inr (0, c1) \<and> grown (nat (grow sz div 256)) c c1 \<and> resident (v_mm c1)"
proof -
  let ?e = "heap_end (v_mm c)" and ?n = "nat (grow sz div 256)"
  let ?m = "(v_mm c)\<lparr>mmap := moved (v_mm c) (?e + grow sz)\<rparr>"
  have h: "heap_inv (v_mm c)" and ci: "ctx_inv others {} c" using inv by (simp_all add: proc_inv_def)
  from h obtain v where v: "0 \<le> ?e" "?e mod 256 = 0" "\<forall>p. online (v_mm c) p \<longrightarrow> p * 256 < ?e" by (rule heap_invE)
  note np = new_page [OF v(1,2) fits]
  have g0: "0 < grow sz div 256" using sz zdiv_mono1 [of 256 "sz + 255" 256] by (simp add: grow_pages)
  have g1: "grow sz div 256 \<le> 16384" using fits v(1) zdiv_mono1 [of "grow sz" 4194304 256] by simp
  have off: "\<forall>i<?n. \<not> online (v_mm c) (PAGING_PGN (?e + int i * 256))" using np(2) v(3) by fastforce
  obtain rg m' ram' where m: "vm_map_ram z ?e (?e + grow sz) ?e (grow sz div 256) (c\<lparr>v_mm := ?m\<rparr>) = Inr (0, rg, c\<lparr>v_mm := m', v_mram := ram'\<rparr>)"
    "free_frames ram' = drop ?n (free_frames (v_mram c))"
    "\<forall>i<?n. frame_of m' (PAGING_PGN (?e + int i * 256)) \<in> set (take ?n (free_frames (v_mram c)))"
    "\<forall>p. (\<forall>i<?n. p \<noteq> PAGING_PGN (?e + int i * 256)) \<longrightarrow> pgd m' p = pgd (v_mm c) p"
    using vm_map_ram_free [of others "c\<lparr>v_mm := ?m\<rparr>" "grow sz div 256" ?e z ?e "?e + grow sz"] ci g0 g1 room off by auto
  let ?c1 = "c\<lparr>v_mm := m', v_mram := ram'\<rparr>"
  have i: "inc_vma_limit z c 0 sz = Inr (0, ?c1)"
    using inc_vma_limit_heap [OF inv _ _ fits, of 0 z] sz ok m(1) by (simp add: moved_def [symmetric] Let_def)
  from inc_vma_limit_inv [OF inv _ _ fits, of 0 z] sz i have
    e': "heap_end m' = ?e + grow sz" "\<forall>p. ?e \<le> p * 256 \<and> p * 256 < heap_end m' \<longrightarrow> online m' p"
    by (auto split: if_splits)
  have old: "pgd m' p = pgd (v_mm c) p" if "p * 256 < ?e" for p
    using m(4) np(2) that by (metis leD)
  have "frame_of m' (PAGING_PGN a) = frame_of (v_mm c) (PAGING_PGN a)" if "0 \<le> a" "a < ?e" for a
  proof -
    have "a div 256 * 256 \<le> a" by (simp add: minus_mod_eq_div_mult [symmetric])
    then show ?thesis using old [of "PAGING_PGN a"] heap_page [OF h that] that(2) by (simp add: frame_of_def)
  qed
  moreover have "frame_of m' (PAGING_PGN a) \<in> set (take ?n (free_frames (v_mram c)))" if a: "?e \<le> a" "a < ?e + grow sz" for a
  proof -
    have d: "?e div 256 * 256 = ?e" "grow sz div 256 * 256 = grow sz" using v(2) by (auto simp: grow_def)
    define i where "i = nat (a div 256 - ?e div 256)"
    have "?e div 256 \<le> a div 256" using a(1) by (intro zdiv_mono1) auto
    moreover have "a div 256 < ?e div 256 + grow sz div 256" using a(2) d by (intro div_less_iff_int [THEN iffD2]) (auto simp: algebra_simps)
    ultimately have "i < ?n" "?e div 256 + int i = a div 256" by (simp_all add: i_def)
    moreover have "PAGING_PGN a = a div 256" using a v(1) fits div_less_iff_int [of 256 a 16384] by (simp add: PAGING_PGN_eq)
    ultimately show ?thesis using m(3) np(1) by metis
  qed
  moreover have "online m' p" if "0 \<le> p" "p * 256 < ?e + grow sz" for p
  proof (cases "p * 256 < ?e")
    case True
    with that(1) res old [OF True] show ?thesis by (simp add: resident_def online_def)
  next
    case False
    with that(2) e' show ?thesis by simp
  qed
  ultimately show ?thesis using i m(2) e'(1) by (simp add: grown_def resident_def)
qed

section \<open>The memory library refines the space\<close>

definition tidy :: "int set \<Rightarrow> vmctx \<Rightarrow> bool" where
  "tidy others c \<longleftrightarrow> proc_inv others c \<and> resident (v_mm c) \<and> blank_free (v_mram c)"

definition space :: "vmctx \<Rightarrow> vspace" where
  "space c = vspace_of (v_mm c) (storage (v_mram c))"

definition frames_left :: "memphy_struct \<Rightarrow> int" where
  "frames_left ram = int (length (free_frames ram))"

lemma phys_frame: "phys m a = frame_of m (PAGING_PGN a) * 256 + a mod 256"
  by (simp add: phys_def PAGING_PHYADDR_eq PAGING_OFFST_eq)

lemma phys_div: "phys m a div 256 = frame_of m (PAGING_PGN a)"
  by (simp add: phys_frame)

lemma frame_of_cong: "pgd m' = pgd m \<Longrightarrow> frame_of m' = frame_of m"
  by (simp add: frame_of_def fun_eq_iff)

lemma grown_bytes:
  assumes t: "blank_free (v_mram c)" and g: "grown n c c'" and e: "0 \<le> heap_end (v_mm c)" "heap_end (v_mm c) \<le> heap_end (v_mm c')"
    and s: "storage (v_mram c') = storage (v_mram c)"
  shows "vs_byte (space c') = vs_byte (space c)" and "blank_free (v_mram c')"
proof -
  have f: "free_frames (v_mram c') = drop n (free_frames (v_mram c))" using g by (simp add: grown_def)
  have "vs_byte (space c') a = vs_byte (space c) a" for a
  proof -
    consider "0 \<le> a" "a < heap_end (v_mm c)" | "heap_end (v_mm c) \<le> a" "a < heap_end (v_mm c')"
      | "a < 0 \<or> heap_end (v_mm c') \<le> a" by linarith
    then show ?thesis
    proof cases
      case 1
      then have "phys (v_mm c') a = phys (v_mm c) a" using g by (simp add: grown_def phys_frame)
      with 1 e(2) s show ?thesis by (simp add: space_def vspace_of_def)
    next
      case 2
      then have "frame_of (v_mm c') (PAGING_PGN a) \<in> set (take n (free_frames (v_mram c)))" using g by (simp add: grown_def)
      then have "storage (v_mram c) (phys (v_mm c') a) = 0"
        using t phys_div [of "v_mm c'" a] set_take_subset [of n "free_frames (v_mram c)"] by (auto simp: blank_free_def)
      with 2 e(1) s show ?thesis by (simp add: space_def vspace_of_def)
    next
      case 3
      with e(2) show ?thesis by (auto simp: space_def vspace_of_def)
    qed
  qed
  then show "vs_byte (space c') = vs_byte (space c)" by blast
  show "blank_free (v_mram c')" using t s f set_drop_subset [of n "free_frames (v_mram c)"] by (auto simp: blank_free_def)
qed

lemma tidyD:
  assumes "tidy others c"
  obtains v where "proc_inv others c" "resident (v_mm c)" "blank_free (v_mram c)" "heap_inv (v_mm c)"
    "mmap (v_mm c) = Node v Null" "0 \<le> heap_end (v_mm c)" "length (symrgtbl (v_mm c)) = 30" "vs_free (space c) = vm_freerg_list v"
    "vm_end v = heap_end (v_mm c)" "vs_sym (space c) = symrgtbl (v_mm c)" "vs_end (space c) = heap_end (v_mm c)"
    "ctx_inv others {} c"
proof -
  from assms have i: "proc_inv others c" "resident (v_mm c)" "blank_free (v_mram c)" by (simp_all add: tidy_def)
  then have h: "heap_inv (v_mm c)" "ctx_inv others {} c" by (simp_all add: proc_inv_def)
  from h(1) obtain v where v: "mmap (v_mm c) = Node v Null" "vm_end v = heap_end (v_mm c)" "0 \<le> heap_end (v_mm c)" "length (symrgtbl (v_mm c)) = 30"
    by (rule heap_invE)
  show thesis by (rule that [of v]) (use i h v in \<open>simp_all add: space_def\<close>)
qed

lemma alloc_refines:
  assumes t: "tidy others c" and a: "v_alloc z sz r (space c) = Some (st, w)"
    and room: "vs_end w \<le> heap_end (v_mm c) + 256 * frames_left (v_mram c)"
  shows "\<exists>addr c'. alloc_rg z c 0 r sz = Inr (st, addr, c') \<and> tidy others c' \<and> space c' = w \<and>
    256 * frames_left (v_mram c') + vs_end w = 256 * frames_left (v_mram c) + heap_end (v_mm c)"
  using t
proof (rule tidyD)
  fix v
  let ?m = "v_mm c" and ?e = "heap_end (v_mm c)" and ?fs = "free_frames (v_mram c)"
  assume i: "proc_inv others c" "resident ?m" "blank_free (v_mram c)" "heap_inv ?m" "mmap ?m = Node v Null" "0 \<le> ?e"
    and s: "length (symrgtbl ?m) = 30" "vs_free (space c) = vm_freerg_list v" "vm_end v = ?e"
      "vs_sym (space c) = symrgtbl ?m" "vs_end (space c) = ?e"
  from a s have ok: "0 < sz" "?e + grow sz \<le> 4194304" "0 \<le> r" "r < 30" by (auto simp: v_alloc_def split: if_splits)
  show ?thesis
  proof (cases "carve (vm_freerg_list v) sz")
    case (Inl x)
    with a s ok show ?thesis by (simp add: v_alloc_def)
  next
    case (Inr cr)
    show ?thesis
    proof (cases cr)
      case (Some q)
      obtain rg rest where q: "q = (rg, rest)" by (cases q)
      let ?m' = "?m\<lparr>mmap := Node (v\<lparr>vm_freerg_list := rest\<rparr>) Null, symrgtbl := (symrgtbl ?m)[nat r := rg]\<rparr>"
      let ?c' = "c\<lparr>v_mm := ?m'\<rparr>"
      have al: "alloc_rg z c 0 r sz = Inr (0, Some (to_i32 (rg_start rg)), ?c')"
        using Inr Some q ok s(1) by (simp add: alloc_rg_def get_free_vmrg_area_heap [OF i(4,5)] store_symrg_def)
      have w: "st = 0" "w = (space c)\<lparr>vs_free := rest, vs_sym := (symrgtbl ?m)[nat r := rg]\<rparr>"
        using a s ok Inr Some q by (simp_all add: v_alloc_def)
      have e: "heap_end ?m' = ?e" using s(3) by (simp add: heap_end_def i(5))
      have g: "grown 0 c ?c'" using e by (simp add: grown_def frame_of_cong [of ?m' ?m])
      have res: "resident ?m'" using i(2) e by (simp add: resident_def)
      have inv: "proc_inv others ?c'" using alloc_rg_any [OF i(1) ok(1,2) al] by simp
      have "space ?c' = w" unfolding w(2)
        by (rule vspace_eqI) (use grown_bytes(1) [OF i(3) g i(6)] e s in \<open>simp_all add: space_def vspace_of_def\<close>)
      with al w(1) res inv i(3) e s(5) w(2) show ?thesis by (auto simp: tidy_def)
    next
      case None
      let ?n = "nat (grow sz div 256)"
      have no: "carve (vm_freerg_list v) sz = Inr None" using Inr None by simp
      have ov: "0 \<le> heap_overlap 0 ?e (grow sz)" and w: "st = 0" "w = (space c)\<lparr>vs_free :=
          v_enlist z \<lparr>rg_start = ?e + sz, rg_end = ?e + grow sz\<rparr> (vm_freerg_list v),
          vs_sym := (symrgtbl ?m)[nat r := \<lparr>rg_start = ?e, rg_end = ?e + sz\<rparr>], vs_end := ?e + grow sz\<rparr>"
        using a s ok no by (auto simp: v_alloc_def Let_def split: if_splits)
      have g0: "0 < grow sz" "grow sz div 256 * 256 = grow sz" using ok(1) grow_bounds [of sz] by (auto simp: grow_def)
      have rm: "?n \<le> length ?fs" using room w(2) g0 by (simp add: frames_left_def)
      obtain c1 where c1: "inc_vma_limit z c 0 sz = Inr (0, c1)" "grown ?n c c1" "resident (v_mm c1)"
        using inc_vma_limit_free [OF i(1,2) ok(1,2) ov rm] by blast
      from inc_vma_limit_inv [OF i(1) _ _ ok(2), of 0 z] c1(1) ok(1) have st: "storage (v_mram c1) = storage (v_mram c)"
        and e1: "heap_end (v_mm c1) = ?e + grow sz" by (auto split: if_splits)
      obtain m' where m': "alloc_rg z c 0 r sz = Inr (0, Some ?e, c1\<lparr>v_mm := m'\<rparr>)" "proc_inv others (c1\<lparr>v_mm := m'\<rparr>)"
          "pgd m' = pgd (v_mm c1)" "symrgtbl m' = (symrgtbl ?m)[nat r := \<lparr>rg_start = ?e, rg_end = ?e + sz\<rparr>]"
          "mmap m' = (if heap_overlap 0 ?e (grow sz) < 0 then Node v Null
            else Node (v\<lparr>sbrk := ?e + grow sz, vm_end := ?e + grow sz,
              vm_freerg_list := (if sz < grow sz
                then Node \<lparr>rg_start = ?e + sz, rg_end = ?e + grow sz\<rparr>
                  (if vm_freerg_list v \<noteq> Null then vm_freerg_list v else fresh_ptr z)
                else vm_freerg_list v)\<rparr>) Null)"
        using alloc_rg_extends [OF i(1,5) no ok(3,4,1,2) c1(1)] by blast
      let ?c' = "c1\<lparr>v_mm := m'\<rparr>"
      have mm': "mmap m' = Node (v\<lparr>sbrk := ?e + grow sz, vm_end := ?e + grow sz,
          vm_freerg_list := v_enlist z \<lparr>rg_start = ?e + sz, rg_end = ?e + grow sz\<rparr> (vm_freerg_list v)\<rparr>) Null"
        using m'(5) ov by (simp add: v_enlist_def)
      then have e: "heap_end m' = ?e + grow sz" by (simp add: heap_end_def)
      have g: "grown ?n c ?c'" using c1(2) e e1 by (simp add: grown_def frame_of_cong [OF m'(3)])
      have res: "resident m'" using c1(3) e e1 online_pgd [OF m'(3)] by (simp add: resident_def)
      note gb = grown_bytes [OF i(3) g i(6)]
      have "space ?c' = w" unfolding w(2)
        by (rule vspace_eqI) (use gb(1) e g0 st m'(4) mm' in \<open>simp_all add: space_def vspace_of_def\<close>)
      moreover have "256 * frames_left (v_mram ?c') + vs_end w = 256 * frames_left (v_mram c) + ?e"
        using c1(2) rm g0 w(2) by (simp add: grown_def frames_left_def of_nat_diff algebra_simps)
      moreover have "tidy others ?c'" using m'(2) res gb(2) e g0 st by (simp add: tidy_def)
      ultimately show ?thesis using m'(1) w(1) by blast
    qed
  qed
qed

lemma release_refines:
  assumes t: "tidy others c" and f: "v_release z r (space c) = Some (st, w)"
  shows "\<exists>c'. free_rg z c 0 r = Inr (st, c') \<and> tidy others c' \<and> space c' = w \<and> v_mram c' = v_mram c \<and> vs_end w = heap_end (v_mm c)"
  using t
proof (rule tidyD)
  fix v
  let ?m = "v_mm c"
  assume i: "proc_inv others c" "resident ?m" "blank_free (v_mram c)" "mmap ?m = Node v Null" "0 \<le> heap_end ?m"
    and s: "length (symrgtbl ?m) = 30" "vs_free (space c) = vm_freerg_list v" "vm_end v = heap_end ?m"
      "vs_sym (space c) = symrgtbl ?m" "vs_end (space c) = heap_end ?m"
  show ?thesis
  proof (cases "r < 0 \<or> 30 < r")
    case True
    with f s t show ?thesis by (auto simp: v_release_def free_rg_def PAGING_MAX_SYMTBL_SZ_def)
  next
    case False
    with f have r: "0 \<le> r" "r < 30" by (auto simp: v_release_def split: if_splits)
    let ?rg = "symrgtbl ?m ! nat r"
    let ?m' = "?m\<lparr>mmap := Node (v\<lparr>vm_freerg_list := v_enlist z ?rg (vm_freerg_list v)\<rparr>) Null\<rparr>"
    let ?c' = "c\<lparr>v_mm := ?m'\<rparr>"
    have "v\<lparr>vm_freerg_list := vm_freerg_list v\<rparr> = v" by simp
    then have m: "?m\<lparr>mmap := Node (v\<lparr>vm_freerg_list := vm_freerg_list v\<rparr>) Null\<rparr> = ?m" using i(4) by simp
    have fr: "free_rg z c 0 r = Inr (0, ?c')"
      using r s(1) i(4) m by (auto simp: free_rg_def PAGING_MAX_SYMTBL_SZ_def load_symrg_def enlist_vm_freerg_list_def v_enlist_def Let_def)
    have e: "heap_end ?m' = heap_end ?m" using s(3) by (simp add: heap_end_def i(4))
    have g: "grown 0 c ?c'" using e by (simp add: grown_def frame_of_cong [of ?m' ?m])
    have w: "st = 0" "w = (space c)\<lparr>vs_free := v_enlist z ?rg (vm_freerg_list v)\<rparr>" using f r s by (simp_all add: v_release_def)
    have "space ?c' = w" unfolding w(2)
      by (rule vspace_eqI) (use grown_bytes(1) [OF i(3) g i(5)] e in \<open>simp_all add: space_def vspace_of_def\<close>)
    moreover have "tidy others ?c'" using free_rg_any [OF i(1) fr] i(2,3) e by (simp add: tidy_def resident_def)
    ultimately show ?thesis using fr w s(5) by simp
  qed
qed

lemma v_addrD:
  assumes t: "tidy others c" and a: "v_addr r off (space c) = Some x"
  shows "0 \<le> r" "r < 30" "x = region_addr (symrgtbl (v_mm c) ! nat r) off" "0 \<le> x" "x < heap_end (v_mm c)"
    "online (v_mm c) (PAGING_PGN x)"
proof -
  show *: "0 \<le> r" "r < 30" "x = region_addr (symrgtbl (v_mm c) ! nat r) off" "0 \<le> x" "x < heap_end (v_mm c)"
    using a by (auto simp: v_addr_def space_def Let_def split: if_splits)
  show "online (v_mm c) (PAGING_PGN x)" using t *(4,5) by (auto intro: resident_online elim: tidyD)
qed

lemma read_refines:
  assumes t: "tidy others c" and a: "v_addr r off (space c) = Some x"
  shows "read_rg z c 0 r off = Inr (sint (vs_byte (space c) x), Some (vs_byte (space c) x), c)"
proof -
  note d = v_addrD [OF t a]
  have "proc_inv others c" using t by (simp add: tidy_def)
  from write_read_rg_online(2) [OF this d(1,2), of off z] d show ?thesis by (simp add: space_def Let_def)
qed

lemma write_refines:
  assumes t: "tidy others c" and a: "v_addr r off (space c) = Some x"
  shows "\<exists>c'. write_rg z c 0 r off d = Inr (0, c') \<and> tidy others c' \<and>
    space c' = (space c)\<lparr>vs_byte := (vs_byte (space c))(x := d)\<rparr> \<and> free_frames (v_mram c') = free_frames (v_mram c)"
proof -
  note v = v_addrD [OF t a]
  from t have i: "proc_inv others c" "resident (v_mm c)" "blank_free (v_mram c)" "heap_inv (v_mm c)" "ctx_inv others {} c"
    by (rule tidyD, blast)+
  let ?p = "phys (v_mm c) x"
  let ?c' = "c\<lparr>v_mram := (v_mram c)\<lparr>storage := (storage (v_mram c))(?p := d)\<rparr>\<rparr>"
  have wr: "write_rg z c 0 r off d = Inr (0, ?c')"
    using write_read_rg_online(1) [OF i(1) v(1,2), of off z d] v by simp
  have free: "free_frames (v_mram ?c') = free_frames (v_mram c)" by (simp add: free_frames_def)
  have "phys (v_mm c) y = ?p \<longleftrightarrow> y = x" if "0 \<le> y" "y < heap_end (v_mm c)" for y
    using phys_inj [OF i(4,2,5) that v(4,5)] by blast
  then have "space ?c' = (space c)\<lparr>vs_byte := (vs_byte (space c))(x := d)\<rparr>"
    using v(4,5) by (intro vspace_eqI) (auto simp: space_def vspace_of_def)
  moreover have "?p div 256 \<notin> set (free_frames (v_mram c))"
    using v(6) i(5) by (auto simp: phys_div frames_inv_def mapped_def)
  then have "blank_free (v_mram ?c')" using i(3) free by (auto simp: blank_free_def)
  ultimately show ?thesis using wr free proc_inv_store [OF i(1)] i(2) by (auto simp: tidy_def)
qed

lemma report_total: "heap_inv (v_mm c) \<Longrightarrow> \<exists>out. report w c = Inr out"
  using get_vma_by_num_heap [of "v_mm c" 0] by (auto simp: report_def print_pgtbl_def elim!: heap_invE)

text \<open>An instruction of a process.\<close>

lemma exec_refines:
  assumes p: "k_pcbs k p = Some b" "mm b = Some m" and t: "tidy others (ctx_of k b m)"
    and v: "vstep z ins (space (ctx_of k b m)) = Some (st, w)"
    and room: "vs_end w \<le> heap_end m + 256 * frames_left (k_mram k)"
  shows "\<exists>out c. exec_ins z p ins k = Inr (st, out, put_ctx k p b c) \<and> tidy others c \<and> space c = w \<and>
    256 * frames_left (v_mram c) + vs_end w = 256 * frames_left (k_mram k) + heap_end m"
proof -
  let ?c = "ctx_of k b m"
  have cm: "v_mm ?c = m" "v_mram ?c = k_mram k" by (simp_all add: ctx_of_def)
  have same: "put_ctx k p b ?c = k"
  proof -
    have "(k_pcbs k)(p \<mapsto> b\<lparr>mm := Some m\<rparr>) = k_pcbs k" using p by (auto simp: fun_eq_iff)
    then show ?thesis by (simp add: put_ctx_def ctx_of_def)
  qed
  note live = with_ctx_live [OF p]
  have rep: "\<exists>out. report q c = Inr out" if "tidy others c" for q c using that report_total by (blast elim: tidyD)
  have e: "vs_end (space ?c) = heap_end m" by (simp add: space_def cm)
  show ?thesis
  proof (cases "opcode ins")
    case CALC
    with v t e same show ?thesis by (auto simp: vstep_def exec_ins_def calc_def cm intro!: exI [of _ ?c])
  next
    case ALLOC
    with v room alloc_refines [OF t, of z "to_i32 (arg_0 ins)" "to_i32 (arg_1 ins)" st w] cm obtain addr c' where
      c': "alloc_rg z ?c 0 (to_i32 (arg_1 ins)) (to_i32 (arg_0 ins)) = Inr (st, addr, c')" "tidy others c'" "space c' = w"
        "256 * frames_left (v_mram c') + vs_end w = 256 * frames_left (k_mram k) + heap_end m"
      by (auto simp: vstep_def)
    obtain lg where "report False c' = Inr lg" using rep [OF c'(2)] by blast
    with c'(1) ALLOC have "exec_ins z p ins k = Inr (st, MemOut lg, put_ctx k p b c')"
      by (simp add: exec_ins_def live liballoc_def)
    with c' show ?thesis by blast
  next
    case FREE
    with v release_refines [OF t, of z "to_i32 (arg_0 ins)" st w] cm obtain c' where
      c': "free_rg z ?c 0 (to_i32 (arg_0 ins)) = Inr (st, c')" "tidy others c'" "space c' = w" "v_mram c' = k_mram k" "vs_end w = heap_end m"
      by (auto simp: vstep_def)
    obtain lg where "report False c' = Inr lg" using rep [OF c'(2)] by blast
    with c'(1) FREE have "exec_ins z p ins k = Inr (st, MemOut lg, put_ctx k p b c')"
      by (simp add: exec_ins_def live libfree_def)
    moreover have "256 * frames_left (v_mram c') + vs_end w = 256 * frames_left (k_mram k) + heap_end m" using c'(4,5) by simp
    ultimately show ?thesis using c'(2,3) by blast
  next
    case READ
    with v obtain x where x: "v_addr (to_i32 (arg_0 ins)) (to_i32 (arg_1 ins)) (space ?c) = Some x"
        "st = sint (vs_byte (space ?c) x)" "w = space ?c" by (auto simp: vstep_def)
    obtain lg where "report True ?c = Inr lg" using rep [OF t] by blast
    with read_refines [OF t x(1), of z] x(2) READ have "exec_ins z p ins k = Inr (st, MemOut lg, put_ctx k p b ?c)"
      by (simp add: exec_ins_def live libread_def)
    moreover have "256 * frames_left (v_mram ?c) + vs_end w = 256 * frames_left (k_mram k) + heap_end m" using x(3) e cm by simp
    ultimately show ?thesis using t x(3) by blast
  next
    case WRITE
    with v obtain x where x: "v_addr (to_i32 (arg_1 ins)) (to_i32 (arg_2 ins)) (space ?c) = Some x"
        "st = 0" "w = (space ?c)\<lparr>vs_byte := (vs_byte (space ?c))(x := word_of_int (arg_0 ins))\<rparr>" by (auto simp: vstep_def)
    from write_refines [OF t x(1), of z "word_of_int (arg_0 ins)"] obtain c' where
      c': "write_rg z ?c 0 (to_i32 (arg_1 ins)) (to_i32 (arg_2 ins)) (word_of_int (arg_0 ins)) = Inr (0, c')"
        "tidy others c'" "space c' = w" "free_frames (v_mram c') = free_frames (k_mram k)" using x(3) cm by auto
    obtain lg where "report True c' = Inr lg" using rep [OF c'(2)] by blast
    with c'(1) x(2) WRITE have "exec_ins z p ins k = Inr (st, MemOut lg, put_ctx k p b c')"
      by (simp add: exec_ins_def live libwrite_def)
    moreover have "256 * frames_left (v_mram c') + vs_end w = 256 * frames_left (k_mram k) + heap_end m"
      using x(3) e c'(4) by (simp add: frames_left_def)
    ultimately show ?thesis using c'(2,3) by blast
  next
    case SYSCALL
    with v have n: "arg_0 ins \<noteq> 17" "arg_0 ins \<noteq> 101" "st = (if arg_0 ins \<in> {0, 440} then 0 else -1)" "w = space ?c"
      by (auto simp: vstep_def split: if_splits)
    with SYSCALL t e same cm show ?thesis
      by (auto simp: exec_ins_def libsyscall_def syscall_def sys_listsyscall_def sys_xxxhandler_def sys_ni_syscall_def intro!: exI [of _ ?c])
  qed
qed

lemma vstep_cautious:
  assumes "tidy others (ctx_of k b m)" and "mm b = Some m" and "vstep z (next_ins b) (space (ctx_of k b m)) \<noteq> None"
  shows "cautious k b"
proof -
  obtain st w where v: "vstep z (next_ins b) (space (ctx_of k b m)) = Some (st, w)" using assms(3) by auto
  have e: "vs_end (space (ctx_of k b m)) = heap_end (v_mm (ctx_of k b m))" by (simp add: space_def)
  have on: "access_online (ctx_of k b m) r off" if "v_addr r off (space (ctx_of k b m)) = Some x" for r off x
    using v_addrD [OF assms(1) that] by (simp add: access_online_def)
  have "safe_ins (ctx_of k b m) (next_ins b)"
    using v e on by (cases "opcode (next_ins b)")
      (auto simp: vstep_def safe_ins_def v_alloc_def Let_def split: if_splits)
  with assms(2) show ?thesis by (simp add: cautious_def)
qed

text \<open>Other processes see the same bytes as long as their frames are not touched.\<close>

lemma vspace_others:
  assumes inv: "kernel_inv k" and q: "k_pcbs k q = Some b" "mm b = Some m" "resident m" "q \<noteq> p"
    and st: "\<forall>a. a div 256 \<in> others_of (k_pcbs k) p \<longrightarrow> st' a = storage (k_mram k) a"
  shows "vspace_of m st' = vspace_of m (storage (k_mram k))"
proof (rule vspace_of_cong)
  show "heap_inv m" using kernel_invD [OF inv q(1,2)] by (simp add: proc_inv_def ctx_of_def)
  show "st' a = storage (k_mram k) a" if "a div 256 \<in> mapped m" for a
  proof -
    have "mapped m = pmapped (k_pcbs k) q" using q(1,2) by (simp add: pmapped_def)
    then have "mapped m \<subseteq> others_of (k_pcbs k) p" using q(4) by (auto simp: others_of_def)
    with that st show ?thesis by blast
  qed
qed (rule q(3))

lemma run_vstep:
  assumes inv: "mem_inv k" and p: "k_pcbs k p = Some b" "mm b = Some m" and res: "resident m" and blank: "blank_free (k_mram k)"
    and pc: "pc b < c_size (code b)" "pc b < length (c_text (code b))"
    and v: "vstep z (next_ins b) (vspace_of m (storage (k_mram k))) = Some (st, w)"
    and room: "vs_end w \<le> heap_end m + 256 * frames_left (k_mram k)"
  shows "\<exists>out k' m'. run z p k = Inr (st, out, k') \<and> mem_inv k' \<and>
    k_pcbs k' = (k_pcbs k)(p \<mapsto> b\<lparr>pc := pc b + 1, mm := Some m'\<rparr>) \<and>
    vspace_of m' (storage (k_mram k')) = w \<and> resident m' \<and> blank_free (k_mram k') \<and>
    256 * frames_left (k_mram k') + vs_end w = 256 * frames_left (k_mram k) + heap_end m \<and>
    (\<forall>q b' n. q \<noteq> p \<longrightarrow> k_pcbs k q = Some b' \<longrightarrow> mm b' = Some n \<longrightarrow> resident n \<longrightarrow>
       vspace_of n (storage (k_mram k')) = vspace_of n (storage (k_mram k)))"
proof -
  have ki: "kernel_inv k" using inv by (simp add: mem_inv_def)
  let ?O = "others_of (k_pcbs k) p" and ?b = "b\<lparr>pc := pc b + 1\<rparr>"
  let ?k = "k\<lparr>k_pcbs := (k_pcbs k)(p \<mapsto> ?b)\<rparr>"
  have cx: "ctx_of ?k ?b m = ctx_of k b m" by (simp add: ctx_of_def)
  have t: "tidy ?O (ctx_of k b m)" using kernel_invD [OF ki p] res blank by (simp add: tidy_def ctx_of_def)
  have v': "vstep z (next_ins b) (space (ctx_of ?k ?b m)) = Some (st, w)" using v by (simp add: space_def ctx_of_def)
  have p': "k_pcbs ?k p = Some ?b" "mm ?b = Some m" using p by simp_all
  have t': "tidy ?O (ctx_of ?k ?b m)" using t by (simp only: cx)
  have room': "vs_end w \<le> heap_end m + 256 * frames_left (k_mram ?k)" using room by simp
  from exec_refines [OF p' t' v' room'] obtain out c where
    e: "exec_ins z p (next_ins b) ?k = Inr (st, out, put_ctx ?k p ?b c)" and c: "tidy ?O c" "space c = w"
      "256 * frames_left (v_mram c) + vs_end w = 256 * frames_left (k_mram k) + heap_end m" by auto
  let ?k' = "put_ctx ?k p ?b c"
  have r: "run z p k = Inr (st, out, ?k')" using e p pc by (simp add: run_def deref_Some next_ins_def)
  have "vstep z (next_ins b) (space (ctx_of k b m)) \<noteq> None" using v by (simp add: space_def ctx_of_def)
  from run_mem_inv [OF inv p(1) vstep_cautious [OF t p(2) this] r]
  have m': "mem_inv ?k'" "\<forall>a. a div 256 \<in> ?O \<longrightarrow> storage (k_mram ?k') a = storage (k_mram k) a" by blast+
  have others: "vspace_of n (storage (k_mram ?k')) = vspace_of n (storage (k_mram k))"
    if "q \<noteq> p" "k_pcbs k q = Some b'" "mm b' = Some n" "resident n" for q b' n
    using vspace_others [OF ki that(2,3,4,1) m'(2)] .
  have pcbs: "k_pcbs ?k' = (k_pcbs k)(p \<mapsto> b\<lparr>pc := pc b + 1, mm := Some (v_mm c)\<rparr>)" "k_mram ?k' = v_mram c"
    by (simp_all add: put_ctx_def)
  have sp: "vspace_of (v_mm c) (storage (k_mram ?k')) = w" using c(2) pcbs(2) by (simp add: space_def)
  have rb: "resident (v_mm c)" "blank_free (k_mram ?k')" using c(1) pcbs(2) by (simp_all add: tidy_def)
  have fl: "256 * frames_left (k_mram ?k') + vs_end w = 256 * frames_left (k_mram k) + heap_end m" using c(3) pcbs(2) by simp
  show ?thesis
    by (rule exI [of _ out], rule exI [of _ ?k'], rule exI [of _ "v_mm c"]) (use r m'(1) pcbs(1) sp rb fl others in blast)
qed

section \<open>Properties\<close>

text \<open>C5: Virtual memory: an instruction of a process whose heap is online does, when RAM has the frames it asks for, exactly what the
  pure function \<open>vstep\<close> does on the private space of the process: it returns its answer (the byte read,
  sign extended), leaves the space that \<open>vstep\<close> gives, takes one frame per new page, and changes the space of no other process.
  So frames, page table entries and other processes cannot be observed.\<close>

theorem run_refines_virtual_memory:
  assumes "mem_inv k" and "k_pcbs k p = Some b" and "mm b = Some m" and "resident m" and "blank_free (k_mram k)"
    and "pc b < c_size (code b)" and "pc b < length (c_text (code b))"
    and "vstep z (next_ins b) (vspace_of m (storage (k_mram k))) = Some (st, w)"
    and "vs_end w \<le> heap_end m + 256 * frames_left (k_mram k)"
  shows "\<exists>out k' m'. run z p k = Inr (st, out, k') \<and>
    k_pcbs k' = (k_pcbs k)(p \<mapsto> b\<lparr>pc := pc b + 1, mm := Some m'\<rparr>) \<and>
    vspace_of m' (storage (k_mram k')) = w \<and> resident m' \<and> blank_free (k_mram k') \<and>
    256 * frames_left (k_mram k') + vs_end w = 256 * frames_left (k_mram k) + heap_end m \<and>
    (\<forall>q b' n. q \<noteq> p \<longrightarrow> k_pcbs k q = Some b' \<longrightarrow> mm b' = Some n \<longrightarrow> resident n \<longrightarrow>
       vspace_of n (storage (k_mram k')) = vspace_of n (storage (k_mram k)))"
  using run_vstep [OF assms] by blast

text \<open>Process 7 of the two demonstration processes writes 100 to address 20 of its space; process 5 sees nothing.\<close>

theorem run_refines_virtual_memory_witness:
  "\<exists>out k' b' m'. run False 7 demo = Inr (0, out, k') \<and> k_pcbs k' 7 = Some b' \<and> mm b' = Some m' \<and>
     vs_byte (vspace_of m' (storage (k_mram k'))) 20 = 100 \<and>
     (\<forall>n. mm (demo_pcb 3) = Some n \<longrightarrow> vspace_of n (storage (k_mram k')) = vspace_of n (storage (k_mram demo)))"
proof -
  let ?m = "\<lambda>f. (v_mm page_ctx)\<lparr>pgd := (\<lambda>_. 0)(0 := pte_set_fpn 0 f)\<rparr>"
  let ?v = "vspace_of (?m 2) (storage (k_mram demo))"
  have p: "k_pcbs demo 7 = Some (demo_pcb 2)" "mm (demo_pcb f) = Some (?m f)" "k_pcbs demo 5 = Some (demo_pcb 3)" for f
    by (simp_all add: demo_def demo_pcb_def)
  have inv: "mem_inv demo" using demo_inv proc_inv_dev [OF kernel_invD [OF demo_inv p(1,2)]] by (simp add: mem_inv_def)
  have e: "heap_end (?m f) = 256" for f by (simp add: heap_end_def page_ctx_def)
  have res: "resident (?m f)" for f using one_page_online [of f] e by (simp add: resident_def)
  have blank: "blank_free (k_mram demo)" by (simp add: blank_free_def demo_def idle_ram_def stack_memphy_def)
  have n: "next_ins (demo_pcb 2) = \<lparr>opcode = WRITE, arg_0 = 100, arg_1 = 4, arg_2 = 20, arg_3 = 0\<rparr>"
    by (simp add: next_ins_def demo_pcb_def sample_pcb_def)
  have "symrgtbl (?m 2) ! 4 = \<lparr>rg_start = 0, rg_end = 200\<rparr>" by (simp add: page_ctx_def nth_replicate)
  then have "v_addr 4 20 ?v = Some 20" using e by (simp add: v_addr_def region_addr_def to_u64_id to_i32_id)
  then have v: "vstep False (next_ins (demo_pcb 2)) ?v = Some (0, ?v\<lparr>vs_byte := (vs_byte ?v)(20 := 100)\<rparr>)"
    by (simp add: vstep_def n to_i32_id)
  have pc: "pc (demo_pcb 2) < c_size (code (demo_pcb 2))" "pc (demo_pcb 2) < length (c_text (code (demo_pcb 2)))"
    by (simp_all add: demo_pcb_def sample_pcb_def)
  have room: "vs_end (?v\<lparr>vs_byte := (vs_byte ?v)(20 := 100)\<rparr>) \<le> heap_end (?m 2) + 256 * frames_left (k_mram demo)"
    by (simp add: frames_left_def)
  from run_refines_virtual_memory [OF inv p(1,2) res blank pc v room] obtain out k' m' where
    r: "run False 7 demo = Inr (0, out, k')" "k_pcbs k' = (k_pcbs demo)(7 \<mapsto> (demo_pcb 2)\<lparr>pc := pc (demo_pcb 2) + 1, mm := Some m'\<rparr>)"
      "vspace_of m' (storage (k_mram k')) = ?v\<lparr>vs_byte := (vs_byte ?v)(20 := 100)\<rparr>"
      "\<forall>q b' n. q \<noteq> 7 \<longrightarrow> k_pcbs demo q = Some b' \<longrightarrow> mm b' = Some n \<longrightarrow> resident n \<longrightarrow>
         vspace_of n (storage (k_mram k')) = vspace_of n (storage (k_mram demo))" by blast
  have "vspace_of (?m 3) (storage (k_mram k')) = vspace_of (?m 3) (storage (k_mram demo))"
    using r(4) [rule_format, of 5 "demo_pcb 3" "?m 3"] p(2,3) res by simp
  with r p(2) show ?thesis by (intro exI [of _ out] exI [of _ k'] exI [of _ "(demo_pcb 2)\<lparr>pc := pc (demo_pcb 2) + 1, mm := Some m'\<rparr>"] exI [of _ m']) simp
qed

end
