(* ===== verification/Budget.thy ===== *)
theory Budget imports Schedule begin

text \<open>
  The arithmetic of the time slices with any number of processors (\<^verbatim>\<open>time_left\<close>, \<^verbatim>\<open>use_time\<close> of
  \<^verbatim>\<open>src/os.c\<close>, \<^verbatim>\<open>slot\<close> of \<^verbatim>\<open>src/sched.c\<close>).  The slots of a priority are charged for what has been executed, so no number gets
  further below zero than the slots that all processors have executed; and these are counted by the \<open>ledger\<close> of the clock.
\<close>

section \<open>What has not been charged yet\<close>

definition open_use :: "cpu_t \<Rightarrow> int" where
  "open_use c = (if c_proc c \<noteq> None \<and> (c_pc c \<in> {CRun, CNext, CTop, CCharge} \<or> (c_pc c = CCheck \<and> c_time_left c \<noteq> 0))
     then c_use_time c else 0)"

definition ran_now :: "cpu_t \<Rightarrow> int" where
  "ran_now c = (if c_pc c = CRun then 1 else 0)"

text \<open>A step of a processor charges \<open>u\<close> at most, and what it charges was open.\<close>

definition charges :: "int \<Rightarrow> sched_t \<Rightarrow> sched_t \<Rightarrow> bool" where
  "charges u sc sc' \<longleftrightarrow> (\<forall>p<MAX_PRIO. (slot sc ! p - u \<le> slot sc' ! p \<or> 0 \<le> slot sc' ! p) \<and>
     slot sc' ! p \<le> max (slot sc ! p) (int MAX_PRIO - int p))"

lemma charges_get:
  assumes "sched_wf sc" and "get_proc sc = Some (r, sc')"
  shows "charges 0 sc sc'"
  using assms by (cases rule: get_proc_cases) (auto simp: charges_def)

lemma charges_update: "update_slot p u sc = Inr sc' \<Longrightarrow> 0 \<le> u \<Longrightarrow> sched_wf sc \<Longrightarrow> charges u sc sc'"
  by (auto simp: update_slot_def charges_def sched_wf_def nth_list_update split: if_splits)

lemma charges_same: "slot sc' = slot sc \<Longrightarrow> charges 0 sc sc'"
  by (simp add: charges_def)

lemma fetch_budget:
  assumes "sched_wf (o_sched s)" and "cpu_fetch i c nn s = Some s'" and "nn \<in> {CNone, CCheck}"
  shows "charges 0 (o_sched s) (o_sched s') \<and> open_use (o_cpu s' i) = 0"
  using assms charges_get by (auto simp: cpu_fetch_def open_use_def split: option.splits)

lemma cpu_charges:
  assumes inv: "os_inv n s" and i: "i < n" and sl: "slice_ok cfg (o_cpu s i)" and cfg: "cfg = e_cfg env" and r: "cpu_routine env i s = Some (Inr s')"
  shows "\<exists>u\<ge>0. charges u (o_sched s) (o_sched s') \<and> u + open_use (o_cpu s' i) = open_use (o_cpu s i) + ran_now (o_cpu s i)"
proof -
  let ?c = "o_cpu s i"
  have wf: "sched_wf (o_sched s)" using os_own_invD(1) [OF os_invD(3) [OF inv]] .
  have u0: "0 \<le> c_use_time ?c" using sl by (simp add: slice_ok_def)
  note sh = os_invD(4) [OF inv, of i]
  have quiet: ?thesis if "slot (o_sched s') = slot (o_sched s)" "open_use (o_cpu s' i) = open_use ?c + ran_now ?c"
    using that charges_same by (intro exI [of _ 0]) simp
  have fetch: ?thesis if "cpu_fetch i c nn s = Some s'" "nn \<in> {CNone, CCheck}" "open_use ?c = 0" "c_pc ?c \<noteq> CRun" for c nn
    using fetch_budget [OF wf that(1,2)] that(3,4) by (intro exI [of _ 0]) (simp add: ran_now_def)
  show ?thesis
  proof (cases "c_pc ?c")
    case CTop
    show ?thesis
    proof (cases "c_proc ?c")
      case None
      with CTop r show ?thesis by (intro fetch [of ?c CNone]) (auto simp: cpu_routine_def open_use_def)
    next
      case (Some p)
      with CTop r have t: "cpu_top i ?c s = Inr s'" by (simp add: cpu_routine_def)
      then obtain b where b: "the_proc ?c s = Inr (p, b)" using Some by (auto simp: cpu_top_def the_proc_def bindR_eq_Inr)
      consider "pc b = c_size (code b)" | "pc b \<noteq> c_size (code b)" "c_time_left ?c = 0" | "pc b \<noteq> c_size (code b)" "c_time_left ?c \<noteq> 0"
        by blast
      then show ?thesis
      proof cases
        case 1
        with t b obtain sc where sc: "update_slot (prio b) (c_use_time ?c) (o_sched s) = Inr sc"
            "s' = set_cpu i (?c\<lparr>c_pc := CFree\<rparr>) (set_sched sc s)" by (auto simp: cpu_top_def bindR_eq_Inr)
        with charges_update [OF sc(1) u0 wf] u0 CTop Some show ?thesis
          by (intro exI [of _ "c_use_time ?c"]) (simp add: open_use_def ran_now_def set_sched_def set_cpu_def)
      next
        case 2
        with t b CTop Some show ?thesis
          by (intro quiet) (auto simp: cpu_top_def bindR_eq_Inr open_use_def ran_now_def placed_slot elim!: put_proc_InrE)
      next
        case 3
        with t b CTop Some show ?thesis by (intro quiet) (auto simp: cpu_top_def open_use_def ran_now_def)
      qed
    qed
  next
    case CCharge
    with r obtain p sc and b :: pcb_t where p: "c_proc ?c = Some p" and sc: "update_slot (prio b) (c_use_time ?c) (o_sched s) = Inr sc"
        "s' = set_cpu i (?c\<lparr>c_pc := CFetch False\<rparr>) (set_sched sc s)"
      by (auto simp: cpu_routine_def Let_def the_proc_def bindR_eq_Inr split: option.splits)
    with charges_update [OF sc(1) u0 wf] u0 CCharge show ?thesis
      by (intro exI [of _ "c_use_time ?c"]) (simp add: open_use_def ran_now_def set_sched_def set_cpu_def)
  next
    case (CFetch fin)
    with r show ?thesis
      by (intro fetch [of "if fin then ?c\<lparr>c_time_left := 0, c_use_time := 0\<rparr> else ?c" CCheck])
        (auto simp: cpu_routine_def open_use_def Let_def)
  next
    case CRun
    from sh CRun obtain p where p: "c_proc ?c = Some p" by (auto simp: cpu_shape_def)
    then have "owned ?c = Some p" using CRun by (simp add: owned_def)
    with inv i obtain b where b: "o_pcbs s p = Some b" "no_kill b" by (rule held_alloc)
    with r CRun p obtain st out k tl ut where k: "run (e_zeroed env) p (o_k s) = Inr (st, out, k)"
        "s' = set_cpu i (?c\<lparr>c_time_left := tl, c_use_time := ut, c_pc := CNext\<rparr>) (s\<lparr>o_k := k\<rparr>)"
        and ut: "ck_int (c_use_time ?c + 1) = Inr ut"
      by (auto simp: cpu_routine_def Let_def cpu_run_def the_proc_held bindR_eq_Inr)
    from run_frame [OF k(1) b] have "k_sched k = o_sched s" by blast
    with k(2) p CRun ck_int_Inr [OF ut] show ?thesis by (intro quiet) (auto simp: open_use_def ran_now_def set_cpu_def)
  qed (use r sh sl quiet in \<open>auto simp: cpu_routine_def Let_def open_use_def ran_now_def bindR_eq_Inr cpu_check_def
    cpu_shape_def slice_ok_def the_proc_def split: option.splits if_splits\<close>)
qed

section \<open>The invariant\<close>

text \<open>\<open>C\<close>: what has been charged so far; \<open>X\<close>: the slots executed so far.\<close>

definition cpu_bounds :: "int \<Rightarrow> int \<Rightarrow> cpu_t \<Rightarrow> bool" where
  "cpu_bounds ts X c \<longleftrightarrow> - X \<le> c_remaining c \<and> min ts (- X) \<le> c_time_left c + c_use_time c \<and> c_use_time c \<le> X"

definition budget :: "os_env \<Rightarrow> int \<Rightarrow> os_t \<Rightarrow> bool" where
  "budget env X s \<longleftrightarrow> (\<forall>i<num_cpus (e_cfg env). cpu_bounds (time_slot (e_cfg env)) X (o_cpu s i)) \<and>
     (\<forall>p<MAX_PRIO. slot (o_sched s) ! p \<le> int MAX_PRIO - int p) \<and>
     (\<exists>C\<ge>0. (\<forall>p<MAX_PRIO. - C \<le> slot (o_sched s) ! p) \<and> C + (\<Sum>i<num_cpus (e_cfg env). open_use (o_cpu s i)) \<le> X)"

lemma budgetE:
  assumes "budget env X s"
  obtains C where "0 \<le> C" "\<And>p. p < MAX_PRIO \<Longrightarrow> - C \<le> slot (o_sched s) ! p"
    "C + (\<Sum>i<num_cpus (e_cfg env). open_use (o_cpu s i)) \<le> X"
    "\<And>i. i < num_cpus (e_cfg env) \<Longrightarrow> cpu_bounds (time_slot (e_cfg env)) X (o_cpu s i)"
    "\<And>p. p < MAX_PRIO \<Longrightarrow> slot (o_sched s) ! p \<le> int MAX_PRIO - int p"
  using assms unfolding budget_def by blast

lemma open_use_nonneg: "slice_ok cfg c \<Longrightarrow> 0 \<le> open_use c"
  by (simp add: open_use_def slice_ok_def)

lemma cpu_bounds_mono: "cpu_bounds ts X c \<Longrightarrow> X \<le> Y \<Longrightarrow> cpu_bounds ts Y c"
  by (auto simp: cpu_bounds_def)

lemma cpu_bounds_step:
  assumes r: "cpu_routine env i s = Some (Inr s')" and c: "cpu_bounds (time_slot (e_cfg env)) X (o_cpu s i)"
    and X: "0 \<le> X" "\<And>p. p < MAX_PRIO \<Longrightarrow> - X \<le> slot (o_sched s) ! p"
  shows "cpu_bounds (time_slot (e_cfg env)) (X + ran_now (o_cpu s i)) (o_cpu s' i)"
proof (cases "c_pc (o_cpu s i)")
  case CTop
  show ?thesis
  proof (cases "c_proc (o_cpu s i)")
    case None
    with CTop r c show ?thesis by (auto simp: cpu_routine_def cpu_bounds_def ran_now_def dest!: cpu_fetch_cpu)
  next
    case (Some p)
    with CTop r have "cpu_top i (o_cpu s i) s = Inr s'" by (simp add: cpu_routine_def)
    from cpu_top_cpu [OF this] c CTop show ?thesis by (auto simp: cpu_bounds_def ran_now_def)
  qed
next
  case (CFetch fin)
  with r c X(1) show ?thesis
    by (auto simp: cpu_routine_def Let_def cpu_bounds_def ran_now_def dest!: cpu_fetch_cpu split: if_splits)
next
  case CGetSlot
  with r c X(2) show ?thesis
    by (auto simp: cpu_routine_def Let_def bindR_eq_Inr get_slot_def cpu_bounds_def ran_now_def split: if_splits)
next
  case CRun
  with r obtain tl ut where "o_cpu s' i = (o_cpu s i)\<lparr>c_time_left := tl, c_use_time := ut, c_pc := CNext\<rparr>"
      and t: "ck_int (c_time_left (o_cpu s i) - 1) = Inr tl" "ck_int (c_use_time (o_cpu s i) + 1) = Inr ut"
    by (auto simp: cpu_routine_def Let_def cpu_run_def bindR_eq_Inr split: option.splits)
  with c CRun t [THEN ck_int_Inr] show ?thesis by (auto simp: cpu_bounds_def ran_now_def)
qed (use r c X(1) in \<open>auto simp: cpu_routine_def Let_def bindR_eq_Inr cpu_check_def cpu_bounds_def ran_now_def split: if_splits\<close>)

lemma budget_cpu:
  assumes inv: "os_inv (num_cpus (e_cfg env)) s" and sl: "\<And>j. slice_ok (e_cfg env) (o_cpu s j)" and b: "budget env X s"
    and i: "i < num_cpus (e_cfg env)" and r: "cpu_routine env i s = Some (Inr s')"
  shows "budget env (X + ran_now (o_cpu s i)) s'"
proof -
  let ?n = "num_cpus (e_cfg env)"
  from b obtain C where C: "0 \<le> C" "\<And>p. p < MAX_PRIO \<Longrightarrow> - C \<le> slot (o_sched s) ! p"
    "C + (\<Sum>i<?n. open_use (o_cpu s i)) \<le> X" "\<And>i. i < ?n \<Longrightarrow> cpu_bounds (time_slot (e_cfg env)) X (o_cpu s i)"
    "\<And>p. p < MAX_PRIO \<Longrightarrow> slot (o_sched s) ! p \<le> int MAX_PRIO - int p"
    by (rule budgetE) blast
  obtain u where u: "0 \<le> u" "charges u (o_sched s) (o_sched s')"
    "u + open_use (o_cpu s' i) = open_use (o_cpu s i) + ran_now (o_cpu s i)" using cpu_charges [OF inv i sl refl r] by blast
  have "0 \<le> (\<Sum>j<?n. open_use (o_cpu s j))" using open_use_nonneg [OF sl] by (intro sum_nonneg)
  with C(3) have X: "C \<le> X" by simp
  have other: "o_cpu s' j = o_cpu s j" if "j \<noteq> i" for j using cpu_routine_other [OF r that] .
  have "(\<Sum>j<?n. open_use (o_cpu s' j)) = (\<Sum>j\<in>{..<?n} - {i}. open_use (o_cpu s j)) + open_use (o_cpu s' i)"
    using i other by (simp add: sum.remove [of "{..<?n}" i])
  moreover have "(\<Sum>j<?n. open_use (o_cpu s j)) = (\<Sum>j\<in>{..<?n} - {i}. open_use (o_cpu s j)) + open_use (o_cpu s i)"
    using i by (simp add: sum.remove [of "{..<?n}" i])
  ultimately have "(C + u) + (\<Sum>j<?n. open_use (o_cpu s' j)) \<le> X + ran_now (o_cpu s i)" using u(3) C(3) by linarith
  moreover have "- (C + u) \<le> slot (o_sched s') ! p" if "p < MAX_PRIO" for p
    using u(1,2) C(1) C(2) [OF that] that by (fastforce simp: charges_def)
  moreover have "cpu_bounds (time_slot (e_cfg env)) (X + ran_now (o_cpu s i)) (o_cpu s' j)" if j: "j < ?n" for j
  proof (cases "j = i")
    case True
    have "0 \<le> X" "\<And>p. p < MAX_PRIO \<Longrightarrow> - X \<le> slot (o_sched s) ! p" using C(1,2) X by fastforce+
    with cpu_bounds_step [OF r C(4) [OF i]] True show ?thesis by blast
  next
    case False
    with C(4) [OF j] other show ?thesis by (auto simp: ran_now_def intro: cpu_bounds_mono)
  qed
  moreover have "slot (o_sched s') ! p \<le> int MAX_PRIO - int p" if "p < MAX_PRIO" for p
    using u(2) C(5) [OF that] that by (fastforce simp: charges_def)
  moreover have "0 \<le> C + u" using C(1) u(1) by simp
  ultimately show ?thesis unfolding budget_def by blast
qed

lemma ld_slot:
  assumes "ld_routine env p s = Inr (Returns s')"
  shows "slot (o_sched s') = slot (o_sched s)"
  using assms
  by (auto simp: ld_routine_def ld_add_def Let_def bindR_eq_Inr placed_slot elim!: ld_load_Returns add_proc_InrE
      split: ld_pc.splits if_splits)

lemma os_run_budget:
  assumes "os_run env tr s" and "good_env env" and "0 < num_cpus (e_cfg env)" and "clock_limit env < 2 ^ 64"
  shows "\<exists>X. 0 \<le> X \<and> X \<le> int (work env) \<and> budget env X s"
proof -
  let ?n = "num_cpus (e_cfg env)"
  let ?I = "\<lambda>s f. budget env (int (sum f {..<?n})) s"
  have "\<exists>f. ledger env tr s f \<and> ?I s f"
  proof (rule os_run_counted [OF assms])
    fix mram0 mswp0 s assume "main env mram0 mswp0 = Inr s"
    then have "o_cpu s = (\<lambda>_. cpu0)" "o_sched s = init_scheduler zero_sched" by (auto simp: main_def Let_def bindR_eq_Inr)
    then show "?I s (\<lambda>_. 0)"
      by (auto simp: budget_def cpu_bounds_def cpu0_def open_use_def init_scheduler_def intro!: exI [of _ 0])
  next
    fix tr s f i s'
    assume a: "os_run env tr s" "?I s f" "i < ?n" "cpu_routine env i s = Some (Inr s')"
    note r = os_run_reach [OF a(1)]
    have "int (sum (counted s i f) {..<?n}) = int (sum f {..<?n}) + ran_now (o_cpu s i)"
      using arg_cong [OF sum_upd [OF a(3), of f], of int] by (simp add: counted_def ran_now_def del: of_nat_sum fun_upd_apply)
    with budget_cpu [OF os_reach_inv [OF r assms(2)] os_reach_slice [OF r] a(2-4)] show "?I s' (counted s i f)" by simp
  next
    fix s f p s' assume "?I s f" "ld_routine env p s = Inr (Returns s')"
    then show "?I s' f" using ld_slot ld_routine_cpu by (fastforce simp: budget_def)
  qed (simp add: budget_def)
  then obtain f where "ledger env tr s f" "?I s f" by blast
  with ledgerD(5) [of env tr s f] show ?thesis
    by (intro exI [of _ "int (sum f {..<?n})"]) (simp del: of_nat_sum)
qed

text \<open>The bounds on the numbers of a run.\<close>

lemma slices_bounded:
  assumes "os_run env tr s" and "good_env env" and "0 < num_cpus (e_cfg env)" and "clock_limit env < 2 ^ 64"
    and "0 \<le> time_slot (e_cfg env)"
  shows "(\<forall>p<MAX_PRIO. - int (work env) \<le> slot (o_sched s) ! p \<and> slot (o_sched s) ! p \<le> int MAX_PRIO - int p) \<and>
    (\<forall>i<num_cpus (e_cfg env). 0 \<le> c_use_time (o_cpu s i) \<and> c_use_time (o_cpu s i) \<le> int (work env) \<and>
       - 2 * int (work env) \<le> c_time_left (o_cpu s i) \<and> c_time_left (o_cpu s i) \<le> time_slot (e_cfg env))"
proof -
  obtain X where X: "0 \<le> X" "X \<le> int (work env)" "budget env X s" using os_run_budget [OF assms(1-4)] by blast
  from X(3) obtain C where C: "0 \<le> C" "\<And>p. p < MAX_PRIO \<Longrightarrow> - C \<le> slot (o_sched s) ! p"
    "C + (\<Sum>i<num_cpus (e_cfg env). open_use (o_cpu s i)) \<le> X"
    "\<And>i. i < num_cpus (e_cfg env) \<Longrightarrow> cpu_bounds (time_slot (e_cfg env)) X (o_cpu s i)"
    "\<And>p. p < MAX_PRIO \<Longrightarrow> slot (o_sched s) ! p \<le> int MAX_PRIO - int p"
    by (rule budgetE) blast
  note sl = os_reach_slice [OF os_run_reach [OF assms(1)]]
  have "0 \<le> (\<Sum>i<num_cpus (e_cfg env). open_use (o_cpu s i))" using open_use_nonneg [OF sl] by (intro sum_nonneg)
  with C(3) have "C \<le> X" by simp
  with C(2,5) X(2) have "- int (work env) \<le> slot (o_sched s) ! p \<and> slot (o_sched s) ! p \<le> int MAX_PRIO - int p"
    if "p < MAX_PRIO" for p using that by fastforce
  moreover have "0 \<le> c_use_time (o_cpu s i) \<and> c_use_time (o_cpu s i) \<le> int (work env) \<and>
      - 2 * int (work env) \<le> c_time_left (o_cpu s i) \<and> c_time_left (o_cpu s i) \<le> time_slot (e_cfg env)"
    if "i < num_cpus (e_cfg env)" for i
    using C(4) [OF that] sl [of i] X(1,2) assms(5) by (auto simp: cpu_bounds_def slice_ok_def min_def split: if_splits)
  ultimately show ?thesis by blast
qed

text \<open>
  So the two updates after an instruction are defined (and the charge in \<open>update_slot\<close>, which \<open>Sched\<close> computes without a
  limit) when the programs have less than \<open>2 ^ 30\<close> instructions together, or when there is a single processor.
\<close>

definition slices_fit :: "os_env \<Rightarrow> bool" where
  "slices_fit env \<longleftrightarrow> 0 \<le> time_slot (e_cfg env) \<and> time_slot (e_cfg env) \<le> 2147483647 \<and>
     (work env < 2 ^ 30 \<or> num_cpus (e_cfg env) = 1 \<and> 0 < time_slot (e_cfg env))"

lemma slice_updates:
  assumes "os_run env tr s" and "good_env env" and "0 < num_cpus (e_cfg env)" and "clock_limit env < 2 ^ 64"
    and f: "slices_fit env" and i: "i < num_cpus (e_cfg env)" "c_pc (o_cpu s i) = CRun"
  shows "ck_int (c_time_left (o_cpu s i) - 1) = Inr (c_time_left (o_cpu s i) - 1)"
    and "ck_int (c_use_time (o_cpu s i) + 1) = Inr (c_use_time (o_cpu s i) + 1)"
proof -
  let ?c = "o_cpu s i"
  note r = os_run_reach [OF assms(1)]
  note sl = os_reach_slice [OF r, of i]
  have ts: "0 \<le> time_slot (e_cfg env)" "time_slot (e_cfg env) \<le> 2147483647" using f by (simp_all add: slices_fit_def)
  from f consider "work env < 2 ^ 30" | "num_cpus (e_cfg env) = 1" "0 < time_slot (e_cfg env)" by (auto simp: slices_fit_def)
  then have "- 2147483648 \<le> c_time_left ?c - 1 \<and> c_time_left ?c - 1 \<le> 2147483647 \<and>
      0 \<le> c_use_time ?c + 1 \<and> c_use_time ?c + 1 \<le> 2147483647"
  proof cases
    case 1
    with slices_bounded [OF assms(1-4) ts(1)] i(1) ts show ?thesis by fastforce
  next
    case 2
    with one_okD(1,2) [OF os_reach_one [OF r assms(2) 2]] sl i ts show ?thesis by (auto simp: slice_ok_def)
  qed
  then show "ck_int (c_time_left ?c - 1) = Inr (c_time_left ?c - 1)" "ck_int (c_use_time ?c + 1) = Inr (c_use_time ?c + 1)"
    by (simp_all add: ck_int_def)
qed

section \<open>Properties\<close>

text \<open>C15: The arithmetic of the time slices cannot overflow, with any number of processors and in every interleaving: the slots of a
  priority stay between minus the work of all programs (one slot per instruction and one per program) and \<open>MAX_PRIO\<close> minus the
  priority, the time a process has used stays below that work, and the time it has left above twice its negative, although both
  can be charged and read at any moment by other processors.\<close>

theorem slices_never_overflow:
  assumes "os_run env tr s" and "good_env env" and "0 < num_cpus (e_cfg env)" and "clock_limit env < 2 ^ 64"
    and "0 \<le> time_slot (e_cfg env)"
  shows "(\<forall>p<MAX_PRIO. - int (work env) \<le> slot (o_sched s) ! p \<and> slot (o_sched s) ! p \<le> int MAX_PRIO - int p) \<and>
    (\<forall>i<num_cpus (e_cfg env). 0 \<le> c_use_time (o_cpu s i) \<and> c_use_time (o_cpu s i) \<le> int (work env) \<and>
       - 2 * int (work env) \<le> c_time_left (o_cpu s i) \<and> c_time_left (o_cpu s i) \<le> time_slot (e_cfg env))"
  by (rule slices_bounded [OF assms])

theorem slices_never_overflow_witness:
  "\<exists>tr s. os_run (demo_env 2) tr s \<and> c_use_time (o_cpu s 0) = 1 \<and> - int (work (demo_env 2)) \<le> slot (o_sched s) ! 15 \<and>
     slot (o_sched s) ! 15 \<le> 125 \<and> c_time_left (o_cpu s 0) \<le> 2"
proof -
  obtain s v where s: "os_reach (demo_env 2) s" "o_cpu s 0 = \<lparr>c_pc = CNext, c_proc = Some 1, c_time_left = min 2 v - 1,
      c_use_time = 1, c_remaining = v\<rparr>" using demo_ran [of 2] by auto
  obtain tr where tr: "os_run (demo_env 2) tr s" using os_reach_run [OF s(1)] by blast
  have "0 < num_cpus (e_cfg (demo_env 2))" "0 \<le> time_slot (e_cfg (demo_env 2))" "15 < MAX_PRIO" by (simp_all add: MAX_PRIO_def)
  with slices_never_overflow [OF tr demo_good _ demo_limit] have
    "- int (work (demo_env 2)) \<le> slot (o_sched s) ! 15 \<and> slot (o_sched s) ! 15 \<le> int MAX_PRIO - 15 \<and>
      c_time_left (o_cpu s 0) \<le> time_slot (e_cfg (demo_env 2))" by fastforce
  with tr s(2) show ?thesis by (intro exI [of _ tr] exI [of _ s]) (simp add: MAX_PRIO_def)
qed

end
