(* ===== verification/Private.thy ===== *)
theory Private imports Virtual Budget begin

text \<open>
  The private memories in every interleaving of the machine.  When the programs ask for no more pages than RAM has and
  stay inside their heaps (\<open>contained\<close>, which can be computed from the programs alone), then at every moment
  the memory of a process is the one that \<open>vstep\<close> gives for the instructions it has executed, whatever the other
  processes and processors do; and no instruction faults.
\<close>

section \<open>Programs that fit\<close>

definition vspace0 :: "os_env \<Rightarrow> nat \<Rightarrow> vspace" where
  "vspace0 env i = vspace_of (init_mm (e_zeroed env) (e_pgd0 env i) (e_mm0 env i)) (\<lambda>_. 0)"

definition vrun :: "os_env \<Rightarrow> nat \<Rightarrow> inst_t list \<Rightarrow> vspace option" where
  "vrun env i xs = vexec (e_zeroed env) xs (vspace0 env i)"

definition vend :: "os_env \<Rightarrow> nat \<Rightarrow> inst_t list \<Rightarrow> int" where
  "vend env i xs = (case vrun env i xs of None \<Rightarrow> 0 | Some v \<Rightarrow> vs_end v)"

abbreviation prog_text :: "os_env \<Rightarrow> nat \<Rightarrow> inst_t list" where
  "prog_text env i \<equiv> c_text (program env i)"

definition ram_bytes :: "os_env \<Rightarrow> int" where
  "ram_bytes env = 256 * (memramsz (e_cfg env) div 256)"

definition contained :: "os_env \<Rightarrow> bool" where
  "contained env \<longleftrightarrow> (\<forall>i<length (ld_processes (e_cfg env)). vrun env i (prog_text env i) \<noteq> None) \<and>
     (\<Sum>i<length (ld_processes (e_cfg env)). vend env i (prog_text env i)) \<le> ram_bytes env"

lemma heap_end_init: "heap_end (init_mm z pgd0 mm0) = 0"
  by (simp add: heap_end_def init_mm_def Let_def)

lemma vspace0_end: "vs_end (vspace0 env i) = 0"
  by (simp add: vspace0_def heap_end_init)

lemma vspace0_any: "vspace_of (init_mm (e_zeroed env) (e_pgd0 env i) (e_mm0 env i)) st = vspace0 env i"
  by (auto simp: vspace0_def vspace_of_def heap_end_init fun_eq_iff)

lemma vend_nil [simp]: "vend env i [] = 0"
  by (simp add: vend_def vrun_def vspace0_end)

lemma vrun_append: "vrun env i (xs @ ys) = Option.bind (vrun env i xs) (vexec (e_zeroed env) ys)"
  by (simp add: vrun_def vexec_append)

lemma vend_mono: "vrun env i (xs @ ys) \<noteq> None \<Longrightarrow> vend env i xs \<le> vend env i (xs @ ys)"
  using vexec_end by (force simp: vend_def vrun_append Option.bind_eq_Some_conv split: option.splits)

section \<open>Runs from the start\<close>

text \<open>Runs that start with empty devices (as in \<open>iso_reach\<close>).\<close>

inductive clean_run :: "os_env \<Rightarrow> os_event list \<Rightarrow> os_t \<Rightarrow> bool" for env where
  boot: "main env mram0 mswp0 = Inr s \<Longrightarrow> length mswp0 = PAGING_MAX_MMSWP \<Longrightarrow>
    list_all (\<lambda>d. free_fp_list d = Null) (mram0 # mswp0) \<Longrightarrow> clean_run env [] s"
| move: "clean_run env tr s \<Longrightarrow> os_move env evs s s' \<Longrightarrow> clean_run env (tr @ evs) s'"

lemma clean_run_run: "clean_run env tr s \<Longrightarrow> os_run env tr s"
  by (induction rule: clean_run.induct) (auto intro: os_run.boot os_move_run)

section \<open>The invariant\<close>

text \<open>\<open>ex i\<close>: what process \<open>i\<close> of the configuration has executed so far.\<close>

definition private_inv :: "os_env \<Rightarrow> os_t \<Rightarrow> (pcb_ref \<rightharpoonup> life) \<Rightarrow> (nat \<Rightarrow> inst_t list) \<Rightarrow> bool" where
  "private_inv env s l ex \<longleftrightarrow> mem_inv (o_k s) \<and> blank_free (k_mram (o_k s)) \<and>
     (\<forall>p i xs w. l p = Some (i, xs, w) \<longrightarrow> ex i = xs \<and> (\<exists>b m. o_pcbs s p = Some b \<and> mm b = Some m \<and> resident m \<and>
        vrun env i xs = Some (vspace_of m (storage (k_mram (o_k s)))))) \<and>
     (\<forall>i\<ge>loads env (o_ld s). ex i = []) \<and> (\<forall>i. \<exists>ys. prog_text env i = ex i @ ys) \<and>
     256 * frames_left (k_mram (o_k s)) + (\<Sum>i<length (ld_processes (e_cfg env)). vend env i (ex i)) = ram_bytes env"

lemma private_invD:
  assumes "private_inv env s l ex"
  shows "mem_inv (o_k s)" "blank_free (k_mram (o_k s))"
    "l p = Some (i, xs, w) \<Longrightarrow> ex i = xs \<and> (\<exists>b m. o_pcbs s p = Some b \<and> mm b = Some m \<and> resident m \<and>
        vrun env i xs = Some (vspace_of m (storage (k_mram (o_k s)))))"
    "loads env (o_ld s) \<le> i \<Longrightarrow> ex i = []" "\<exists>ys. prog_text env i = ex i @ ys"
    "256 * frames_left (k_mram (o_k s)) + (\<Sum>i<length (ld_processes (e_cfg env)). vend env i (ex i)) = ram_bytes env"
  using assms unfolding private_inv_def by blast+

lemma private_same:
  assumes "private_inv env s l ex" and "mem_inv (o_k s')" and "k_mram (o_k s') = k_mram (o_k s)"
    and "loads env (o_ld s') = loads env (o_ld s)"
    and "\<And>p i xs w. l' p = Some (i, xs, w) \<Longrightarrow> (\<exists>w0. l p = Some (i, xs, w0)) \<and>
      (\<exists>b'. o_pcbs s' p = Some b' \<and> (\<forall>b. o_pcbs s p = Some b \<longrightarrow> mm b' = mm b))"
  shows "private_inv env s' l' ex"
  unfolding private_inv_def
proof (intro conjI allI impI)
  note d = private_invD [OF assms(1)]
  fix p i xs w assume "l' p = Some (i, xs, w)"
  with assms(5) obtain w0 b' where "l p = Some (i, xs, w0)" "o_pcbs s' p = Some b'" "\<forall>b. o_pcbs s p = Some b \<longrightarrow> mm b' = mm b"
    by blast
  with d(3) [of p i xs w0] assms(3) show "ex i = xs" "\<exists>b m. o_pcbs s' p = Some b \<and> mm b = Some m \<and> resident m \<and>
      vrun env i xs = Some (vspace_of m (storage (k_mram (o_k s'))))" by auto
qed (use private_invD [OF assms(1)] assms(2-4) in auto)

section \<open>The next instruction\<close>

text \<open>RAM has room for what any process still asks for.\<close>

lemma room_left:
  assumes inv: "private_inv env s l ex" and c: "contained env" and k: "k < length (ld_processes (e_cfg env))"
    and t: "prog_text env k = (ex k @ [ins]) @ ys" and w: "vrun env k (ex k @ [ins]) = Some w"
  shows "vs_end w \<le> vend env k (ex k) + 256 * frames_left (k_mram (o_k s))"
proof -
  let ?n = "length (ld_processes (e_cfg env))"
  have ok: "vrun env i (prog_text env i) \<noteq> None" if "i < ?n" for i using c that by (simp add: contained_def)
  have le: "vend env i (ex i) \<le> vend env i (prog_text env i)" if "i < ?n" for i
    using private_invD(5) [OF inv, of i] vend_mono ok [OF that] by metis
  have "vs_end w = vend env k (ex k @ [ins])" using w by (simp add: vend_def)
  also have "\<dots> \<le> vend env k (prog_text env k)" using vend_mono [of env k "ex k @ [ins]" ys] ok [OF k] by (simp add: t)
  finally have "vs_end w - vend env k (ex k) \<le> vend env k (prog_text env k) - vend env k (ex k)" by simp
  also have "\<dots> \<le> (\<Sum>i<?n. vend env i (prog_text env i) - vend env i (ex i))"
    using le k by (intro member_le_sum) auto
  also have "\<dots> = (\<Sum>i<?n. vend env i (prog_text env i)) - (\<Sum>i<?n. vend env i (ex i))" by (rule sum_subtractf)
  also have "\<dots> \<le> ram_bytes env - (\<Sum>i<?n. vend env i (ex i))" using c by (simp add: contained_def)
  also have "\<dots> = 256 * frames_left (k_mram (o_k s))" using private_invD(6) [OF inv] by linarith
  finally show ?thesis by simp
qed

lemma next_vstep:
  assumes inv: "private_inv env s l ex" and t: "trace_inv env n s l fin" and c: "contained env"
    and p: "l p = Some (k, xs, w)" "o_pcbs s p = Some b" and more: "pc b < c_size (code b)"
  shows "\<exists>m st v. mm b = Some m \<and> resident m \<and> k < length (ld_processes (e_cfg env)) \<and> pc b < length (c_text (code b)) \<and>
    ex k = xs \<and> (\<exists>ys. prog_text env k = (xs @ [next_ins b]) @ ys) \<and> vrun env k (xs @ [next_ins b]) = Some v \<and>
    vrun env k xs = Some (vspace_of m (storage (k_mram (o_k s)))) \<and>
    vstep (e_zeroed env) (next_ins b) (vspace_of m (storage (k_mram (o_k s)))) = Some (st, v) \<and>
    vs_end v \<le> heap_end m + 256 * frames_left (k_mram (o_k s))"
proof -
  note d = trace_invD [OF t]
  note lo = life_okD [OF d(3) [OF p(1)] p(2)]
  obtain b' m where m: "ex k = xs" "o_pcbs s p = Some b'" "mm b' = Some m" "resident m"
      "vrun env k xs = Some (vspace_of m (storage (k_mram (o_k s))))"
    using private_invD(3) [OF inv p(1)] by blast
  have mb: "mm b = Some m" using m(2,3) p(2) by simp
  have "k \<in> index_of l ` dom l" using p(1) by (metis domI fst_conv image_eqI index_of_def option.sel)
  then have "k < loads env (o_ld s)" using d(4) unfolding index_inv_def by blast
  then have k: "k < length (ld_processes (e_cfg env))" using d(1) by (simp add: ld_wf_def)
  have len: "pc b < length (prog_text env k)" using more lo(1) program_size [of env k] by simp
  then have tx: "prog_text env k = (xs @ [next_ins b]) @ drop (Suc (pc b)) (prog_text env k)"
    using lo(1,3) by (simp add: next_ins_def id_take_nth_drop [symmetric])
  have "vrun env k (prog_text env k) \<noteq> None" using c k by (simp add: contained_def)
  then have "vrun env k (xs @ [next_ins b]) \<noteq> None" by (subst (asm) tx, subst (asm) vrun_append) (auto simp: Option.bind_eq_Some_conv)
  then obtain v where v: "vrun env k (xs @ [next_ins b]) = Some v" by blast
  then obtain st where st: "vstep (e_zeroed env) (next_ins b) (vspace_of m (storage (k_mram (o_k s)))) = Some (st, v)"
    using m(5) by (auto simp: vrun_append Option.bind_eq_Some_conv)
  have he: "vend env k xs = heap_end m" using m(5) by (simp add: vend_def)
  have "vs_end v \<le> heap_end m + 256 * frames_left (k_mram (o_k s))"
    using room_left [OF inv c k _ v [folded m(1)]] tx m(1) he by simp
  with mb m k len lo(1) tx v st show ?thesis by auto
qed

lemma private_cautious:
  assumes inv: "private_inv env s l ex" and t: "trace_inv env (num_cpus (e_cfg env)) s l fin" and c: "contained env"
    and os: "os_inv (num_cpus (e_cfg env)) s"
  shows "all_cautious env s"
  unfolding all_cautious_def
proof (intro allI impI)
  fix i p b assume i: "i < num_cpus (e_cfg env)" and r: "c_pc (o_cpu s i) = CRun" "c_proc (o_cpu s i) = Some p" "o_pcbs s p = Some b"
  have "owned (o_cpu s i) = Some p" using r by (simp add: owned_def)
  from held_in_progress [OF os i this] r(1) have "p \<in> dom l" using trace_invD(2) [OF t] by simp
  then obtain k xs w where l: "l p = Some (k, xs, w)" by auto
  show "cautious (o_k s) b"
  proof (cases "pc b < c_size (code b)")
    case False
    then show ?thesis by (simp add: cautious_def)
  next
    case True
    from next_vstep [OF inv t c l r(3) True] obtain m st v where m: "mm b = Some m" "resident m"
        "vstep (e_zeroed env) (next_ins b) (vspace_of m (storage (k_mram (o_k s)))) = Some (st, v)" by blast
    have "kernel_inv (o_k s)" using private_invD(1) [OF inv] by (simp add: mem_inv_def)
    from kernel_invD [OF this r(3) m(1)] have "tidy (others_of (o_pcbs s) p) (ctx_of (o_k s) b m)"
      using m(2) private_invD(2) [OF inv] by (simp add: tidy_def ctx_of_def)
    moreover have "vstep (e_zeroed env) (next_ins b) (space (ctx_of (o_k s) b m)) \<noteq> None"
      using m(3) by (simp add: space_def ctx_of_def)
    ultimately show ?thesis using m(1) vstep_cautious by blast
  qed
qed

section \<open>A step of a processor\<close>

text \<open>Only instructions change the memory; the other steps keep the descriptors of the blocks that stay.\<close>

lemma cpu_routine_mm:
  assumes r: "cpu_routine env i s = Some (Inr s')" and nr: "c_pc (o_cpu s i) \<noteq> CRun"
  shows "k_mram (o_k s') = k_mram (o_k s)" "o_pcbs s p = Some b \<Longrightarrow> o_pcbs s' p = Some b' \<Longrightarrow> mm b' = mm b"
proof -
  have "k_mram (o_k s') = k_mram (o_k s) \<and> (\<forall>p b b'. o_pcbs s p = Some b \<longrightarrow> o_pcbs s' p = Some b' \<longrightarrow> mm b' = mm b)"
    using r nr
    by (cases "c_pc (o_cpu s i)";
        auto simp: cpu_routine_def cpu_fetch_def cpu_check_def cpu_top_def the_proc_def bindR_eq_Inr Let_def
          split: option.splits if_splits elim!: put_proc_InrE)
  then show "k_mram (o_k s') = k_mram (o_k s)" "o_pcbs s p = Some b \<Longrightarrow> o_pcbs s' p = Some b' \<Longrightarrow> mm b' = mm b" by blast+
qed

definition silent :: "os_event \<Rightarrow> bool" where
  "silent e \<longleftrightarrow> (case e of Loaded _ _ _ _ _ \<Rightarrow> False | Executed _ _ _ _ \<Rightarrow> False | _ \<Rightarrow> True)"

lemma cpu_events_silent: "c_pc (o_cpu s i) \<noteq> CRun \<Longrightarrow> cpu_events env i s = [] \<or> (\<exists>e. cpu_events env i s = [e] \<and> silent e)"
  by (auto simp: cpu_events_def Let_def silent_def split: option.splits cpu_pc.splits)

lemma track_silent:
  "track e (l, fin) = Some (l', fin') \<Longrightarrow> silent e \<Longrightarrow> l' p = Some (i, xs, w) \<Longrightarrow> \<exists>w0. l p = Some (i, xs, w0)"
  by (cases e) (auto simp: silent_def split: option.splits prod.splits place.splits if_splits)

lemma life_block: "trace_inv env n s l fin \<Longrightarrow> l p = Some (i, xs, w) \<Longrightarrow> \<exists>b. o_pcbs s p = Some b"
  by (drule trace_invD(3)) (auto simp: life_ok_def)

lemma sum_fun_upd:
  assumes "k < (n :: nat)"
  shows "(\<Sum>i<n. f i (if i = k then x else g i)) = (\<Sum>i<n. f i (g i)) - f k (g k) + (f k x :: int)"
proof -
  have "(\<Sum>i\<in>{..<n} - {k}. f i (if i = k then x else g i)) = (\<Sum>i\<in>{..<n} - {k}. f i (g i))"
    by (rule sum.cong) auto
  then show ?thesis using assms sum.remove [of "{..<n}" k "\<lambda>i. f i (if i = k then x else g i)"]
      sum.remove [of "{..<n}" k "\<lambda>i. f i (g i)"] by simp
qed

text \<open>The instruction: its space is the one after \<open>vstep\<close>, and the accounts of the frames agree.\<close>

lemma exec_private:
  assumes inv: "private_inv env s l ex" and t: "trace_inv env n s l fin" and c: "contained env"
    and p: "l p = Some (k, xs, w)" "o_pcbs s p = Some b" and more: "pc b < c_size (code b)"
    and r: "run (e_zeroed env) p (o_k s) = Inr (st, out, o_k s')" and ld: "o_ld s' = o_ld s"
  shows "private_inv env s' (l(p \<mapsto> (k, xs @ [next_ins b], w'))) (ex(k := xs @ [next_ins b]))"
proof -
  note d = private_invD [OF inv]
  let ?st = "storage (k_mram (o_k s))" and ?n = "length (ld_processes (e_cfg env))"
  obtain m a v where m: "mm b = Some m" "resident m" "k < ?n" "pc b < length (c_text (code b))" "ex k = xs"
      "\<exists>ys. prog_text env k = (xs @ [next_ins b]) @ ys" "vrun env k (xs @ [next_ins b]) = Some v"
      "vrun env k xs = Some (vspace_of m ?st)" "vstep (e_zeroed env) (next_ins b) (vspace_of m ?st) = Some (a, v)"
      "vs_end v \<le> heap_end m + 256 * frames_left (k_mram (o_k s))"
    using next_vstep [OF inv t c p more] by blast
  from run_vstep [OF d(1) p(2) m(1,2) d(2) more m(4,9,10)] r obtain m' where
    k': "mem_inv (o_k s')" "o_pcbs s' = (o_pcbs s)(p \<mapsto> b\<lparr>pc := pc b + 1, mm := Some m'\<rparr>)" "vspace_of m' (storage (k_mram (o_k s'))) = v"
      "resident m'" "blank_free (k_mram (o_k s'))" "256 * frames_left (k_mram (o_k s')) + vs_end v = 256 * frames_left (k_mram (o_k s)) + heap_end m"
    and others: "\<forall>q b' n. q \<noteq> p \<longrightarrow> o_pcbs s q = Some b' \<longrightarrow> mm b' = Some n \<longrightarrow> resident n \<longrightarrow>
      vspace_of n (storage (k_mram (o_k s'))) = vspace_of n ?st" by auto
  have alone: "j \<noteq> k" if "q \<noteq> p" "l q = Some (j, ys, w0)" for q j ys w0
  proof
    assume "j = k"
    with that(2) p(1) have "index_of l q = index_of l p" by (simp add: index_of_def)
    moreover have "inj_on (index_of l) (dom l)" using trace_invD(4) [OF t] by (simp add: index_inv_def)
    ultimately show False using that p(1) by (auto dest: inj_onD)
  qed
  have early: "k < loads env (o_ld s)"
  proof -
    have "k \<in> index_of l ` dom l" using p(1) by (metis domI fst_conv image_eqI index_of_def option.sel)
    then show ?thesis using trace_invD(4) [OF t] unfolding index_inv_def by blast
  qed
  have sum: "(\<Sum>i<?n. vend env i ((ex(k := xs @ [next_ins b])) i)) =
      (\<Sum>i<?n. vend env i (ex i)) - heap_end m + vs_end v"
    using sum_fun_upd [OF m(3), of "\<lambda>i. vend env i" "xs @ [next_ins b]" ex] m(5,7,8) by (simp add: fun_upd_apply vend_def)
  show ?thesis
    unfolding private_inv_def
  proof (intro conjI allI impI)
    fix q j ys w0 assume q: "(l(p \<mapsto> (k, xs @ [next_ins b], w'))) q = Some (j, ys, w0)"
    show "(ex(k := xs @ [next_ins b])) j = ys" using q alone [of q j ys w0] d(3) [of q j ys w0] by (auto split: if_splits)
    show "\<exists>b m. o_pcbs s' q = Some b \<and> mm b = Some m \<and> resident m \<and>
        vrun env j ys = Some (vspace_of m (storage (k_mram (o_k s'))))"
    proof (cases "q = p")
      case True
      with q k' m(7) show ?thesis by auto
    next
      case False
      with q have "l q = Some (j, ys, w0)" by simp
      from d(3) [OF this] obtain b' n where "o_pcbs s q = Some b'" "mm b' = Some n" "resident n" "vrun env j ys = Some (vspace_of n ?st)"
        by blast
      with False others k'(2) show ?thesis by auto
    qed
  next
    fix i show "\<exists>ys. prog_text env i = (ex(k := xs @ [next_ins b])) i @ ys" using m(6) d(5) by simp
  next
    show "256 * frames_left (k_mram (o_k s')) +
        (\<Sum>i<?n. vend env i ((ex(k := xs @ [next_ins b])) i)) = ram_bytes env"
      using sum k'(6) d(6) by simp
  qed (use k' d(4) early ld in auto)
qed

lemma cpu_private:
  assumes inv: "private_inv env s l ex" and t: "trace_inv env (num_cpus (e_cfg env)) s l fin" and c: "contained env"
    and os: "os_inv (num_cpus (e_cfg env)) s" and i: "i < num_cpus (e_cfg env)" "is_running i s"
    and r: "cpu_routine env i s = Some (Inr s')" and l: "replay tr = Some (l, fin)"
    and l': "replay (tr @ cpu_events env i s) = Some (l', fin')" and t': "trace_inv env (num_cpus (e_cfg env)) s' l' fin'"
  shows "\<exists>ex'. private_inv env s' l' ex'"
proof -
  have mem: "mem_inv (o_k s')"
    using cpu_routine_touches [OF private_invD(1) [OF inv] r private_cautious [OF inv t c os] i(1)] by (simp add: touches_only_def)
  have ld: "o_ld s' = o_ld s" using cpu_act_others [OF cpu_routine_act [OF os i r]] by blast
  show ?thesis
  proof (cases "c_pc (o_cpu s i) = CRun")
    case False
    note mmr = cpu_routine_mm [OF r False]
    have sub: "\<exists>w0. l p = Some (j, xs, w0)" if "l' p = Some (j, xs, w)" for p j xs w
      using cpu_events_silent [OF False, of env] l l' that track_silent by auto
    have "private_inv env s' l' ex"
    proof (rule private_same [OF inv mem mmr(1)])
      show "loads env (o_ld s') = loads env (o_ld s)" by (simp add: ld)
      fix p j xs w assume "l' p = Some (j, xs, w)"
      with sub life_block [OF t'] mmr(2) show "(\<exists>w0. l p = Some (j, xs, w0)) \<and>
          (\<exists>b'. o_pcbs s' p = Some b' \<and> (\<forall>b. o_pcbs s p = Some b \<longrightarrow> mm b' = mm b))" by metis
    qed
    then show ?thesis by blast
  next
    case True
    with r obtain p b st out where p: "c_proc (o_cpu s i) = Some p" "o_pcbs s p = Some b"
        and e: "run (e_zeroed env) p (o_k s) = Inr (st, out, o_k s')"
      by (auto simp: cpu_routine_def Let_def cpu_run_def the_proc_def bindR_eq_Inr split: option.splits)
    have "owned (o_cpu s i) = Some p" using True p(1) by (simp add: owned_def)
    from held_in_progress [OF os i(1) this] True have "p \<in> dom l" using trace_invD(2) [OF t] by simp
    then obtain k xs w where x: "l p = Some (k, xs, w)" by auto
    show ?thesis
    proof (cases "pc b < c_size (code b)")
      case False
      with e p have "o_k s' = o_k s" by (auto simp: run_def deref_Some)
      moreover have "l' = l" using l l' True p False by (simp add: cpu_events_def Let_def)
      ultimately have "private_inv env s' l' ex" using inv ld by (simp add: private_inv_def)
      then show ?thesis by blast
    next
      case True': True
      have "cpu_events env i s = [Executed i p (next_ins b) out]" using True p e True' by (simp add: cpu_events_def Let_def next_ins_def)
      then obtain w' where "l' = l(p \<mapsto> (k, xs @ [next_ins b], w'))" using l l' x by (auto split: place.splits if_splits)
      with exec_private [OF inv t c x p(2) True' e ld, of w'] show ?thesis by blast
    qed
  qed
qed

section \<open>A step of the loader\<close>

lemma ld_private:
  assumes inv: "private_inv env s l ex" and t: "trace_inv env (num_cpus (e_cfg env)) s l fin" and cl: "clean_env env"
    and p: "p \<notin> dom (o_pcbs s)" and r: "ld_routine env p s = Inr (Returns s')" and l: "replay tr = Some (l, fin)"
    and l': "replay (tr @ ld_events env s) = Some (l', fin')"
  shows "private_inv env s' l' ex"
proof -
  have mem: "mem_inv (o_k s')" using ld_routine_mem [OF private_invD(1) [OF inv] cl p r] by blast
  have keep: ?thesis if "ld_events env s = []" "k_mram (o_k s') = k_mram (o_k s)" "loads env (o_ld s') = loads env (o_ld s)"
      "\<And>q. o_pcbs s q \<noteq> None \<Longrightarrow> o_pcbs s' q = o_pcbs s q"
  proof (rule private_same [OF inv mem that(2,3)])
    have "l' = l" using l l' that(1) by simp
    then show "(\<exists>w0. l q = Some (i, xs, w0)) \<and> (\<exists>b'. o_pcbs s' q = Some b' \<and> (\<forall>b. o_pcbs s q = Some b \<longrightarrow> mm b' = mm b))"
      if "l' q = Some (i, xs, w)" for q i xs w
      using that life_block [OF t] \<open>\<And>q. o_pcbs s q \<noteq> None \<Longrightarrow> o_pcbs s' q = o_pcbs s q\<close> by fastforce
  qed
  show ?thesis
  proof (cases "o_ld s")
    case (LLoad i)
    then have e: "ld_events env s = []" by (simp add: ld_events_def)
    show ?thesis
    proof (cases "i < length (ld_processes (e_cfg env))")
      case True
      with r LLoad have "ld_load env p i s = Inr (Returns s')" by (simp add: ld_routine_def)
      then obtain b n' where "s' = set_pcbs ((o_pcbs s)(p \<mapsto> b)) (s\<lparr>o_pid := n', o_ld := LWait i p\<rparr>)"
        by (rule ld_load_Returns) blast
      with LLoad p show ?thesis by (intro keep [OF e]) (auto simp: loads_def)
    next
      case False
      with r LLoad have s': "s' = s\<lparr>o_done := True, o_ld := LDetach\<rparr>" by (simp add: ld_routine_def)
      have "i = length (ld_processes (e_cfg env))" using trace_invD(1) [OF t] False LLoad by (simp add: ld_wf_def loads_def)
      with e LLoad s' show ?thesis by (intro keep) (simp_all add: loads_def)
    qed
  next
    case (LWait i q)
    let ?a = "ld_processes (e_cfg env) ! i"
    show ?thesis
    proof (cases "current_time (o_tm s) < l_start ?a")
      case True
      with r LWait have "s' = s\<lparr>o_tm := next_slot_done (num_cpus (e_cfg env)) (o_tm s)\<rparr>" by (simp add: ld_routine_def)
      moreover have "ld_events env s = []" using LWait True by (simp add: ld_events_def)
      ultimately show ?thesis by (intro keep) simp_all
    next
      case False
      let ?mm = "init_mm (e_zeroed env) (e_pgd0 env i) (e_mm0 env i)"
      from r LWait False have "ld_add env q i s = Inr (Returns s')" by (simp add: ld_routine_def)
      then obtain b h sc where b: "o_pcbs s q = Some b"
          and a: "add_proc q ((o_pcbs s)(q \<mapsto> b\<lparr>mm := Some ?mm, active_mswp := 0\<rparr>)) (o_sched s) = Inr (h, sc)"
          and s': "s' = set_pcbs h (set_sched sc (s\<lparr>o_ld := LNext (i + 1)\<rparr>))"
        by (auto simp: ld_add_def Let_def bindR_eq_Inr)
      from a have h: "h = (o_pcbs s)(q \<mapsto> b\<lparr>mm := Some ?mm, active_mswp := 0, queues_set := True\<rparr>)"
        by (auto elim: add_proc_InrE)
      have "ld_events env s = [Loaded i q (l_path ?a) (pid b) (l_prio ?a)]" using LWait False b by (simp add: ld_events_def Let_def)
      then have lq: "l' = l(q \<mapsto> (i, [], Waiting))" using l l' by (auto split: if_splits)
      note d = private_invD [OF inv]
      have ex: "ex i = []" using d(4) LWait by (simp add: loads_def)
      have res: "resident ?mm" by (simp add: resident_def heap_end_init)
      show ?thesis unfolding private_inv_def
      proof (intro conjI allI impI)
        fix q' j xs w assume q': "l' q' = Some (j, xs, w)"
        show "ex j = xs" using q' lq ex d(3) [of q' j xs w] by (auto split: if_splits)
        show "\<exists>b m. o_pcbs s' q' = Some b \<and> mm b = Some m \<and> resident m \<and>
            vrun env j xs = Some (vspace_of m (storage (k_mram (o_k s'))))"
          using q' lq d(3) [of q' j xs w] res by (auto simp: s' h vrun_def vspace0_any split: if_splits)
      qed (use mem d(2,4,5,6) LWait in \<open>auto simp: s' loads_def\<close>)
    qed
  next
    case (LNext i)
    with r have "s' = s\<lparr>o_tm := next_slot_done (num_cpus (e_cfg env)) (o_tm s), o_ld := LLoad i\<rparr>" by (simp add: ld_routine_def)
    with LNext show ?thesis by (intro keep) (simp_all add: loads_def ld_events_def)
  next
    case LDetach
    with r have "s' = s\<lparr>o_tm := detach_event (num_cpus (e_cfg env)) (o_tm s), o_ld := LEnded\<rparr>" by (simp add: ld_routine_def)
    with LDetach show ?thesis by (intro keep) (simp_all add: loads_def ld_events_def)
  next
    case LEnded
    with r have "s' = s" by (simp add: ld_routine_def)
    with LEnded show ?thesis by (intro keep) (simp_all add: ld_events_def)
  qed
qed

section \<open>Every run\<close>

lemma boot_private:
  assumes m: "main env mram0 mswp0 = Inr s" and d: "length mswp0 = PAGING_MAX_MMSWP" "list_all (\<lambda>d. free_fp_list d = Null) (mram0 # mswp0)"
    and cl: "clean_env env"
  shows "private_inv env s Map.empty (\<lambda>_. [])"
proof -
  from m obtain ram where r: "init_memphy (e_zeroed env) mram0 (memramsz (e_cfg env)) 1 = Inr ram" and s: "k_mram (o_k s) = ram" "o_ld s = LLoad 0"
    by (auto simp: main_def Let_def bindR_eq_Inr)
  let ?sz = "memramsz (e_cfg env)"
  have sz: "clean_size (e_zeroed env) ?sz" using cl by (simp add: clean_env_def)
  then have "0 \<le> ?sz" by (simp add: clean_size_def)
  from init_memphy_free_list [OF this, of "e_zeroed env" mram0 1] r d(2) have
    f: "storage ram = (\<lambda>_. 0)" "free_fp_list ram = (if ?sz < 256 then Null
      else if ?sz < 512 then Node 0 (fresh_ptr (e_zeroed env)) else chain_of [0..?sz div 256 - 1])" by auto
  have "int (length (free_frames ram)) = ?sz div 256"
  proof -
    consider "?sz < 256" | "256 \<le> ?sz" "?sz < 512" | "512 \<le> ?sz" by linarith
    then show ?thesis
    proof cases
      case 1
      with \<open>0 \<le> ?sz\<close> f show ?thesis by (simp add: free_frames_def)
    next
      case 2
      then have "?sz div 256 = 1" by (intro int_div_pos_eq [of _ _ _ "?sz - 256"]) auto
      with 2 sz f show ?thesis by (simp add: free_frames_def clean_size_def)
    next
      case 3
      with f show ?thesis by (simp add: free_frames_def)
    qed
  qed
  then show ?thesis using s f(1) main_mem_inv [OF m cl d]
    by (simp add: private_inv_def blank_free_def frames_left_def ram_bytes_def)
qed

lemma clean_run_private:
  "clean_run env tr s \<Longrightarrow> good_env env \<Longrightarrow> clean_env env \<Longrightarrow> contained env \<Longrightarrow>
     \<exists>l fin ex. replay tr = Some (l, fin) \<and> trace_inv env (num_cpus (e_cfg env)) s l fin \<and> private_inv env s l ex"
proof (induction rule: clean_run.induct)
  case (boot mram0 mswp0 s)
  obtain l fin where "replay [] = Some (l, fin)" "trace_inv env (num_cpus (e_cfg env)) s l fin"
    using os_run_trace [OF os_run.boot [OF boot(1)] boot(4)] by blast
  with boot_private [OF boot(1-3,5)] show ?case by auto
next
  case (move tr s evs s')
  from move obtain l fin ex where l: "replay tr = Some (l, fin)" and t: "trace_inv env (num_cpus (e_cfg env)) s l fin"
    and inv: "private_inv env s l ex" by blast
  note run = clean_run_run [OF move(1)]
  obtain l' fin' where l': "replay (tr @ evs) = Some (l', fin')" and t': "trace_inv env (num_cpus (e_cfg env)) s' l' fin'"
    using os_run_trace [OF os_move_run [OF move(2) run] move(4)] by blast
  have timer: "\<exists>ex'. private_inv env s' l' ex'" if "evs = []" "o_k s' = o_k s" "o_ld s' = o_ld s"
  proof -
    have "l' = l" using l l' that(1) by simp
    with inv that(2,3) have "private_inv env s' l' ex" by (simp add: private_inv_def)
    then show ?thesis by blast
  qed
  from move(2) have "\<exists>ex'. private_inv env s' l' ex'"
  proof cases
    case (cpu i)
    from cpu_private [OF inv t move(6) os_reach_inv [OF os_run_reach [OF run] move(4)] cpu(2,3,4) l l' [unfolded cpu(1)] t'] show ?thesis .
  next
    case (loader p)
    from ld_private [OF inv t move(5) loader(3,4) l l' [unfolded loader(1)]] show ?thesis by blast
  qed (use timer in simp_all)
  with l' t' show ?case by blast
qed

section \<open>The instruction that is executed\<close>

text \<open>It is the next one of its program, it does not fault, and its answer is that of \<open>vstep\<close>.\<close>

lemma private_runs:
  assumes inv: "private_inv env s l ex" and t: "trace_inv env (num_cpus (e_cfg env)) s l fin" and c: "contained env"
    and os: "os_inv (num_cpus (e_cfg env)) s" and i: "i < num_cpus (e_cfg env)" "c_pc (o_cpu s i) = CRun"
  shows "\<exists>p b st out k. c_proc (o_cpu s i) = Some p \<and> o_pcbs s p = Some b \<and>
    run (e_zeroed env) p (o_k s) = Inr (st, out, k) \<and>
    (pc b < c_size (code b) \<longrightarrow> (\<exists>j xs w v v'. l p = Some (j, xs, w) \<and> vrun env j xs = Some v \<and>
       vstep (e_zeroed env) (next_ins b) v = Some (st, v')))"
proof -
  obtain p where p: "c_proc (o_cpu s i) = Some p" using os_invD(4) [OF os, of i] i(2) by (auto simp: cpu_shape_def)
  then have "owned (o_cpu s i) = Some p" using i(2) by (simp add: owned_def)
  from held_in_progress [OF os i(1) this] i(2) have "p \<in> dom l" using trace_invD(2) [OF t] by simp
  then obtain j xs w where l: "l p = Some (j, xs, w)" by auto
  obtain b where b: "o_pcbs s p = Some b" using trace_invD(3) [OF t l] by (auto simp: life_ok_def)
  show ?thesis
  proof (cases "pc b < c_size (code b)")
    case False
    with p b show ?thesis by (auto simp: run_def deref_Some)
  next
    case True
    from next_vstep [OF inv t c l b True] obtain m st v where m: "mm b = Some m" "resident m" "pc b < length (c_text (code b))"
        "vrun env j xs = Some (vspace_of m (storage (k_mram (o_k s))))"
        "vstep (e_zeroed env) (next_ins b) (vspace_of m (storage (k_mram (o_k s)))) = Some (st, v)"
        "vs_end v \<le> heap_end m + 256 * frames_left (k_mram (o_k s))" by blast
    from run_vstep [OF private_invD(1) [OF inv] b m(1,2) private_invD(2) [OF inv] True m(3,5,6)] obtain out k
      where "run (e_zeroed env) p (o_k s) = Inr (st, out, k)" by blast
    with p b l m(4,5) show ?thesis by blast
  qed
qed

section \<open>To the end\<close>

definition loadable :: "os_env \<Rightarrow> bool" where
  "loadable env \<longleftrightarrow> (\<forall>i<length (ld_processes (e_cfg env)). \<forall>n. \<exists>b n'.
     load (e_pcb0 env i) (e_text0 env i) n (l_path (ld_processes (e_cfg env) ! i))
       (e_file env (l_path (ld_processes (e_cfg env) ! i))) = Inr (Returns b, n'))"

lemma clean_no_fault:
  assumes r: "clean_run env tr s" and g: "good_env env" and c: "clean_env env" "contained env" and l: "loadable env"
    and n: "0 < num_cpus (e_cfg env)" "clock_limit env < 2 ^ 64" "slices_fit env"
  shows "\<not> cpu_faults env s \<and> \<not> loader_fails env s"
proof
  note rr = clean_run_run [OF r]
  note os = os_reach_inv [OF os_run_reach [OF rr] g]
  show "\<not> loader_fails env s" by (rule loader_runs [OF rr g]) (use l in \<open>auto simp: loadable_def procs_def\<close>)
  show "\<not> cpu_faults env s"
  proof
    assume "cpu_faults env s"
    then obtain i x where i: "i < num_cpus (e_cfg env)" and pc: "c_pc (o_cpu s i) = CRun" and x: "cpu_routine env i s = Some (Inl x)"
      by (auto simp: cpu_faults_def)
    obtain l fin ex where t: "trace_inv env (num_cpus (e_cfg env)) s l fin" "private_inv env s l ex"
      using clean_run_private [OF r g c] by blast
    from private_runs [OF t(2,1) c(2) os i pc] obtain p b st out k where p: "c_proc (o_cpu s i) = Some p"
      "o_pcbs s p = Some b" "run (e_zeroed env) p (o_k s) = Inr (st, out, k)" by blast
    with x pc slice_updates [OF rr g n i pc] the_proc_held [OF p(1,2)] show False
      by (auto simp: cpu_routine_def Let_def cpu_run_def)
  qed
qed

section \<open>Properties\<close>

text \<open>C3: Private memory in every interleaving: when the programs stay inside their heaps and together ask for no more pages than
  RAM has (\<open>contained\<close>), then at every moment of every run the memory of a process is what its own
  instructions so far give on a private memory that was empty at the start, whatever the
  other processes and processors have done; and an instruction that a processor is about to execute does not fault
  and gives the answer that it gives on the private memory.\<close>

theorem memory_is_private:
  assumes "clean_run env tr s" and "good_env env" and "clean_env env" and "contained env"
  shows "\<exists>l fin. replay tr = Some (l, fin) \<and>
    (\<forall>p j xs w. l p = Some (j, xs, w) \<longrightarrow> (\<exists>b m. o_pcbs s p = Some b \<and> mm b = Some m \<and>
       vexec (e_zeroed env) xs (vspace0 env j) = Some (vspace_of m (storage (k_mram (o_k s)))))) \<and>
    (\<forall>i<num_cpus (e_cfg env). c_pc (o_cpu s i) = CRun \<longrightarrow>
       (\<exists>p b st out k. c_proc (o_cpu s i) = Some p \<and> o_pcbs s p = Some b \<and> run (e_zeroed env) p (o_k s) = Inr (st, out, k) \<and>
         (pc b < c_size (code b) \<longrightarrow> (\<exists>j xs w v v'. l p = Some (j, xs, w) \<and>
            vexec (e_zeroed env) xs (vspace0 env j) = Some v \<and> vstep (e_zeroed env) (next_ins b) v = Some (st, v')))))"
proof -
  obtain l fin ex where l: "replay tr = Some (l, fin)" and t: "trace_inv env (num_cpus (e_cfg env)) s l fin"
    and inv: "private_inv env s l ex" using clean_run_private [OF assms] by blast
  note os = os_reach_inv [OF os_run_reach [OF clean_run_run [OF assms(1)]] assms(2)]
  from l private_invD(3) [OF inv] private_runs [OF inv t assms(4) os] show ?thesis
    by (intro exI [of _ l] exI [of _ fin]) (simp add: vrun_def, blast)
qed

text \<open>C12: With any positive number of processors, at most \<open>MAX_QUEUE_SIZE\<close> = 10 processes that can be loaded and whose programs
  are contained, use no system call 101 (\<open>good_env\<close>) and have less than \<open>2 ^ 30\<close> instructions together, one more counted for each
  process (\<open>slices_fit\<close>; with one processor and a positive time slot there is no such limit), with
  memory devices that start empty (\<open>clean_env\<close>, \<open>clean_run\<close>) and a \<open>clock_limit\<close> below \<open>2 ^ 64\<close>, never bring the machine to a
  stop before its end.  The limit of ten processes keeps the ready queues from dropping one (\<open>add_and_put_proc_effect\<close>).  No
  instruction faults, and from every state of every run the machine can go on until everything has stopped and all programs
  have been executed.  Together with \<open>every_schedule_ends\<close> no schedule ends in any other way.\<close>

theorem contained_machine_completes:
  assumes "clean_run env tr s" and "good_env env" and "clean_env env" and "contained env" and "loadable env"
    and "0 < num_cpus (e_cfg env)" and "clock_limit env < 2 ^ 64" and "slices_fit env"
    and "length (ld_processes (e_cfg env)) \<le> MAX_QUEUE_SIZE"
  shows "\<not> cpu_faults env s \<and> (\<exists>evs s' fin. clean_run env (tr @ evs) s' \<and> ended env s' \<and> o_pcbs s' = Map.empty \<and>
    replay (tr @ evs) = Some (Map.empty, fin) \<and>
    mset fin = mset (map (\<lambda>i. (i, c_text (program env i))) [0..<length (ld_processes (e_cfg env))]))"
proof -
  note ok = clean_no_fault [OF _ assms(2-8)]
  have "\<exists>evs s'. clean_run env (tr @ evs) s' \<and> ended env s'"
    by (rule can_continue [of env "clean_run env", OF assms(2,6,7) clean_run_run ok _ assms(1)])
      (use step_move clean_run.move in blast)+
  then obtain evs s' where e: "clean_run env (tr @ evs) s'" "ended env s'" by blast
  then have "\<forall>i<num_cpus (e_cfg env). c_pc (o_cpu s' i) = CStopped" by (simp add: ended_def)
  from stopped_completed [OF clean_run_run [OF e(1)] assms(2,6,9) this] e ok [OF assms(1)] show ?thesis by blast
qed

section \<open>Witnesses\<close>

lemma iso_clean: "iso_reach env s \<Longrightarrow> \<exists>tr. clean_run env tr s"
proof (induction rule: iso_reach.induct)
  case (step s s')
  then show ?case using step_move clean_run.move by blast
qed (use clean_run.boot in blast)

text \<open>The space of the process of the demonstrations at its start, and what its program does to it.\<close>

definition space0 :: vspace where
  "space0 = \<lparr>vs_free = Node \<lparr>rg_start = 0, rg_end = 0\<rparr> Null, vs_sym = replicate 30 \<lparr>rg_start = 0, rg_end = 0\<rparr>,
     vs_end = 0, vs_byte = (\<lambda>_. 0)\<rparr>"

lemma vspace0_prog: "vspace0 (prog_env ts prog) i = space0"
proof -
  let ?m = "init_mm True (\<lambda>_. 0) clean_mm"
  have m: "mmap ?m = Node \<lparr>vm_id = 1, vm_start = 0, vm_end = 0, sbrk = 0,
      vm_freerg_list = Node \<lparr>rg_start = 0, rg_end = 0\<rparr> Null\<rparr> Null"
      "symrgtbl ?m = replicate 30 \<lparr>rg_start = 0, rg_end = 0\<rparr>"
    by (simp_all add: init_mm_def Let_def init_vm_rg_def to_u64_def enlist_vm_rg_node_def clean_mm_def)
  then show ?thesis
    by (intro vspace_eqI) (simp_all add: vspace0_def space0_def vspace_of_def heap_end_def fun_eq_iff)
qed

lemma same_vstep: "same_ins i j \<Longrightarrow> vstep z i v = vstep z j v"
  by (cases "opcode j") (auto simp: same_ins_def operands_def vstep_def)

lemma same_vexec: "list_all2 same_ins xs ys \<Longrightarrow> vexec z xs v = vexec z ys v"
  by (induction xs ys arbitrary: v rule: list_all2_induct) (simp_all add: same_vstep split_def)

lemma prog_program:
  assumes "prog_ok prog"
  shows "list_all2 same_ins (prog_text (prog_env ts prog) 0) prog"
proof -
  let ?e = "prog_env ts prog"
  obtain b where b: "load sample_pcb (e_text0 ?e 0) 1 ''input/proc/p0'' (e_file ?e ''input/proc/p0'') = Inr (Returns b, to_u32 (1 + 1))"
      "has_prog b prog"
    using prog_load [OF assms, of "''input/proc/p0''" ts 0 1 "''input/proc/p0''"] by auto
  then have "program ?e 0 = code b" by (simp add: program_def Let_def)
  with b(2) show ?thesis by (simp add: has_prog_def)
qed

lemma prog_contained:
  assumes "prog_ok prog" and "vexec True prog space0 = Some v" and "vs_end v \<le> 1024"
  shows "contained (prog_env ts prog)"
proof -
  have "vrun (prog_env ts prog) 0 (prog_text (prog_env ts prog) 0) = Some v"
    using same_vexec [OF prog_program [OF assms(1)]] assms(2) by (simp add: vrun_def vspace0_prog)
  with assms(3) show ?thesis by (simp add: contained_def vend_def ram_bytes_def)
qed

text \<open>A program that allocates 300 bytes, writes 100 to one of them and reads it back.\<close>

definition mem_prog :: "inst_t list" where
  "mem_prog = [\<lparr>opcode = ALLOC, arg_0 = 300, arg_1 = 3, arg_2 = 0, arg_3 = 0\<rparr>,
     \<lparr>opcode = WRITE, arg_0 = 100, arg_1 = 3, arg_2 = 20, arg_3 = 0\<rparr>,
     \<lparr>opcode = READ, arg_0 = 3, arg_1 = 20, arg_2 = 3, arg_3 = 0\<rparr>]"

lemma alloc_vstep:
  "\<exists>v. vstep True \<lparr>opcode = ALLOC, arg_0 = 300, arg_1 = 3, arg_2 = 0, arg_3 = 0\<rparr> space0 = Some (0, v) \<and> vs_end v = 512 \<and>
     vs_sym v ! 3 = \<lparr>rg_start = 0, rg_end = 300\<rparr>"
  by (simp add: vstep_def v_alloc_def space0_def to_i32_def grow_def to_u64_def heap_overlap_def Let_def)

lemma mem_prog_space: "\<exists>v. vexec True mem_prog space0 = Some v \<and> vs_end v = 512"
proof -
  obtain v where v: "vstep True (mem_prog ! 0) space0 = Some (0, v)" "vs_end v = 512" "vs_sym v ! 3 = \<lparr>rg_start = 0, rg_end = 300\<rparr>"
    using alloc_vstep by (auto simp: mem_prog_def)
  then show ?thesis by (simp add: mem_prog_def vstep_def v_addr_def region_addr_def to_u64_id to_i32_def)
qed

text \<open>After its allocation the process has a page, and its memory is that of the instructions it has executed.\<close>

theorem memory_is_private_witness:
  "\<exists>tr s b m xs. clean_run (prog_env 2 alloc_prog) tr s \<and> o_pcbs s 1 = Some b \<and> mm b = Some m \<and> online m 0 \<and>
     vexec True xs space0 = Some (vspace_of m (storage (k_mram (o_k s))))"
proof -
  let ?e = "prog_env 2 alloc_prog"
  obtain s b m where r: "iso_reach ?e s" "o_pcbs s 1 = Some b" "mm b = Some m" "online m 0"
      "c_pc (o_cpu s 0) = CNext" "c_proc (o_cpu s 0) = Some 1" using alloc_ran by blast
  obtain tr where tr: "clean_run ?e tr s" using iso_clean [OF r(1)] by blast
  have "\<exists>v. vexec True alloc_prog space0 = Some v \<and> vs_end v = 512" using alloc_vstep by (auto simp: alloc_prog_def)
  then have c: "contained ?e" using prog_contained [OF progs_ok(2)] by auto
  obtain l fin where l: "replay tr = Some (l, fin)"
    and priv: "\<And>p j xs w. l p = Some (j, xs, w) \<Longrightarrow> \<exists>b m. o_pcbs s p = Some b \<and> mm b = Some m \<and>
       vexec (e_zeroed ?e) xs (vspace0 ?e j) = Some (vspace_of m (storage (k_mram (o_k s))))"
    using memory_is_private [OF tr alloc_good prog_clean c] by blast
  note rr = clean_run_run [OF tr]
  obtain fin' l' where "replay tr = Some (l', fin')" and t: "trace_inv ?e (num_cpus (e_cfg ?e)) s l' fin'"
    using os_run_trace [OF rr alloc_good] by blast
  with l have t: "trace_inv ?e 1 s l fin" by simp
  have "owned (o_cpu s 0) = Some 1" using r(5,6) by (simp add: owned_def)
  from held_in_progress [OF _ _ this] os_reach_inv [OF os_run_reach [OF rr] alloc_good] r(5)
  have "in_progress 1 s 1" by simp
  then have "1 \<in> dom l" using trace_invD(2) [OF t] by simp
  then obtain j xs w where "l 1 = Some (j, xs, w)" by auto
  from priv [OF this] r(2,3) have "vexec True xs space0 = Some (vspace_of m (storage (k_mram (o_k s))))"
    by (simp add: vspace0_prog)
  with tr r show ?thesis by blast
qed

lemma mem_prog_ok: "prog_ok mem_prog"
  by (simp add: prog_ok_def mem_prog_def valid_ins_def operands_def)

lemma mem_prog_program:
  "length (prog_text (prog_env 2 mem_prog) 0) = 3" "good_env (prog_env 2 mem_prog)" "loadable (prog_env 2 mem_prog)"
proof -
  show "length (prog_text (prog_env 2 mem_prog) 0) = 3"
    using prog_program [OF mem_prog_ok, of 2] by (auto simp: mem_prog_def dest: list_all2_lengthD)
  show "good_env (prog_env 2 mem_prog)"
  proof (rule prog_good [OF mem_prog_ok])
    show "no_kill b" if "has_prog b mem_prog" for b
      using that by (auto simp: no_kill_def mem_prog_def has_prog_def list_all2_Cons2 same_ins_def)
  qed
  show "loadable (prog_env 2 mem_prog)"
    using prog_load [OF mem_prog_ok, of "''input/proc/p0''" 2 0] by (auto simp: loadable_def simp del: of_char_of) blast
qed

text \<open>The same programs on another number of processors.\<close>

definition on_cpus :: "nat \<Rightarrow> os_env \<Rightarrow> os_env" where
  "on_cpus n env = env\<lparr>e_cfg := (e_cfg env)\<lparr>num_cpus := n\<rparr>\<rparr>"

lemma on_cpus_simps [simp]:
  "num_cpus (e_cfg (on_cpus n env)) = n" "ld_processes (e_cfg (on_cpus n env)) = ld_processes (e_cfg env)"
  "memramsz (e_cfg (on_cpus n env)) = memramsz (e_cfg env)" "memswpsz (e_cfg (on_cpus n env)) = memswpsz (e_cfg env)"
  "time_slot (e_cfg (on_cpus n env)) = time_slot (e_cfg env)" "program (on_cpus n env) i = program env i"
  "good_env (on_cpus n env) = good_env env" "clean_env (on_cpus n env) = clean_env env"
  "loadable (on_cpus n env) = loadable env" "contained (on_cpus n env) = contained env"
  "work (on_cpus n env) = work env" "clock_limit (on_cpus n env) = clock_limit env"
  by (simp_all add: on_cpus_def program_def good_env_def clean_env_def loadable_def contained_def vrun_def vend_def vspace0_def
      ram_bytes_def work_def procs_def clock_limit_def last_start_def)

text \<open>Two processors allocate, write and read to the end.\<close>

theorem contained_machine_completes_witness:
  "\<exists>tr s xs. clean_run (on_cpus 2 (prog_env 2 mem_prog)) tr s \<and> ended (on_cpus 2 (prog_env 2 mem_prog)) s \<and>
     replay tr = Some (Map.empty, [(0, xs)]) \<and> list_all2 same_ins xs mem_prog"
proof -
  let ?d = "prog_env 2 mem_prog"
  let ?e = "on_cpus 2 ?d"
  obtain s0 where "main ?e null_memphy (replicate 4 null_memphy) = Inr s0" using main_starts [of ?e] by auto
  then have r: "clean_run ?e [] s0"
    by (rule clean_run.boot) (simp_all add: PAGING_MAX_MMSWP_def null_memphy_def list_all_iff)
  have c: "contained ?e" using prog_contained [OF mem_prog_ok] mem_prog_space by auto
  have w: "work ?d = 4" using mem_prog_program(1) program_size [of ?d 0] by (simp add: work_def procs_def)
  then have lim: "clock_limit ?e < 2 ^ 64" by (simp add: clock_limit_def last_start_def procs_def)
  have fit: "slices_fit ?e" using w by (simp add: slices_fit_def)
  have e: "good_env ?e" "clean_env ?e" "loadable ?e" using mem_prog_program(2,3) prog_clean by simp_all
  obtain evs s' fin where f: "clean_run ?e ([] @ evs) s'" "ended ?e s'" "replay ([] @ evs) = Some (Map.empty, fin)"
      "mset fin = mset (map (\<lambda>i. (i, c_text (program ?e i))) [0..<length (ld_processes (e_cfg ?e))])"
    using contained_machine_completes [OF r e(1,2) c e(3) _ lim fit] by (auto simp: MAX_QUEUE_SIZE_def)
  from f(4) have "fin = [(0, prog_text ?d 0)]" by simp
  with f prog_program [OF mem_prog_ok, of 2] show ?thesis by (intro exI [of _ evs] exI [of _ s']) simp
qed

end
