(* ===== verification/Mem_Test.thy ===== *)
theory Mem_Test imports Cpu Loader Legacy_Mem begin

text \<open>
  The stand-alone program of \<^verbatim>\<open>src/paging.c\<close> (target \<^verbatim>\<open>mem\<close> of the Makefile): it loads the same process twice, runs
  the two blocks in turn and dumps the old memory.  It never calls \<open>init_mm\<close>, so with
  \<open>MM_PAGING\<close> it works for programs that do not use the memory only.
\<close>

section \<open>The program\<close>

text \<open>
  The loop reads \<open>proc->code->size\<close> before every round; no instruction writes it, so the number of rounds is
  fixed, but the block must be there.
\<close>

fun run_both :: "bool \<Rightarrow> nat \<Rightarrow> pcb_ref \<Rightarrow> pcb_ref \<Rightarrow> kernel \<Rightarrow> kernel res" where
  "run_both zeroed 0 proc ld k = bindR (deref (k_pcbs k) proc) (\<lambda>_. Inr k)"
| "run_both zeroed (Suc n) proc ld k =
    bindR (deref (k_pcbs k) proc) (\<lambda>_.
    bindR (run zeroed proc k) (\<lambda>(_, _, k1).
    bindR (run zeroed ld k1) (\<lambda>(_, _, k2). run_both zeroed n proc ld k2)))"

text \<open>
  \<open>ld\<close> and \<open>proc\<close> are the addresses that \<open>malloc\<close> returns, \<open>pcb0\<close> and \<open>text0\<close> what it leaves in the two blocks and
  their texts; \<open>_ram\<close> and \<open>_mem_stat\<close> are static, hence empty.  The result is what \<open>dump\<close> prints.
\<close>

definition static_mem :: old_mem where
  "static_mem = \<lparr>om_ram = (\<lambda>_. 0), om_stat = replicate NUM_PAGES \<lparr>ms_proc = 0, ms_index = 0, ms_next = 0\<rparr>\<rparr>"

definition paging_main :: "bool \<Rightarrow> (nat \<Rightarrow> pcb_t) \<Rightarrow> (nat \<Rightarrow> nat \<Rightarrow> inst_t) \<Rightarrow> string option \<Rightarrow> pcb_ref \<Rightarrow> pcb_ref \<Rightarrow> kernel \<Rightarrow>
    (((int \<times> int \<times> int \<times> mem_stat) \<times> (int \<times> byte) list) list exec \<times> kernel) res" where
  "paging_main zeroed pcb0 text0 file ld proc k =
    bindR (load (pcb0 0) (text0 0) 1 ''input/p0'' file) (\<lambda>(r, n1).
      case r of
        Exits e \<Rightarrow> Inr (Exits e, k)
      | Returns b0 \<Rightarrow>
          bindR (load (pcb0 1) (text0 1) n1 ''input/p0'' file) (\<lambda>(r, _).
            case r of
              Exits e \<Rightarrow> Inr (Exits e, k)
            | Returns b1 \<Rightarrow>
                bindR (run_both zeroed (c_size (code b1)) proc ld (k\<lparr>k_pcbs := [ld \<mapsto> b0, proc \<mapsto> b1]\<rparr>))
                  (\<lambda>k'. Inr (Returns (dump static_mem), k'))))"

section \<open>Programs that only compute\<close>

lemma dump_static: "dump static_mem = []"
proof -
  have "filter (\<lambda>i. ms_proc (om_stat static_mem ! i) \<noteq> 0) [0..<NUM_PAGES] = []"
    by (simp add: static_mem_def filter_empty_conv)
  then show ?thesis unfolding dump_def by (simp only: list.map(1))
qed

definition calc_block :: "nat \<Rightarrow> nat \<Rightarrow> pcb_t \<Rightarrow> bool" where
  "calc_block n i b \<longleftrightarrow> c_size (code b) = n \<and> length (c_text (code b)) = n \<and> pc b = min i n \<and>
     (\<forall>ins\<in>set (c_text (code b)). opcode ins = CALC)"

lemma run_calc_block:
  assumes "k_pcbs k p = Some b" and "calc_block n i b"
  shows "\<exists>st k' b'. run z p k = Inr (st, NoOut, k') \<and> k_pcbs k' = (k_pcbs k)(p \<mapsto> b') \<and> calc_block n (Suc i) b'"
proof (cases "pc b < n")
  case True
  then have "opcode (c_text (code b) ! pc b) = CALC" using assms(2) by (simp add: calc_block_def)
  with True assms show ?thesis
    by (intro exI [of _ "calc p"] exI [of _ "k\<lparr>k_pcbs := (k_pcbs k)(p \<mapsto> b\<lparr>pc := pc b + 1\<rparr>)\<rparr>"] exI [of _ "b\<lparr>pc := pc b + 1\<rparr>"])
      (auto simp: run_def deref_Some exec_ins_def calc_block_def)
next
  case False
  with assms show ?thesis
    by (intro exI [of _ 1] exI [of _ k] exI [of _ b]) (auto simp: run_def deref_Some calc_block_def fun_upd_idem)
qed

lemma run_both_calc:
  assumes "k_pcbs k proc = Some b" and "calc_block n i b" and "k_pcbs k ld = Some b'" and "calc_block n i b'" and "ld \<noteq> proc"
  shows "\<exists>k'. run_both z m proc ld k = Inr k' \<and> (\<exists>b. k_pcbs k' proc = Some b \<and> calc_block n (i + m) b) \<and>
    (\<exists>b. k_pcbs k' ld = Some b \<and> calc_block n (i + m) b)"
  using assms
proof (induction m arbitrary: k b b' i)
  case 0
  then show ?case by (simp add: deref_Some)
next
  case (Suc m)
  obtain st k1 b1 where r1: "run z proc k = Inr (st, NoOut, k1)" "k_pcbs k1 = (k_pcbs k)(proc \<mapsto> b1)" "calc_block n (Suc i) b1"
    using run_calc_block [OF Suc.prems(1,2)] by blast
  from r1(2) Suc.prems(3,5) have "k_pcbs k1 ld = Some b'" by simp
  from run_calc_block [OF this Suc.prems(4)] obtain st' k2 b2 where
    r2: "run z ld k1 = Inr (st', NoOut, k2)" "k_pcbs k2 = (k_pcbs k1)(ld \<mapsto> b2)" "calc_block n (Suc i) b2" by blast
  have "k_pcbs k2 proc = Some b1" "k_pcbs k2 ld = Some b2" using r1(2) r2(2) Suc.prems(5) by simp_all
  then have k2: "k_pcbs k2 proc = Some b1" "k_pcbs k2 ld = Some b2" by blast+
  have "run_both z (Suc m) proc ld k = run_both z m proc ld k2" using r1(1) r2(1) Suc.prems(1) by (simp add: deref_Some)
  moreover have "Suc i + m = i + Suc m" by simp
  ultimately show ?case using Suc.IH [OF k2(1) r1(3) k2(2) r2(3) Suc.prems(5)] by (simp only:)
qed

lemma same_calc: "list_all2 same_ins js prog \<Longrightarrow> \<forall>i\<in>set prog. opcode i = CALC \<Longrightarrow> \<forall>i\<in>set js. opcode i = CALC"
  by (metis in_set_conv_nth list_all2_conv_all_nth same_ins_def)

section \<open>Properties\<close>

text \<open>A written program that only computes is executed to its end by both blocks, and nothing is dumped.\<close>

theorem mem_test_computes:
  assumes "\<forall>i\<in>set prog. valid_ins i \<and> opcode i = CALC" and "0 \<le> pr" and "pr < 4294967296" and "length prog < 4294967296"
    and "ld \<noteq> proc"
  shows "\<exists>k'. paging_main z pcb0 text0 (Some (show_prog pr prog)) ld proc k = Inr (Returns [], k') \<and>
    (\<forall>p\<in>{ld, proc}. \<exists>b. k_pcbs k' p = Some b \<and> pc b = length prog)"
proof -
  have v: "\<forall>i\<in>set prog. valid_ins i" and c: "\<forall>i\<in>set prog. opcode i = CALC" using assms(1) by blast+
  note l = load_show [OF v assms(2-4)]
  have blk: "calc_block (length prog) 0 b" if "code b = \<lparr>c_text = js, c_size = length prog\<rparr>" "list_all2 same_ins js prog" "pc b = 0" for b js
    using that same_calc [OF that(2) c] list_all2_lengthD [OF that(2)] by (simp add: calc_block_def)
  obtain b0 where b0: "load (pcb0 0) (text0 0) 1 ''input/p0'' (Some (show_prog pr prog)) = Inr (Returns b0, to_u32 (1 + 1))"
    "calc_block (length prog) 0 b0" using l [of "pcb0 0" "text0 0" 1 "''input/p0''"] blk by blast
  obtain b1 where b1: "load (pcb0 1) (text0 1) (to_u32 (1 + 1)) ''input/p0'' (Some (show_prog pr prog)) =
      Inr (Returns b1, to_u32 (to_u32 (1 + 1) + 1))"
    "calc_block (length prog) 0 b1" using l [of "pcb0 1" "text0 1" "to_u32 (1 + 1)" "''input/p0''"] blk by blast
  let ?k = "k\<lparr>k_pcbs := [ld \<mapsto> b0, proc \<mapsto> b1]\<rparr>"
  have p: "k_pcbs ?k proc = Some b1" "k_pcbs ?k ld = Some b0" using assms(5) by simp_all
  from run_both_calc [OF p(1) b1(2) p(2) b0(2) assms(5), of z "length prog"] obtain k' where
    k': "run_both z (length prog) proc ld ?k = Inr k'" "\<exists>b. k_pcbs k' proc = Some b \<and> calc_block (length prog) (length prog) b"
      "\<exists>b. k_pcbs k' ld = Some b \<and> calc_block (length prog) (length prog) b" by auto
  have "c_size (code b1) = length prog" using b1(2) by (simp add: calc_block_def)
  then have "paging_main z pcb0 text0 (Some (show_prog pr prog)) ld proc k = Inr (Returns [], k')"
    using b0(1) b1(1) k'(1) by (simp add: paging_main_def dump_static)
  with k'(2,3) show ?thesis by (auto simp: calc_block_def)
qed

theorem mem_test_computes_witness:
  "\<exists>k'. paging_main True (\<lambda>_. sample_pcb) (\<lambda>_ _. \<lparr>opcode = CALC, arg_0 = 0, arg_1 = 0, arg_2 = 0, arg_3 = 0\<rparr>)
     (Some (show_prog 1 (replicate 3 \<lparr>opcode = CALC, arg_0 = 0, arg_1 = 0, arg_2 = 0, arg_3 = 0\<rparr>))) 4 7 demo = Inr (Returns [], k')"
  using mem_test_computes [of "replicate 3 \<lparr>opcode = CALC, arg_0 = 0, arg_1 = 0, arg_2 = 0, arg_3 = 0\<rparr>" 1 4 7]
  by (force simp: valid_ins_def operands_def)

text \<open>A program that starts with a memory instruction follows the memory descriptor that nobody has created.\<close>

theorem mem_test_faults:
  assumes "\<forall>i\<in>set prog. valid_ins i" and "0 \<le> pr" and "pr < 4294967296" and "length prog < 4294967296"
    and "ld \<noteq> proc" and "prog \<noteq> []" and "opcode (hd prog) \<in> {ALLOC, FREE, READ, WRITE}" and "mm (pcb0 1) = None"
  shows "paging_main z pcb0 text0 (Some (show_prog pr prog)) ld proc k = Inl WildPointer"
proof -
  note l = load_show [OF assms(1-4)]
  obtain b0 where b0: "load (pcb0 0) (text0 0) 1 ''input/p0'' (Some (show_prog pr prog)) = Inr (Returns b0, to_u32 (1 + 1))"
    using l [of "pcb0 0" "text0 0" 1 "''input/p0''"] by blast
  obtain b1 js where b1: "load (pcb0 1) (text0 1) (to_u32 (1 + 1)) ''input/p0'' (Some (show_prog pr prog)) =
      Inr (Returns b1, to_u32 (to_u32 (1 + 1) + 1))"
    "code b1 = \<lparr>c_text = js, c_size = length prog\<rparr>" "list_all2 same_ins js prog" "pc b1 = 0"
    using l [of "pcb0 1" "text0 1" "to_u32 (1 + 1)" "''input/p0''"] by blast
  let ?k = "k\<lparr>k_pcbs := [ld \<mapsto> b0, proc \<mapsto> b1]\<rparr>"
  have m: "mm b1 = None" by (rule load_Returns [OF b1(1)]) (use assms(8) in simp)
  from b1(3) assms(6) obtain j js' where j: "js = j # js'" "opcode j = opcode (hd prog)"
    by (cases prog) (auto simp: list_all2_Cons2 same_ins_def)
  have "run z proc ?k = Inl WildPointer"
    using b1(2,4) j m assms(6,7) by (auto simp: run_def deref_Some exec_ins_def with_ctx_def)
  moreover obtain n where "length prog = Suc n" using assms(6) by (cases prog) auto
  ultimately show ?thesis using b0 b1(1,2) assms(5) by (simp add: paging_main_def deref_Some)
qed

theorem mem_test_faults_witness:
  "paging_main True (\<lambda>_. sample_pcb) (\<lambda>_ _. \<lparr>opcode = CALC, arg_0 = 0, arg_1 = 0, arg_2 = 0, arg_3 = 0\<rparr>)
     (Some (show_prog 1 [\<lparr>opcode = ALLOC, arg_0 = 300, arg_1 = 3, arg_2 = 0, arg_3 = 0\<rparr>])) 4 7 demo = Inl WildPointer"
  by (rule mem_test_faults) (simp_all add: valid_ins_def operands_def sample_pcb_def)

end
