(* ===== verification/Locks.thy ===== *)
theory Locks imports Region Sched begin

text \<open>
  The mutexes of the memory library and the scheduler: \<open>mmvm_lock\<close> (\<^verbatim>\<open>libmem.c\<close>), \<open>mem_lock\<close> (\<^verbatim>\<open>mm-vm.c\<close>) and
  \<open>lock\<close> (\<^verbatim>\<open>sched.c\<close>).  For every operation the sequence in which it locks and unlocks them, path by path.

  The locale \<open>lock_order\<close> shows that threads which lock in a fixed order and release what they took cannot
  deadlock; its interpretation on the calls of the library and the scheduler is the result for the program.
  (The mutexes of the timer are never held together; its waiting is theory \<open>Timer\<close>.)
\<close>

section \<open>Ordered locking\<close>

datatype 'l lock_op = Lock 'l | Unlock 'l

text \<open>
  \<open>H\<close> is the set of mutexes held: a mutex is taken only when all held ones come before it, in particular never
  twice, and released only when held; at the end none is held.
\<close>

fun orderly :: "('l \<Rightarrow> nat) \<Rightarrow> 'l set \<Rightarrow> 'l lock_op list \<Rightarrow> bool" where
  "orderly rank H [] \<longleftrightarrow> H = {}"
| "orderly rank H (Lock l # ops) \<longleftrightarrow> (\<forall>h\<in>H. rank h < rank l) \<and> orderly rank (insert l H) ops"
| "orderly rank H (Unlock l # ops) \<longleftrightarrow> l \<in> H \<and> orderly rank (H - {l}) ops"

text \<open>A part of a sequence that leaves what is held as it was.\<close>

definition neutral :: "('l \<Rightarrow> nat) \<Rightarrow> 'l set \<Rightarrow> 'l lock_op list \<Rightarrow> bool" where
  "neutral rank H xs \<longleftrightarrow> (\<forall>ys. orderly rank H (xs @ ys) \<longleftrightarrow> orderly rank H ys)"

lemma neutral_Nil [simp]: "neutral rank H []"
  by (simp add: neutral_def)

lemma neutral_append: "neutral rank H xs \<Longrightarrow> neutral rank H ys \<Longrightarrow> neutral rank H (xs @ ys)"
  by (simp add: neutral_def)

lemma neutral_section:
  assumes "\<forall>h\<in>H. rank h < rank l" and "l \<notin> H" and "neutral rank (insert l H) xs"
  shows "neutral rank H (Lock l # xs @ [Unlock l])"
  using assms by (simp add: neutral_def Diff_insert0)

lemma neutral_orderly: "neutral rank {} xs \<Longrightarrow> orderly rank {} xs"
  using neutral_def [of rank "{}" xs] by (metis append_Nil2 orderly.simps(1))

text \<open>Threads that run such sequences: \<open>holder\<close> of each mutex, and what each thread still has to do.\<close>

record 'l lock_state =
  lk_holder :: "'l \<Rightarrow> nat option"
  lk_todo :: "nat \<Rightarrow> 'l lock_op list"

inductive lock_step :: "('l lock_op list \<Rightarrow> bool) \<Rightarrow> 'l lock_state \<Rightarrow> 'l lock_state \<Rightarrow> bool" for call where
  start: "lk_todo s d = [] \<Longrightarrow> call ops \<Longrightarrow> lock_step call s (s\<lparr>lk_todo := (lk_todo s)(d := ops)\<rparr>)"
| take: "lk_todo s d = Lock l # ops \<Longrightarrow> lk_holder s l = None \<Longrightarrow>
    lock_step call s (s\<lparr>lk_holder := (lk_holder s)(l := Some d), lk_todo := (lk_todo s)(d := ops)\<rparr>)"
| give: "lk_todo s d = Unlock l # ops \<Longrightarrow> lk_holder s l = Some d \<Longrightarrow>
    lock_step call s (s\<lparr>lk_holder := (lk_holder s)(l := None), lk_todo := (lk_todo s)(d := ops)\<rparr>)"

definition unlocked :: "'l lock_state" where
  "unlocked = \<lparr>lk_holder = (\<lambda>_. None), lk_todo = (\<lambda>_. [])\<rparr>"

inductive lock_reach :: "('l lock_op list \<Rightarrow> bool) \<Rightarrow> 'l lock_state \<Rightarrow> bool" for call where
  "lock_reach call unlocked"
| "lock_reach call s \<Longrightarrow> lock_step call s s' \<Longrightarrow> lock_reach call s'"

definition holds :: "'l lock_state \<Rightarrow> nat \<Rightarrow> 'l set" where
  "holds s d = {l. lk_holder s l = Some d}"

text \<open>A thread that is inside a call and can go on.\<close>

definition can_go :: "'l lock_state \<Rightarrow> nat \<Rightarrow> bool" where
  "can_go s d \<longleftrightarrow> (\<exists>l ops. lk_todo s d = Unlock l # ops \<and> lk_holder s l = Some d) \<or>
     (\<exists>l ops. lk_todo s d = Lock l # ops \<and> lk_holder s l = None)"

locale lock_order =
  fixes rank :: "'l \<Rightarrow> nat" and call :: "'l lock_op list \<Rightarrow> bool"
  assumes finite_locks: "finite (UNIV :: 'l set)"
    and call_orderly: "call ops \<Longrightarrow> orderly rank {} ops"
begin

lemma held_orderly: "lock_reach call s \<Longrightarrow> orderly rank (holds s d) (lk_todo s d)"
proof (induction rule: lock_reach.induct)
  case 1
  then show ?case by (simp add: unlocked_def holds_def)
next
  case (2 s s')
  from 2(2) show ?case
  proof cases
    case (start e ops)
    with 2(3) call_orderly show ?thesis by (cases "d = e") (auto simp: holds_def)
  next
    case (take e l ops)
    have "holds s' d = (if d = e then insert l (holds s d) else holds s d)" using take by (auto simp: holds_def)
    with 2(3) take show ?thesis by (cases "d = e") auto
  next
    case (give e l ops)
    have "holds s' d = (if d = e then holds s d - {l} else holds s d)" using give by (auto simp: holds_def)
    with 2(3) give show ?thesis by (cases "d = e") auto
  qed
qed

lemma no_deadlock:
  assumes r: "lock_reach call s" and d: "lk_todo s d \<noteq> []"
  shows "\<exists>e. can_go s e"
proof (rule ccontr)
  assume stuck: "\<not> ?thesis"
  have block: "\<exists>l ops e. lk_todo s d = Lock l # ops \<and> lk_holder s l = Some e" if "lk_todo s d \<noteq> []" for d
  proof (cases "lk_todo s d")
    case (Cons x list)
    show ?thesis
    proof (cases x)
      case (Lock l)
      with Cons have c: "lk_todo s d = Lock l # list" by simp
      moreover have "\<not> can_go s d" using stuck by blast
      ultimately have "lk_holder s l \<noteq> None" by (auto simp: can_go_def)
      with c show ?thesis by blast
    next
      case (Unlock l)
      with held_orderly [OF r, of d] Cons have "lk_holder s l = Some d" by (simp add: holds_def)
      with stuck Cons Unlock show ?thesis by (auto simp: can_go_def)
    qed
  qed (use that in simp)
  let ?T = "{l. lk_holder s l \<noteq> None}"
  from block [OF d] have ne: "?T \<noteq> {}" by auto
  have fin: "finite ?T" using finite_subset [OF subset_UNIV finite_locks] .
  have "Max (rank ` ?T) \<in> rank ` ?T" using fin ne by (intro Max_in) blast+
  then obtain l where l: "l \<in> ?T" and m: "Max (rank ` ?T) = rank l" by blast
  have top: "rank l' \<le> rank l" if "l' \<in> ?T" for l'
    unfolding m [symmetric] using fin that by (intro Max_ge) blast+
  from l obtain e where e: "lk_holder s l = Some e" by auto
  have "lk_todo s e \<noteq> []" using held_orderly [OF r, of e] e by (auto simp: holds_def)
  from block [OF this] obtain l' ops e' where b: "lk_todo s e = Lock l' # ops" "lk_holder s l' = Some e'" by blast
  from held_orderly [OF r, of e] b(1) e have "rank l < rank l'" by (simp add: holds_def)
  with top [of l'] b(2) show False by simp
qed

end

section \<open>The locks of the program\<close>

datatype mutex = Mmvm_lock | Mem_lock | Sched_lock

definition lock_rank :: "mutex \<Rightarrow> nat" where
  "lock_rank l = (case l of Mmvm_lock \<Rightarrow> 0 | Mem_lock \<Rightarrow> 1 | Sched_lock \<Rightarrow> 2)"

text \<open>\<^verbatim>\<open>mm-vm.c\<close>: every return of the two functions unlocks; after a fault nothing more happens.\<close>

definition get_vma_by_num_locks :: "mm_struct \<Rightarrow> int \<Rightarrow> mutex lock_op list" where
  "get_vma_by_num_locks m vmaid =
    Lock Mem_lock # (if mmap m = Null then [Unlock Mem_lock]
      else case vma_walk (mmap m) vmaid 0 of Inl _ \<Rightarrow> [] | Inr _ \<Rightarrow> [Unlock Mem_lock])"

definition validate_overlap_locks :: "mm_struct \<Rightarrow> int \<Rightarrow> int \<Rightarrow> int \<Rightarrow> mutex lock_op list" where
  "validate_overlap_locks m vmaid vmastart vmaend =
    Lock Mem_lock # (case overlap_walk (mmap m) vmaid vmastart vmaend of Inl _ \<Rightarrow> [] | Inr _ \<Rightarrow> [Unlock Mem_lock])"

definition inc_vma_limit_locks :: "vmctx \<Rightarrow> int \<Rightarrow> int \<Rightarrow> mutex lock_op list" where
  "inc_vma_limit_locks caller vmaid inc_sz =
    get_vma_by_num_locks (v_mm caller) vmaid @
    (case get_vm_area_node_at_brk caller vmaid inc_sz (PAGING_PAGE_ALIGNSZ inc_sz) of
       Inl _ \<Rightarrow> []
     | Inr area \<Rightarrow>
         get_vma_by_num_locks (v_mm caller) vmaid @
         (case (get_vma_by_num (v_mm caller) vmaid, area) of
            (Inr (Some _), Some rg) \<Rightarrow>
              validate_overlap_locks (v_mm caller) vmaid (to_i32 (rg_start rg)) (to_i32 (rg_end rg))
          | _ \<Rightarrow> []))"

text \<open>System call 17; only one of its operations comes back to the areas.\<close>

definition sys_memmap_locks :: "vmctx \<Rightarrow> sc_regs \<Rightarrow> mutex lock_op list" where
  "sys_memmap_locks caller rs =
    (if to_i32 (a1 rs) = SYSMEM_INC_OP then inc_vma_limit_locks caller (to_i32 (a2 rs)) (to_i32 (a3 rs)) else [])"

text \<open>\<^verbatim>\<open>libmem.c\<close>.\<close>

definition alloc_locks :: "bool \<Rightarrow> vmctx \<Rightarrow> int \<Rightarrow> int \<Rightarrow> int \<Rightarrow> mutex lock_op list" where
  "alloc_locks zeroed caller vmaid rgid sz =
    Lock Mmvm_lock # get_vma_by_num_locks (v_mm caller) vmaid @
    (case get_free_vmrg_area caller vmaid sz of
       Inl _ \<Rightarrow> []
     | Inr (st, _, c1) \<Rightarrow>
         if st = 0 then [Unlock Mmvm_lock]
         else
           get_vma_by_num_locks (v_mm c1) vmaid @
           (case get_vma_by_num (v_mm c1) vmaid of
              Inl _ \<Rightarrow> []
            | Inr None \<Rightarrow> [Unlock Mmvm_lock]
            | Inr (Some k) \<Rightarrow>
                sys_memmap_locks c1 \<lparr>a1 = SYSMEM_INC_OP, a2 = to_u32 vmaid, a3 = to_u32 sz\<rparr> @
                (case alloc_extend zeroed c1 vmaid rgid sz k of Inl _ \<Rightarrow> [] | Inr _ \<Rightarrow> [Unlock Mmvm_lock])))"

definition free_locks :: "bool \<Rightarrow> vmctx \<Rightarrow> int \<Rightarrow> int \<Rightarrow> mutex lock_op list" where
  "free_locks zeroed caller vmaid rgid =
    Lock Mmvm_lock # (if rgid < 0 \<or> PAGING_MAX_SYMTBL_SZ < rgid then [Unlock Mmvm_lock]
      else case free_rg zeroed caller vmaid rgid of Inl _ \<Rightarrow> [] | Inr _ \<Rightarrow> [Unlock Mmvm_lock])"

definition read_locks :: "vmctx \<Rightarrow> int \<Rightarrow> mutex lock_op list" where
  "read_locks caller vmaid = get_vma_by_num_locks (v_mm caller) vmaid"

definition write_locks :: "bool \<Rightarrow> vmctx \<Rightarrow> int \<Rightarrow> int \<Rightarrow> int \<Rightarrow> byte \<Rightarrow> mutex lock_op list" where
  "write_locks zeroed caller vmaid rgid offset val =
    Lock Mmvm_lock # get_vma_by_num_locks (v_mm caller) vmaid @
    (case write_rg zeroed caller vmaid rgid offset val of Inl _ \<Rightarrow> [] | Inr _ \<Rightarrow> [Unlock Mmvm_lock])"

text \<open>The dump after every access asks for the end of the area again.\<close>

definition report_locks :: "vmctx \<Rightarrow> mutex lock_op list" where
  "report_locks caller = get_vma_by_num_locks (v_mm caller) 0"

text \<open>\<^verbatim>\<open>sched.c\<close>: one critical section, or two for the running list and the queue of the level.\<close>

definition get_proc_locks :: "mutex lock_op list" where
  "get_proc_locks = [Lock Sched_lock, Unlock Sched_lock]"

definition put_proc_locks :: "mutex lock_op list" where
  "put_proc_locks = [Lock Sched_lock, Unlock Sched_lock] @ [Lock Sched_lock, Unlock Sched_lock]"

text \<open>The calls a processor or the loader can be in, with the sequences they run when they return.\<close>

inductive locking_call :: "mutex lock_op list \<Rightarrow> bool" where
  alloc: "liballoc z c sz r = Inr (v, out, c') \<Longrightarrow>
    locking_call (alloc_locks z c 0 (to_i32 r) (to_i32 sz) @ report_locks c')"
| free: "libfree z c r = Inr (v, out, c') \<Longrightarrow> locking_call (free_locks z c 0 (to_i32 r) @ report_locks c')"
| fetch: "libread z c r off = Inr (v, out, d, c') \<Longrightarrow> locking_call (read_locks c 0 @ report_locks c')"
| store: "libwrite z c d r off = Inr (v, out, c') \<Longrightarrow>
    locking_call (write_locks z c 0 (to_i32 r) (to_i32 off) d @ report_locks c')"
| memmap: "sys_memmap z c rs = Inr (v, rs', c') \<Longrightarrow> locking_call (sys_memmap_locks c rs)"
| get: "locking_call get_proc_locks"
| put: "locking_call put_proc_locks"

section \<open>The sequences are ordered\<close>

definition below_mem :: "mutex set \<Rightarrow> bool" where
  "below_mem H \<longleftrightarrow> H \<subseteq> {Mmvm_lock}"

lemma below_memI [simp]: "below_mem {}" "below_mem {Mmvm_lock}"
  by (simp_all add: below_mem_def)

lemma mem_section:
  assumes "below_mem H"
  shows "neutral lock_rank H [Lock Mem_lock, Unlock Mem_lock]"
proof -
  from assms have "\<forall>h\<in>H. lock_rank h < lock_rank Mem_lock" "Mem_lock \<notin> H"
    by (auto simp: below_mem_def lock_rank_def)
  from neutral_section [OF this, of "[]"] show ?thesis by simp
qed

lemma vma_locks:
  "below_mem H \<Longrightarrow> get_vma_by_num m vmaid = Inr k \<Longrightarrow> neutral lock_rank H (get_vma_by_num_locks m vmaid)"
  using mem_section by (auto simp: get_vma_by_num_locks_def get_vma_by_num_def bindR_eq_Inr split: if_splits)

lemma validate_locks:
  "below_mem H \<Longrightarrow> validate_overlap_vm_area m vmaid a b = Inr st \<Longrightarrow>
     neutral lock_rank H (validate_overlap_locks m vmaid a b)"
  using mem_section by (simp add: validate_overlap_locks_def validate_overlap_vm_area_def)

lemma inc_locks:
  assumes H: "below_mem H" and r: "inc_vma_limit z c vmaid sz = Inr (st, c')"
  shows "neutral lock_rank H (inc_vma_limit_locks c vmaid sz)"
proof -
  from r obtain area k where a: "get_vm_area_node_at_brk c vmaid sz (PAGING_PAGE_ALIGNSZ sz) = Inr area"
    and k: "get_vma_by_num (v_mm c) vmaid = Inr k" by (auto simp: inc_vma_limit_def Let_def bindR_eq_Inr)
  note v = vma_locks [OF H k]
  show ?thesis
  proof (cases "k = None \<or> area = None")
    case True
    with v a k show ?thesis by (auto simp: inc_vma_limit_locks_def intro: neutral_append split: option.splits)
  next
    case False
    then obtain k' rg where kr: "k = Some k'" "area = Some rg" by auto
    with r a k obtain st' where "validate_overlap_vm_area (v_mm c) vmaid (to_i32 (rg_start rg)) (to_i32 (rg_end rg)) = Inr st'"
      by (auto simp: inc_vma_limit_def Let_def bindR_eq_Inr)
    from validate_locks [OF H this] v a k kr show ?thesis
      by (simp add: inc_vma_limit_locks_def neutral_append)
  qed
qed

lemma memmap_locks:
  assumes "below_mem H" and "sys_memmap z c rs = Inr (v, rs', c')"
  shows "neutral lock_rank H (sys_memmap_locks c rs)"
  using assms inc_locks [OF assms(1)]
  by (auto simp: sys_memmap_locks_def sys_memmap_def Let_def sysmem_ops bindR_eq_Inr split: if_splits)

text \<open>The operations of the library run under \<open>mmvm_lock\<close>.\<close>

lemma mmvm_section:
  "neutral lock_rank {Mmvm_lock} xs \<Longrightarrow> neutral lock_rank {} (Lock Mmvm_lock # xs @ [Unlock Mmvm_lock])"
  by (rule neutral_section) simp_all

lemma alloc_neutral:
  assumes r: "alloc_rg z c vmaid rgid sz = Inr (v, a, c')"
  shows "neutral lock_rank {} (alloc_locks z c vmaid rgid sz)"
proof -
  let ?H = "{Mmvm_lock}"
  from r obtain st rg c1 where g: "get_free_vmrg_area c vmaid sz = Inr (st, rg, c1)"
    by (auto simp: alloc_rg_def bindR_eq_Inr)
  then obtain k where "get_vma_by_num (v_mm c) vmaid = Inr k" by (auto simp: get_free_vmrg_area_def bindR_eq_Inr)
  from vma_locks [OF _ this, of ?H] have v: "neutral lock_rank ?H (get_vma_by_num_locks (v_mm c) vmaid)" by simp
  show ?thesis
  proof (cases "st = 0")
    case True
    with g mmvm_section [OF v] show ?thesis by (simp add: alloc_locks_def)
  next
    case False
    with r g obtain k1 where k1: "get_vma_by_num (v_mm c1) vmaid = Inr k1" by (auto simp: alloc_rg_def bindR_eq_Inr)
    have v1: "neutral lock_rank ?H (get_vma_by_num_locks (v_mm c1) vmaid)" using vma_locks [OF _ k1, of ?H] by simp
    show ?thesis
    proof (cases k1)
      case None
      with g k1 False mmvm_section [OF neutral_append [OF v v1]] show ?thesis by (simp add: alloc_locks_def)
    next
      case (Some k)
      with r g k1 False have e: "alloc_extend z c1 vmaid rgid sz k = Inr (v, a, c')" by (simp add: alloc_rg_def)
      then obtain x y c2 where "sys_memmap z c1 \<lparr>a1 = SYSMEM_INC_OP, a2 = to_u32 vmaid, a3 = to_u32 sz\<rparr> = Inr (x, y, c2)"
        by (auto simp: alloc_extend_def Let_def bindR_eq_Inr)
      from memmap_locks [OF _ this, of ?H] have
        m: "neutral lock_rank ?H (sys_memmap_locks c1 \<lparr>a1 = SYSMEM_INC_OP, a2 = to_u32 vmaid, a3 = to_u32 sz\<rparr>)" by simp
      from mmvm_section [OF neutral_append [OF v neutral_append [OF v1 m]]] g k1 False Some e show ?thesis
        by (simp add: alloc_locks_def)
    qed
  qed
qed

lemma free_neutral:
  "free_rg z c vmaid rgid = Inr (v, c') \<Longrightarrow> neutral lock_rank {} (free_locks z c vmaid rgid)"
  using mmvm_section [of "[]"] by (simp add: free_locks_def)

lemma write_neutral:
  assumes r: "write_rg z c vmaid rgid off d = Inr (v, c')"
  shows "neutral lock_rank {} (write_locks z c vmaid rgid off d)"
proof -
  from r obtain k where "get_vma_by_num (v_mm c) vmaid = Inr k" by (auto simp: write_rg_def bindR_eq_Inr)
  from vma_locks [OF _ this, of "{Mmvm_lock}"] mmvm_section r show ?thesis by (simp add: write_locks_def)
qed

lemma read_neutral:
  assumes r: "read_rg z c vmaid rgid off = Inr (v, d, c')"
  shows "neutral lock_rank {} (read_locks c vmaid)"
proof -
  from r obtain k where "get_vma_by_num (v_mm c) vmaid = Inr k" by (auto simp: read_rg_def bindR_eq_Inr)
  from vma_locks [OF _ this, of "{}"] show ?thesis by (simp add: read_locks_def)
qed

lemma report_neutral:
  assumes r: "report b c = Inr out"
  shows "neutral lock_rank {} (report_locks c)"
proof -
  from r obtain k where "get_vma_by_num (v_mm c) 0 = Inr k" by (auto simp: report_def print_pgtbl_def bindR_eq_Inr)
  from vma_locks [OF _ this, of "{}"] show ?thesis by (simp add: report_locks_def)
qed

lemma sched_section: "neutral lock_rank {} [Lock Sched_lock, Unlock Sched_lock]"
  using neutral_section [of "{}" lock_rank Sched_lock "[]"] by simp

lemma locking_call_orderly:
  assumes "locking_call ops"
  shows "orderly lock_rank {} ops"
proof (rule neutral_orderly)
  show "neutral lock_rank {} ops" using assms
  proof cases
    case (alloc z c sz r v out c')
    then show ?thesis using alloc_neutral report_neutral
      by (auto simp: liballoc_def bindR_eq_Inr intro!: neutral_append)
  next
    case (free z c r v out c')
    then show ?thesis using free_neutral report_neutral
      by (auto simp: libfree_def bindR_eq_Inr intro!: neutral_append)
  next
    case (fetch z c r off v out d c')
    then show ?thesis using read_neutral report_neutral
      by (auto simp: libread_def bindR_eq_Inr intro!: neutral_append split: option.splits)
  next
    case (store z c d r off v out c')
    then show ?thesis using write_neutral report_neutral
      by (auto simp: libwrite_def bindR_eq_Inr intro!: neutral_append)
  next
    case (memmap z c rs v rs' c')
    with memmap_locks [OF below_memI(1)] show ?thesis by blast
  next
    case get
    with sched_section show ?thesis by (simp add: get_proc_locks_def)
  next
    case put
    with neutral_append [OF sched_section sched_section] show ?thesis by (simp add: put_proc_locks_def)
  qed
qed

lemma finite_mutex: "finite (UNIV :: mutex set)"
proof -
  have "(UNIV :: mutex set) = {Mmvm_lock, Mem_lock, Sched_lock}" by (auto intro: mutex.exhaust)
  then show ?thesis by (metis finite.emptyI finite_insert)
qed

interpretation os_locks: lock_order lock_rank locking_call
  by unfold_locales (use finite_mutex locking_call_orderly in auto)

section \<open>Properties\<close>

text \<open>C16: The mutexes cannot deadlock: whatever calls of the memory library, of system call 17 and of the scheduler any number
  of threads have begun, as long as one of them is inside a call some thread can take or release its next
  mutex; and every thread takes \<open>mem_lock\<close> only after \<open>mmvm_lock\<close>, no mutex twice, and will release what it holds.\<close>

theorem locks_never_deadlock:
  assumes "lock_reach locking_call s" and "lk_todo s d \<noteq> []"
  shows "(\<exists>e. can_go s e) \<and> orderly lock_rank (holds s d) (lk_todo s d)"
  using os_locks.no_deadlock [OF assms] os_locks.held_orderly [OF assms(1)] by blast

text \<open>One thread is inside \<open>get_proc\<close>, a second one waits for the lock.\<close>

theorem locks_never_deadlock_witness:
  "\<exists>s. lock_reach locking_call s \<and> \<not> can_go s 1 \<and> lk_todo s 1 = get_proc_locks \<and> (\<exists>e. can_go s e)"
proof -
  let ?s0 = "unlocked :: mutex lock_state"
  let ?s1 = "?s0\<lparr>lk_todo := (lk_todo ?s0)(0 := get_proc_locks)\<rparr>"
  let ?s2 = "?s1\<lparr>lk_todo := (lk_todo ?s1)(1 := get_proc_locks)\<rparr>"
  let ?s3 = "?s2\<lparr>lk_holder := (lk_holder ?s2)(Sched_lock := Some 0), lk_todo := (lk_todo ?s2)(0 := [Unlock Sched_lock])\<rparr>"
  have "lock_step locking_call ?s0 ?s1" by (rule lock_step.start) (simp_all add: unlocked_def locking_call.get)
  moreover have "lock_step locking_call ?s1 ?s2" by (rule lock_step.start) (simp_all add: unlocked_def locking_call.get)
  moreover have "lock_step locking_call ?s2 ?s3"
    by (rule lock_step.take) (simp_all add: unlocked_def get_proc_locks_def)
  ultimately have r: "lock_reach locking_call ?s3" by (blast intro: lock_reach.intros)
  have t: "lk_todo ?s3 1 = get_proc_locks" by (simp add: unlocked_def)
  then have "lk_todo ?s3 1 \<noteq> []" by (simp add: get_proc_locks_def)
  from locks_never_deadlock [OF r this] have "\<exists>e. can_go ?s3 e" by blast
  moreover have "\<not> can_go ?s3 1" by (simp add: can_go_def unlocked_def get_proc_locks_def)
  ultimately show ?thesis using r t by blast
qed

end
