(* ===== verification/Interleave.thy ===== *)
theory Interleave imports Runs begin

text \<open>
  What happens between the steps of the machine.  A step of theory \<open>Os\<close> is a scheduler call or an instruction; in
  the code these are several accesses that other threads can separate.
  \<^item> \<open>put_proc\<close> and \<open>add_proc\<close> are two critical sections; the first one, on the running list, cannot be
    noticed by the scheduler.
  \<^item> \<open>__read\<close> takes no lock; whatever the other threads do meanwhile, the byte it reads is the same.
  \<^item> \<open>update_slot\<close> takes no lock; a charge can get lost (\<open>charge_lost\<close>).
\<close>

section \<open>The two critical sections of \<open>put_proc\<close>\<close>

text \<open>The critical sections and the accesses of \<^verbatim>\<open>sched.c\<close>, one by one.\<close>

datatype sched_section = RunningList pcb_ref | LevelQueue pcb_ref nat | GetProc | Charge nat int | GetSlot nat

definition enter_running :: "pcb_ref \<Rightarrow> sched_t \<Rightarrow> sched_t" where
  "enter_running p s = s\<lparr>running_list := enqueue_at (running_list s) p\<rparr>"

definition enter_level :: "pcb_ref \<Rightarrow> nat \<Rightarrow> sched_t \<Rightarrow> sched_t" where
  "enter_level p i s = s\<lparr>mlq_ready_queue := (mlq_ready_queue s)[i := enqueue_at (mlq_ready_queue s ! i) p]\<rparr>"

lemma put_proc_sections:
  "h p = Some b \<Longrightarrow> prio b < MAX_PRIO \<Longrightarrow>
     put_proc p h s = Inr (h(p \<mapsto> b\<lparr>queues_set := True\<rparr>), enter_level p (prio b) (enter_running p s)) \<and>
     add_proc p h s = Inr (h(p \<mapsto> b\<lparr>queues_set := True\<rparr>), enter_level p (prio b) (enter_running p s))"
  by (simp add: put_proc_placed add_proc_placed placed_def enter_level_def enter_running_def)

text \<open>What the calling thread learns: the process of \<open>get_proc\<close>, the slots of \<open>get_slot\<close>.\<close>

datatype answer = NoAnswer | Proc "pcb_ref option" | Slots int

fun do_section :: "sched_section \<Rightarrow> sched_t \<Rightarrow> (answer \<times> sched_t) option" where
  "do_section (RunningList p) s = Some (NoAnswer, enter_running p s)"
| "do_section (LevelQueue p i) s = (if i < MAX_PRIO then Some (NoAnswer, enter_level p i s) else None)"
| "do_section GetProc s = map_option (\<lambda>(r, s'). (Proc r, s')) (get_proc s)"
| "do_section (Charge i n) s = (case update_slot i n s of Inr s' \<Rightarrow> Some (NoAnswer, s') | Inl _ \<Rightarrow> None)"
| "do_section (GetSlot i) s = (case get_slot i s of Inr v \<Rightarrow> Some (Slots v, s) | Inl _ \<Rightarrow> None)"

text \<open>A sequence of sections, with the answers to all but the first sections of \<open>put_proc\<close>.\<close>

definition on_running_list :: "sched_section \<Rightarrow> bool" where
  "on_running_list x \<longleftrightarrow> (case x of RunningList _ \<Rightarrow> True | _ \<Rightarrow> False)"

fun do_sections :: "sched_section list \<Rightarrow> sched_t \<Rightarrow> (answer list \<times> sched_t) option" where
  "do_sections [] s = Some ([], s)"
| "do_sections (x # xs) s =
    Option.bind (do_section x s) (\<lambda>(a, s1).
    Option.bind (do_sections xs s1) (\<lambda>(as, s2). Some (if on_running_list x then as else a # as, s2)))"

definition same_levels :: "sched_t \<Rightarrow> sched_t \<Rightarrow> bool" where
  "same_levels s t \<longleftrightarrow> t = s\<lparr>running_list := running_list t\<rparr>"

lemma pick_prio_running: "pick_prio (s\<lparr>running_list := x\<rparr>) = pick_prio s"
  by (simp add: pick_prio_def ready_at_def)

lemma dequeue_prio_running:
  "dequeue_prio i (s\<lparr>running_list := x\<rparr>) = (fst (dequeue_prio i s), (snd (dequeue_prio i s))\<lparr>running_list := x\<rparr>)"
  by (simp add: dequeue_prio_def split: prod.split)

lemma reset_slot_running: "reset_slot (s\<lparr>running_list := x\<rparr>) = (reset_slot s)\<lparr>running_list := x\<rparr>"
  by (simp add: reset_slot_def)

lemma mlq_pick_running: "mlq_pick (s\<lparr>running_list := x\<rparr>) = (fst (mlq_pick s), (snd (mlq_pick s))\<lparr>running_list := x\<rparr>)"
  by (simp add: mlq_pick_def pick_prio_running reset_slot_running dequeue_prio_running split: option.split)

lemma get_proc_pick: "sched_wf s \<Longrightarrow> get_proc s = Some (mlq_pick s)"
  by (simp add: get_proc_def get_mlq_proc_eq)

lemma section_wf:
  assumes "sched_wf s" and "do_section x s = Some (a, s')"
  shows "sched_wf s'"
proof (cases x)
  case (RunningList p)
  with assms show ?thesis by (auto simp: enter_running_def sched_wf_def pq.good_enq)
next
  case (LevelQueue p i)
  with assms show ?thesis
    by (auto simp: enter_level_def sched_wf_def list_all_length nth_list_update pq.good_enq split: if_splits)
next
  case GetProc
  with assms obtain r where "get_proc s = Some (r, s')" by auto
  with get_proc_cases [OF assms(1) this] assms(1) show ?thesis by metis
next
  case (Charge i n)
  with assms show ?thesis using update_slot_facts by (auto split: sum.splits)
next
  case (GetSlot i)
  with assms show ?thesis by (auto split: sum.splits)
qed

lemma section_same:
  assumes "sched_wf s" and "sched_wf t" and "same_levels s t" and "do_section x s = Some (a, s')"
    and "\<not> on_running_list x"
  shows "\<exists>t'. do_section x t = Some (a, t') \<and> same_levels s' t'"
proof -
  obtain r where t: "t = s\<lparr>running_list := r\<rparr>" using assms(3) by (simp add: same_levels_def)
  show ?thesis
  proof (cases x)
    case GetProc
    with assms(1,2,4) t show ?thesis
      by (cases "mlq_pick s") (auto simp: get_proc_pick mlq_pick_running same_levels_def)
  qed (use assms(4,5) t in \<open>auto simp: on_running_list_def enter_level_def update_slot_def get_slot_def same_levels_def
      split: if_splits\<close>)
qed

lemma sections_wf: "sched_wf s \<Longrightarrow> do_sections xs s = Some (as, s') \<Longrightarrow> sched_wf s'"
  by (induction xs arbitrary: s as) (auto simp: Option.bind_eq_Some_conv dest: section_wf)

text \<open>C18: The first critical section of \<open>put_proc\<close> and \<open>add_proc\<close> cannot be noticed: any interleaving of the critical sections
  of any number of threads gives the same answers and the same queues and slots as the same interleaving
  without the updates of the running list.  So placing a process can be taken as one step at its second section.\<close>

theorem running_list_unnoticed:
  assumes "sched_wf s" and "do_sections xs s = Some (as, s')"
  shows "\<exists>t'. do_sections (filter (\<lambda>x. \<not> on_running_list x) xs) s = Some (as, t') \<and> same_levels s' t'"
proof -
  have "\<exists>t'. do_sections (filter (\<lambda>x. \<not> on_running_list x) xs) t = Some (as, t') \<and> same_levels s' t'"
    if "sched_wf s" "sched_wf t" "same_levels s t" "do_sections xs s = Some (as, s')" for t
    using that
  proof (induction xs arbitrary: s t as)
    case (Cons x xs)
    from Cons.prems(4) obtain a s1 as1 where s1: "do_section x s = Some (a, s1)" and r: "do_sections xs s1 = Some (as1, s')"
      and as: "as = (if on_running_list x then as1 else a # as1)" by (auto simp: Option.bind_eq_Some_conv)
    note w1 = section_wf [OF Cons.prems(1) s1]
    show ?case
    proof (cases "on_running_list x")
      case True
      then obtain p where "x = RunningList p" by (auto simp: on_running_list_def split: sched_section.splits)
      with s1 Cons.prems(3) have "same_levels s1 t" by (auto simp: same_levels_def enter_running_def)
      from Cons.IH [OF w1 Cons.prems(2) this r] True as show ?thesis by simp
    next
      case False
      from section_same [OF Cons.prems(1-3) s1 False] obtain t1 where
        t1: "do_section x t = Some (a, t1)" "same_levels s1 t1" by blast
      from Cons.IH [OF w1 section_wf [OF Cons.prems(2) t1(1)] t1(2) r] t1(1) False as show ?thesis by auto
    qed
  qed (simp add: same_levels_def)
  from this [OF assms(1,1) _ assms(2)] show ?thesis by (simp add: same_levels_def)
qed

theorem running_list_unnoticed_witness:
  "\<exists>s' t'. do_sections [RunningList 1, RunningList 2, LevelQueue 2 3, LevelQueue 1 3] (init_scheduler zero_sched) =
       Some ([NoAnswer, NoAnswer], s') \<and>
     do_sections [LevelQueue 2 3, LevelQueue 1 3] (init_scheduler zero_sched) = Some ([NoAnswer, NoAnswer], t') \<and>
     same_levels s' t'"
proof -
  let ?xs = "[RunningList 1, RunningList 2, LevelQueue 2 3, LevelQueue 1 3]"
  obtain s' where s': "do_sections ?xs (init_scheduler zero_sched) = Some ([NoAnswer, NoAnswer], s')"
    by (simp add: on_running_list_def MAX_PRIO_def)
  from running_list_unnoticed [OF init_sched_facts(1) this] s' show ?thesis by (simp add: on_running_list_def)
qed

section \<open>An unlocked charge\<close>

text \<open>\<open>slot[prio] = slot[prio] - used_time\<close> is a load and a store.\<close>

definition charge_load :: "nat \<Rightarrow> int \<Rightarrow> sched_t \<Rightarrow> int" where
  "charge_load p n s = slot s ! p - n"

definition charge_store :: "nat \<Rightarrow> int \<Rightarrow> sched_t \<Rightarrow> sched_t" where
  "charge_store p v s = s\<lparr>slot := (slot s)[p := v]\<rparr>"

lemma update_slot_split: "p < MAX_PRIO \<Longrightarrow> update_slot p n s = Inr (charge_store p (charge_load p n s) s)"
  by (simp add: update_slot_def charge_store_def charge_load_def)

text \<open>Of two charges whose loads both come first the earlier store is lost; a reset in between is undone.\<close>

lemma charge_lost:
  assumes "p < length (slot s)" and "p < MAX_PRIO"
  shows "slot (charge_store p (charge_load p b s) (charge_store p (charge_load p a s) s)) ! p = slot s ! p - b"
    and "slot (charge_store p (charge_load p a s) (reset_slot s)) ! p = slot s ! p - a"
  using assms by (simp_all add: charge_store_def charge_load_def)

section \<open>Reading without a lock\<close>

text \<open>Steps of the other threads: every step of a processor moves its program counter.\<close>

inductive others_run :: "os_env \<Rightarrow> nat \<Rightarrow> os_t \<Rightarrow> os_t \<Rightarrow> bool" for env i s where
  none: "others_run env i s s"
| step: "others_run env i s s1 \<Longrightarrow> all_cautious env s1 \<Longrightarrow> os_step env s1 s2 \<Longrightarrow> o_cpu s2 i = o_cpu s1 i \<Longrightarrow>
    others_run env i s s2"

lemma act_moves: "cpu_act i s s' \<Longrightarrow> c_pc (o_cpu s' i) \<noteq> c_pc (o_cpu s i)"
  by (induction rule: cpu_act.induct)
    (auto simp: local_moves_def fetches_def split: cpu_pc.splits if_splits)

definition keeps_process :: "pcb_ref \<Rightarrow> kernel \<Rightarrow> kernel \<Rightarrow> bool" where
  "keeps_process p k k' \<longleftrightarrow> k_pcbs k' p = k_pcbs k p \<and>
     (\<forall>a. a div 256 \<in> pmapped (k_pcbs k) p \<longrightarrow> storage (k_mram k') a = storage (k_mram k) a)"

lemma keeps_process_trans:
  "keeps_process p k k1 \<Longrightarrow> keeps_process p k1 k2 \<Longrightarrow> keeps_process p k k2"
  by (auto simp: keeps_process_def pmapped_def)

lemma keeps_process_same: "k_pcbs k' = k_pcbs k \<Longrightarrow> k_mram k' = k_mram k \<Longrightarrow> keeps_process p k k'"
  by (simp add: keeps_process_def)

text \<open>A processor that has given its process away may still point to it, but only charges slots and fetches.\<close>

lemma other_cpu_keeps:
  assumes inv: "os_inv n s" and mi: "mem_inv (o_k s)" and n: "n = num_cpus (e_cfg env)" and safe: "all_cautious env s"
    and i: "i < n" and h: "owned (o_cpu s i) = Some p" and j: "j < n" "j \<noteq> i"
    and r: "cpu_routine env j s = Some (Inr s')"
  shows "keeps_process p (o_k s) (o_k s')"
proof (cases "c_proc (o_cpu s j) = Some p")
  case False
  have "j < num_cpus (e_cfg env)" using j n by simp
  from cpu_routine_touches [OF mi r safe this] False show ?thesis by (auto simp: touches_only_def keeps_process_def)
next
  case True
  note v = os_invD(3) [OF inv]
  have "holder n s i = Some p" using h i by (simp add: holder_cpu)
  then have "owned (o_cpu s j) \<noteq> Some p" using os_own_invD(5) [OF v, of i p j] j by (auto simp: holder_cpu)
  with True have "c_pc (o_cpu s j) = CCharge \<or> (\<exists>fin. c_pc (o_cpu s j) = CFetch fin)"
    by (auto simp: owned_def split: cpu_pc.splits)
  then have "o_pcbs s' = o_pcbs s" "k_mram (o_k s') = k_mram (o_k s)"
    using r by (auto simp: cpu_routine_def Let_def cpu_fetch_def bindR_eq_Inr set_sched_def split: option.splits if_splits)
  then show ?thesis by (rule keeps_process_same)
qed

lemma ld_keeps:
  assumes r: "ld_routine env x s = Inr (Returns s')" and x: "x \<notin> dom (o_pcbs s)"
    and p: "p \<in> dom (o_pcbs s)" "ld_owned (o_ld s) \<noteq> Some p"
  shows "o_pcbs s' p = o_pcbs s p"
proof (cases "o_ld s")
  case (LLoad i)
  have "p \<noteq> x" using x p(1) by blast
  with LLoad r show ?thesis
    by (cases "i < length (ld_processes (e_cfg env))") (auto simp: ld_routine_def elim!: ld_load_Returns)
next
  case (LWait i q)
  with p(2) have "p \<noteq> q" by (simp add: ld_owned_def)
  with LWait r show ?thesis
    by (cases "current_time (o_tm s) < l_start (ld_processes (e_cfg env) ! i)")
      (auto simp: ld_routine_def elim!: ld_add_Returns)
qed (use r in \<open>auto simp: ld_routine_def\<close>)

lemma other_step_keeps:
  assumes inv: "os_inv (num_cpus (e_cfg env)) s" and mi: "mem_inv (o_k s)" and c: "clean_env env"
    and safe: "all_cautious env s" and i: "i < num_cpus (e_cfg env)" and h: "owned (o_cpu s i) = Some p"
    and st: "os_step env s s'" and same: "o_cpu s' i = o_cpu s i"
  shows "keeps_process p (o_k s) (o_k s')"
  using st
proof cases
  case (cpu j)
  have "j \<noteq> i" using act_moves [OF cpu_routine_act [OF inv cpu(1-3)]] same by auto
  with other_cpu_keeps [OF inv mi refl safe i h cpu(1) _ cpu(3)] show ?thesis by blast
next
  case (loader x)
  note v = os_invD(3) [OF inv]
  have hi: "holder (num_cpus (e_cfg env)) s i = Some p" using h i by (simp add: holder_cpu)
  have "p \<in> dom (o_pcbs s)" using os_own_invD(4) [OF v hi] by blast
  moreover have "ld_owned (o_ld s) \<noteq> Some p"
    using os_own_invD(5) [OF v hi, of "num_cpus (e_cfg env)"] i by (auto simp: holder_def)
  ultimately have p: "p \<in> dom (o_pcbs s)" "ld_owned (o_ld s) \<noteq> Some p" by blast+
  from ld_keeps [OF loader(3,2) p] ld_routine_mem [OF mi c loader(2,3)] show ?thesis by (simp add: keeps_process_def)
qed (auto intro: keeps_process_same)

lemma others_run_keeps:
  assumes "others_run env i s s'" and "iso_reach env s" and c: "clean_env env" and g: "good_env env"
    and i: "i < num_cpus (e_cfg env)" and h: "owned (o_cpu s i) = Some p"
  shows "iso_reach env s' \<and> o_cpu s' i = o_cpu s i \<and> keeps_process p (o_k s) (o_k s')"
  using assms(1)
proof (induction rule: others_run.induct)
  case none
  with assms(2) show ?case by (simp add: keeps_process_same)
next
  case (step s1 s2)
  then have r: "iso_reach env s1" and o: "o_cpu s1 i = o_cpu s i" and k: "keeps_process p (o_k s) (o_k s1)" by blast+
  have "keeps_process p (o_k s1) (o_k s2)"
    using other_step_keeps [OF os_reach_inv [OF iso_reach_os [OF r] g] iso_reach_mem [OF r c] c step(2) i _ step(3,4)] h o by simp
  with k step r o show ?case by (auto intro: iso_reach.step keeps_process_trans)
qed

text \<open>C17: Reading without a lock is harmless: while a processor is inside \<open>__read\<close>, whatever the other threads do (allocations
  with evictions, writes, loading, scheduling, time slots) leaves the control block, the page table and the
  frames of its process alone, so that a read of an online page gives the same byte at every moment.\<close>

theorem unlocked_read_is_atomic:
  assumes "iso_reach env s" and "clean_env env" and "good_env env" and "i < num_cpus (e_cfg env)"
    and "owned (o_cpu s i) = Some p" and "o_pcbs s p = Some b" and "mm b = Some m" and "others_run env i s s'"
    and "0 \<le> rgid" and "rgid < 30" and "online m (PAGING_PGN (region_addr (symrgtbl m ! nat rgid) off))"
  shows "o_pcbs s' p = Some b \<and>
    (\<exists>d. read_rg z (ctx_of (o_k s) b m) 0 rgid off = Inr (sint d, Some d, ctx_of (o_k s) b m) \<and>
         read_rg z (ctx_of (o_k s') b m) 0 rgid off = Inr (sint d, Some d, ctx_of (o_k s') b m))"
proof -
  let ?a = "phys m (region_addr (symrgtbl m ! nat rgid) off)"
  from others_run_keeps [OF assms(8,1-5)] have r: "iso_reach env s'" and k: "keeps_process p (o_k s) (o_k s')" by blast+
  have b': "o_pcbs s' p = Some b" using k assms(6) by (simp add: keeps_process_def)
  have inv: "proc_inv (others_of (o_pcbs s) p) (ctx_of (o_k s) b m)"
    using iso_reach_mem [OF assms(1,2)] assms(6,7) by (intro kernel_invD) (simp_all add: mem_inv_def)
  have inv': "proc_inv (others_of (o_pcbs s') p) (ctx_of (o_k s') b m)"
    using iso_reach_mem [OF r assms(2)] b' assms(7) by (intro kernel_invD) (simp_all add: mem_inv_def)
  have mm: "v_mm (ctx_of q b m) = m" "v_mram (ctx_of q b m) = k_mram q" for q by (simp_all add: ctx_of_def)
  have "?a div 256 \<in> mapped m"
    using phys_in_frame(1) [of _ "{}" "ctx_of (o_k s) b m"] inv assms(11) by (auto simp: proc_inv_def mm mapped_def)
  moreover have "pmapped (o_pcbs s) p = mapped m" using assms(6,7) by (simp add: pmapped_def)
  ultimately have "storage (k_mram (o_k s')) ?a = storage (k_mram (o_k s)) ?a" using k by (simp add: keeps_process_def)
  with write_read_rg_online(2) [OF inv assms(9,10), of off z] write_read_rg_online(2) [OF inv' assms(9,10), of off z]
    assms(11) b' show ?thesis by (simp add: mm Let_def)
qed

text \<open>The process of the allocating program, before and after the timer thread has looked at its devices.\<close>

theorem unlocked_read_is_atomic_witness:
  "\<exists>s s' b m off d. iso_reach (prog_env 2 alloc_prog) s \<and> s' \<noteq> s \<and> others_run (prog_env 2 alloc_prog) 0 s s' \<and>
     o_pcbs s' 1 = Some b \<and> read_rg True (ctx_of (o_k s') b m) 0 0 off = Inr (sint d, Some d, ctx_of (o_k s') b m)"
proof -
  let ?e = "prog_env 2 alloc_prog"
  obtain s b m where s: "iso_reach ?e s" "o_pcbs s 1 = Some b" "mm b = Some m" "online m 0" "o_tm s = timer_init 2"
      "c_pc (o_cpu s 0) = CNext" "c_proc (o_cpu s 0) = Some 1"
    using alloc_ran by blast
  let ?t = "(o_tm s)\<lparr>tpc := Scan [1, 0] 0 0\<rparr>"
  have "timer_routine (o_tm s) = Some ?t" by (simp add: s(5) timer_routine_def upt_rec)
  then have st: "os_step ?e s (s\<lparr>o_tm := ?t\<rparr>)" by (rule os_step.tick)
  have "all_cautious ?e s" using s(6) by (simp add: all_cautious_def)
  then have o: "others_run ?e 0 s (s\<lparr>o_tm := ?t\<rparr>)" using st by (intro others_run.step [OF others_run.none]) simp_all
  let ?off = "- rg_start (symrgtbl m ! nat 0)"
  have "PAGING_PGN (region_addr (symrgtbl m ! nat 0) ?off) = 0"
    by (simp add: region_addr_def to_u64_id to_i32_id PAGING_PGN_eq)
  then have on: "online m (PAGING_PGN (region_addr (symrgtbl m ! nat 0) ?off))" using s(4) by simp
  have own: "owned (o_cpu s 0) = Some 1" using s(6,7) by (simp add: owned_def)
  have "o_pcbs (s\<lparr>o_tm := ?t\<rparr>) 1 = Some b \<and>
    (\<exists>d. read_rg True (ctx_of (o_k s) b m) 0 0 ?off = Inr (sint d, Some d, ctx_of (o_k s) b m) \<and>
         read_rg True (ctx_of (o_k (s\<lparr>o_tm := ?t\<rparr>)) b m) 0 0 ?off = Inr (sint d, Some d, ctx_of (o_k (s\<lparr>o_tm := ?t\<rparr>)) b m))"
    by (rule unlocked_read_is_atomic [OF s(1) prog_clean alloc_good _ own s(2,3) o _ _ on]) simp_all
  moreover have "tpc (o_tm (s\<lparr>o_tm := ?t\<rparr>)) \<noteq> tpc (o_tm s)" by (simp add: s(5))
  then have "s\<lparr>o_tm := ?t\<rparr> \<noteq> s" by metis
  ultimately show ?thesis using s(1) o by blast
qed

end
