(* ===== verification/Spec2Isabelle.thy ===== *)
theory Spec2Isabelle imports Frames Legacy_Mem Machine_Props Written Private Mem_Test Locks Interleave begin

text \<open>
  Verification of the operating system simulator \<^verbatim>\<open>ossim_sierra\<close> (C, \<^verbatim>\<open>src/src/*.c\<close> and
  \<^verbatim>\<open>src/include/*.h\<close>) in the configuration that \<^verbatim>\<open>include/os-cfg.h\<close> fixes: \<open>MLQ_SCHED\<close>, \<open>MM_PAGING\<close>,
  \<open>MM_FIXED_MEMSZ\<close>.

  \<^bold>\<open>The program.\<close>  \<^verbatim>\<open>main\<close> reads a configuration, attaches one timer device per processor and one for
  the loader, starts the timer, formats the memory devices, initialises the scheduler and starts the threads.
  The loader reads process files and hands processes to the scheduler at their start times.  Each processor takes a
  process from the scheduler, runs one instruction per time slot and gives the process back when its slice is used
  up.  Instructions call the memory library, which works on the page table and the regions of
  the process and on the shared RAM and swap devices through system call 17.  The timer keeps all threads in the same slot.

  \<^bold>\<open>The theories\<close>, in the order of their imports:
  \<^item> \<open>Prelude\<close>: undefined behaviour as a value (\<open>fault + 'a\<close>), C integer conversions, linked lists whose
    last link may be NULL or indeterminate.
  \<^item> \<open>Bits\<close>: \<^verbatim>\<open>bitops.h\<close>, the macros of \<^verbatim>\<open>mm.h\<close>, page table entries (\<^verbatim>\<open>mm.c\<close>: \<open>init_pte\<close>, \<open>pte_set_swap\<close>,
    \<open>pte_set_fpn\<close>); round trips of the fields, of bus addresses, and \<open>NBITS\<close> against the logarithm.
  \<^item> \<open>Ready_Queue\<close>: \<^verbatim>\<open>queue.c\<close>, an array with a count, refined from duplicate free bounded lists through
    the locale \<open>bounded_fifo\<close>.
  \<^item> \<open>Kernel_Types\<close>: the structs of \<^verbatim>\<open>common.h\<close> and \<^verbatim>\<open>os-mm.h\<close> as records.
  \<^item> \<open>Dispatch\<close>: the locale \<open>dispatcher\<close>, what a scheduler promises to the processors, and the ownership
    of processes that follows from it; \<open>Sched\<close> interprets it and \<open>Machine\<close> uses the interpretation.
  \<^item> \<open>Sched\<close>: \<^verbatim>\<open>sched.c\<close>; the unbounded loop of \<open>get_mlq_proc\<close> always returns and implements the
    policy stated directly (\<open>mlq_pick\<close>); work conservation; budgets.
  \<^item> \<open>MemPhy\<close>: \<^verbatim>\<open>mm-memphy.c\<close>; locales \<open>frame_pool\<close> and \<open>byte_store\<close> are what paging relies on.
  \<^item> \<open>Paging\<close>, \<open>Frames\<close>: \<^verbatim>\<open>mm.c\<close> and victim selection; ownership of frames (\<open>frames_inv\<close>): every
    allocation, with eviction or without, keeps frames of different pages and processes apart.
  \<^item> \<open>Area\<close>: \<^verbatim>\<open>mm-vm.c\<close>, \<^verbatim>\<open>sys_mem.c\<close>; growth of the heap.
  \<^item> \<open>Region\<close>: \<^verbatim>\<open>libmem.c\<close>; allocation, freeing, reading and writing of regions.
  \<^item> \<open>Syscall\<close>: \<^verbatim>\<open>syscall.c\<close>, \<^verbatim>\<open>libstd.c\<close> and the handlers, with \<open>killall\<close>.
  \<^item> \<open>Cpu\<close>: \<^verbatim>\<open>cpu.c\<close>; one instruction, and isolation of processes (\<open>kernel_inv\<close>).
  \<^item> \<open>Loader\<close>: \<^verbatim>\<open>loader.c\<close>; the inverse of writing a program down.
  \<^item> \<open>Legacy_Mem\<close>: \<^verbatim>\<open>mem.c\<close> and the register operations of \<^verbatim>\<open>cpu.c\<close>, compiled but unused.
  \<^item> \<open>Timer\<close>: \<^verbatim>\<open>timer.c\<close> as an \<open>inductive\<close> step relation; barrier, absence of deadlock, end of the thread.
  \<^item> \<open>Os\<close>, \<open>Machine\<close>: \<^verbatim>\<open>os.c\<close>; configuration, threads and their interleaving, and the invariant of the machine.
  \<^item> \<open>Config\<close>: the command line and the configuration file of \<^verbatim>\<open>os.c\<close>; the inverse of writing a configuration down.
  \<^item> \<open>Isolation\<close>: the frames of the processes in every interleaving; it carries the invariant of \<open>Cpu\<close> for one
    instruction through the loader, the scheduler and all processors (\<open>mem_inv\<close>).
  \<^item> \<open>Virtual\<close>: the abstract specification of the memory: a private space of bytes, regions and symbols (\<open>vspace\<close>) in
    which an instruction is a pure function (\<open>vstep\<close>); the refinement of \<open>run\<close> to it (\<open>vspace_of\<close>), while no page is evicted.
  \<^item> \<open>Slices\<close>: the time slice of a processor; with one processor the budget is exact (\<open>one_ok\<close>).
  \<^item> \<open>Budget\<close>: the same with any number of processors: what has been charged and what is still to be charged is at most what has
    been executed, which the ledger of \<open>Clock\<close> counts; so no number of the slices overflows.
  \<^item> \<open>Trace\<close>: the messages of the threads and the executed instructions as events; \<open>replay\<close> follows them, and
    \<open>trace_inv\<close> relates what has been followed to the state of the machine.
  \<^item> \<open>Completion\<close>: no process gets lost as long as the queues cannot overflow (\<open>kept\<close>), so that at the end every
    program has been executed once.  A queue holds \<open>MAX_QUEUE_SIZE\<close> = 10 processes and drops the next one silently, so the
    theorems that need every process (\<open>written_programs_run\<close>, \<open>all_programs_completed\<close>, \<open>every_schedule_ends\<close>,
    \<open>contained_machine_completes\<close>) assume at most ten processes.
  \<^item> \<open>Clock\<close>: an account of the time slots; it bounds the clock by \<open>clock_limit\<close>: the last start time, plus the number of
    processes, plus 1, plus for every process the number of its instructions and 1.
  \<^item> \<open>Halting\<close>: a variant that every step lowers, and that some thread can always step.
  \<^item> \<open>Runs\<close>, \<open>Machine_Props\<close>, \<open>Schedule\<close>: concrete runs of the machine, and its properties.
  \<^item> \<open>Written\<close>: from the text of the files to the executed instructions.
  \<^item> \<open>Private\<close>: the private memories in every interleaving (\<open>private_inv\<close> joins \<open>trace_inv\<close>, \<open>mem_inv\<close> and an account
    of the frames) for programs that fit (\<open>contained\<close>, computed from the programs alone), and that the machine completes them.
  \<^item> \<open>Mem_Test\<close>: the stand-alone program of \<^verbatim>\<open>paging.c\<close>.
  \<^item> \<open>Locks\<close>: the sequences in which the operations lock and unlock the mutexes; the locale \<open>lock_order\<close> (no deadlock when
    all lock in one order) and its interpretation on them.
  \<^item> \<open>Interleave\<close>: what other threads can do inside a step of the machine: between the two critical sections of \<open>put_proc\<close>,
    during an instruction that reads without a lock, and inside \<open>update_slot\<close>.

  \<^bold>\<open>Conventions.\<close>  A struct is a record, an enum a datatype.  \<open>int\<close> and \<open>unsigned\<close> values are integers with
  the conversions written out (\<open>to_i32\<close>, \<open>to_u32\<close>, \<open>to_u64\<close>); page table entries are \<open>32 word\<close>, bytes \<open>8 word\<close>.
  A NULL or wild pointer that is followed, an index out of bounds, a read of uninitialised memory or of a
  freed block is a value \<open>Inl fault\<close>; status codes of the C code are ordinary results.  The
  charge in \<open>update_slot\<close> is computed without a limit; \<open>slices_never_overflow\<close> shows that it stays in range.  What \<open>malloc\<close> and the stack
  contain is a parameter (\<open>zeroed\<close> and the initial records), so statements hold for every content unless they
  say otherwise.  Control blocks live in a map from addresses to records (\<open>pcbs\<close>); \<open>malloc\<close> may return any
  unused address, also one that was freed.  \<open>malloc\<close> is taken to succeed for every size that is not negative, so the storage of a
  device is never NULL and the test of \<open>MEMPHY_dump\<close> for that has no counterpart.

  \<^bold>\<open>Concurrency.\<close>  In the machine a step of a processor is one scheduler call, one instruction, or one \<open>next_slot\<close>, and every
  thread may run between two of them; each critical section of the timer is one step, and waiting on a condition variable is a step
  that is possible when the condition holds.  Scheduler calls run under the scheduler lock: \<open>put_proc\<close> and \<open>add_proc\<close> in
  two critical sections, of which the first cannot be noticed (\<open>running_list_unnoticed\<close>); \<open>update_slot\<close> and
  \<open>get_slot\<close> without it (\<open>charge_lost\<close>, see the findings).  \<open>__alloc\<close>, \<open>__free\<close> and \<open>__write\<close> run under
  \<open>mmvm_lock\<close>; \<open>__read\<close> takes no lock, and for a page that is online it need not (\<open>unlocked_read_is_atomic\<close>).  That the mutexes are
  taken in one order and always released is \<open>locks_never_deadlock\<close>.

  \<^bold>\<open>Termination.\<close>  Loops are structural or \<open>function\<close>s with a measure; \<open>get_mlq_loop\<close> is a
  \<open>partial_function\<close> proved to return.  The round of the timer thread takes \<open>2 * n + 3\<close> turns for \<open>n\<close> devices.
  No fuel is used.  The machine as a whole terminates under every schedule: a step lowers the lexicographic \<open>variant\<close> of the slots
  that are left, the place of the timer in its round, and the distance of every thread from the end of its slot.

  \<^bold>\<open>Not modelled.\<close>  The line the loader prints when it starts (the other messages of \<^verbatim>\<open>os.c\<close> are events of theory \<open>Trace\<close>; the dumps of the
  memory library and the output of system calls are results of their functions); the generator of the system call table, whose output is a constant of \<open>Syscall\<close>; the macros \<^verbatim>\<open>BIT_ULL_MASK\<close> and \<^verbatim>\<open>BIT_ULL_WORD\<close>, which
  use an undefined constant.  The safety properties of the
  machine assume that no program uses system call 101: \<open>killall\<close> frees processes that other threads hold.  Isolation of memory
  assumes in addition that an executed instruction stays inside the memory of its process (no system call 17, no
  access to a page that is not online, no \<open>alloc\<close> beyond the bus), which is proved for programs that fit RAM (\<open>memory_is_private\<close>), and
  that what \<open>init_mm\<close> leaves uninitialised reads as empty.  For programs that need more pages than RAM has there is only the
  ownership of frames: an evicted page is never brought back (\<open>swapped_page_never_swapped_in\<close>), so no private memory is refined.
\<close>

end
